(* ===== verification/Prelude.thy ===== *)
theory Prelude
  imports
    Main
    "HOL-Library.Word"
    "HOL-Library.Multiset"
    "HOL-Library.AList"
    "HOL-Library.Char_ord"
    "HOL-Library.List_Lexorder"
    "HOL-Library.Product_Lexorder"
begin

text \<open>
  Shared vocabulary of the development: the names of Rust's integer types, the
  integer operations the code calls (\<open>saturating_sub\<close>), the standard library's ordered
  map \<open>BTreeMap\<close> as a strictly sorted association list, counted multisets on top of it
  (the code's \<open>BTreeMap<u64, u32>\<close>), and two generic machines that lift a fact about one
  operation to a fact about every run.
  Theorem collections: \<open>bt_simps\<close> rewrites ordered-map operations, \<open>u64_simps\<close> rewrites
  word arithmetic to arithmetic on naturals.
\<close>

unbundle bit_operations_syntax

section \<open>Integer types\<close>

type_synonym u8 = "8 word"
type_synonym u32 = "32 word"
type_synonym u64 = "64 word"
type_synonym u128 = "128 word"
type_synonym usize = nat

named_theorems bt_simps "rewriting of ordered-map operations"
named_theorems u64_simps "word arithmetic on naturals"

definition sat_sub :: "u64 \<Rightarrow> u64 \<Rightarrow> u64" where
  "sat_sub a b = (if a < b then 0 else a - b)"

lemma unat_sat_sub [u64_simps]: "unat (sat_sub a b) = unat a - unat b"
  by (auto simp: sat_sub_def word_less_nat_alt unat_sub_if')

lemma sat_sub_0 [simp]: "sat_sub a 0 = a"
  by (simp add: sat_sub_def)

lemma sat_sub_le: "sat_sub a b \<le> a"
  by (simp add: word_le_nat_alt unat_sat_sub)

lemma unat_add_small [u64_simps]:
  fixes a b :: "'a::len word"
  assumes "unat a + unat b < 2 ^ LENGTH('a)"
  shows "unat (a + b) = unat a + unat b"
  using assms by (simp add: unat_word_ariths)

section \<open>The ordered map\<close>

text \<open>
  Rust's \<open>BTreeMap\<close>: a list of key-value pairs with strictly increasing keys. \<open>bt_get\<close>,
  \<open>bt_insert\<close>, \<open>bt_remove\<close>, \<open>bt_pop_first\<close> are \<open>get\<close>, \<open>insert\<close>, \<open>remove\<close> and \<open>pop_first\<close>.
\<close>

type_synonym ('k, 'v) btree = "('k \<times> 'v) list"

abbreviation bt_get :: "('k, 'v) btree \<Rightarrow> 'k \<rightharpoonup> 'v" where
  "bt_get m \<equiv> map_of m"

abbreviation bt_keys :: "('k, 'v) btree \<Rightarrow> 'k list" where
  "bt_keys m \<equiv> map fst m"

definition bt_ok :: "('k::linorder, 'v) btree \<Rightarrow> bool" where
  "bt_ok m = sorted_wrt (<) (bt_keys m)"

fun bt_insert :: "'k::linorder \<Rightarrow> 'v \<Rightarrow> ('k, 'v) btree \<Rightarrow> ('k, 'v) btree" where
  "bt_insert k v [] = [(k, v)]"
| "bt_insert k v (p # m) =
     (if k = fst p then (k, v) # m
      else if k < fst p then (k, v) # p # m
      else p # bt_insert k v m)"

fun bt_remove :: "'k \<Rightarrow> ('k, 'v) btree \<Rightarrow> ('k, 'v) btree" where
  "bt_remove k [] = []"
| "bt_remove k (p # m) = (if fst p = k then m else p # bt_remove k m)"

fun bt_pop_first :: "('k, 'v) btree \<Rightarrow> ('k, 'v) btree" where
  "bt_pop_first [] = []"
| "bt_pop_first (p # m) = m"

text \<open>\<open>m.entry(k).or_default().push(x)\<close>, on a map of vectors.\<close>

definition bt_push :: "'k::linorder \<Rightarrow> 'v \<Rightarrow> ('k, 'v list) btree \<Rightarrow> ('k, 'v list) btree" where
  "bt_push k x m = bt_insert k ((case bt_get m k of None \<Rightarrow> [] | Some xs \<Rightarrow> xs) @ [x]) m"

lemma bt_ok_Nil [simp]: "bt_ok []"
  by (simp add: bt_ok_def)

lemma bt_ok_Cons: "bt_ok (p # m) \<longleftrightarrow> (\<forall>k \<in> set (bt_keys m). fst p < k) \<and> bt_ok m"
  by (auto simp: bt_ok_def)

lemma bt_ok_distinct: "bt_ok m \<Longrightarrow> distinct (bt_keys m)"
  by (induction m) (auto simp: bt_ok_Cons)

lemma bt_keys_insert [bt_simps]: "set (bt_keys (bt_insert k v m)) = insert k (set (bt_keys m))"
  by (induction m) auto

lemma bt_get_none: "bt_ok (p # m) \<Longrightarrow> k \<le> fst p \<Longrightarrow> bt_get m k = None"
  by (auto simp: bt_ok_Cons map_of_eq_None_iff)

lemma bt_get_below: "\<forall>x \<in> set m. (a :: _ :: linorder) < fst x \<Longrightarrow> k < a \<Longrightarrow> bt_get m k = None"
  by (force simp: map_of_eq_None_iff)

lemma bt_get_insert [bt_simps]: "bt_ok m \<Longrightarrow> bt_get (bt_insert k v m) = (bt_get m)(k \<mapsto> v)"
proof (induction m)
  case Nil
  then show ?case by (auto simp: fun_eq_iff)
next
  case (Cons p m)
  then have "bt_ok m" by (simp add: bt_ok_Cons)
  with Cons.IH show ?case by (cases p) (auto simp: fun_eq_iff)
qed

lemma bt_ok_insert [bt_simps]: "bt_ok m \<Longrightarrow> bt_ok (bt_insert k v m)"
proof (induction m)
  case Nil
  then show ?case by (simp add: bt_ok_Cons)
next
  case (Cons p m)
  then have "bt_ok m" and first: "\<forall>k' \<in> set (bt_keys m). fst p < k'"
    by (simp_all add: bt_ok_Cons)
  with Cons.IH have "bt_ok (bt_insert k v m)" by simp
  with first \<open>bt_ok m\<close> show ?case
    by (auto simp: bt_ok_Cons bt_keys_insert dest: order_less_trans
        simp del: set_map)
qed

lemma bt_keys_remove_subset: "set (bt_keys (bt_remove k m)) \<subseteq> set (bt_keys m)"
  by (induction m) auto

lemma bt_keys_remove: "distinct (bt_keys m) \<Longrightarrow> set (bt_keys (bt_remove k m)) = set (bt_keys m) - {k}"
  by (induction m) (auto intro: rev_image_eqI)

lemma bt_get_remove [bt_simps]: "bt_ok m \<Longrightarrow> bt_get (bt_remove k m) = (bt_get m)(k := None)"
proof (induction m)
  case Nil
  then show ?case by simp
next
  case (Cons p m)
  then have "bt_ok m" by (simp add: bt_ok_Cons)
  with Cons show ?case
    using bt_get_none [of p m "fst p"] by (cases p) (auto simp: fun_eq_iff)
qed

lemma bt_ok_remove [bt_simps]: "bt_ok m \<Longrightarrow> bt_ok (bt_remove k m)"
proof (induction m)
  case (Cons p m)
  then show ?case
    using bt_keys_remove_subset [of k m] by (auto simp: bt_ok_Cons simp del: set_map)
qed simp

lemma bt_ok_pop_first [bt_simps]: "bt_ok m \<Longrightarrow> bt_ok (bt_pop_first m)"
  by (cases m) (auto simp: bt_ok_Cons)

lemma length_bt_pop_first [bt_simps]: "length (bt_pop_first m) = length m - 1"
  by (cases m) auto

lemma bt_remove_absent: "bt_get m k = None \<Longrightarrow> bt_remove k m = m"
  by (induction m) (auto split: if_splits)

lemma bt_ok_push [bt_simps]: "bt_ok m \<Longrightarrow> bt_ok (bt_push k x m)"
  by (simp add: bt_push_def bt_ok_insert)

lemma bt_get_push [bt_simps]:
  "bt_ok m \<Longrightarrow> bt_get (bt_push k x m) =
     (bt_get m)(k \<mapsto> (case bt_get m k of None \<Rightarrow> [] | Some xs \<Rightarrow> xs) @ [x])"
  by (simp add: bt_push_def bt_get_insert)

lemma length_bt_insert:
  "bt_ok m \<Longrightarrow> length (bt_insert k v m) = (if bt_get m k = None then Suc (length m) else length m)"
proof (induction m)
  case (Cons p m)
  then have "bt_ok m" by (simp add: bt_ok_Cons)
  with Cons show ?case
    using bt_get_none [of p m k] by (cases p) auto
qed simp

lemma bt_insert_present_keys: "bt_get m k \<noteq> None \<Longrightarrow> bt_ok m \<Longrightarrow> bt_keys (bt_insert k v m) = bt_keys m"
proof (induction m)
  case (Cons p m)
  then show ?case
    using bt_get_below [of m "fst p" k] by (cases p) (auto simp: bt_ok_Cons split: if_splits)
qed simp

subsection \<open>Total size of a map of vectors\<close>

definition bt_total :: "('k, 'v list) btree \<Rightarrow> nat" where
  "bt_total m = sum_list (map (length \<circ> snd) m)"

definition bt_values :: "('k, 'v list) btree \<Rightarrow> 'v list" where
  "bt_values m = concat (map snd m)"

lemma bt_total_Nil [simp]: "bt_total [] = 0"
  by (simp add: bt_total_def)

lemma bt_total_Cons [simp]: "bt_total (p # m) = length (snd p) + bt_total m"
  by (simp add: bt_total_def)

lemma bt_values_Nil [simp]: "bt_values [] = []"
  by (simp add: bt_values_def)

lemma bt_values_Cons [simp]: "bt_values (p # m) = snd p @ bt_values m"
  by (simp add: bt_values_def)

lemma length_bt_values: "length (bt_values m) = bt_total m"
  by (induction m) auto

lemma bt_total_remove:
  "bt_get m k = Some xs \<Longrightarrow> bt_total m = length xs + bt_total (bt_remove k m)"
  by (induction m) (auto split: if_splits)

lemma mset_bt_values_remove:
  "bt_get m k = Some xs \<Longrightarrow> mset (bt_values m) = mset xs + mset (bt_values (bt_remove k m))"
  by (induction m) (auto split: if_splits)

lemma mset_bt_values_insert_fresh:
  "bt_get m k = None \<Longrightarrow> mset (bt_values (bt_insert k xs m)) = mset xs + mset (bt_values m)"
  by (induction m) (auto split: if_splits)

lemma mset_bt_values_insert_present:
  "bt_ok m \<Longrightarrow> bt_get m k = Some ys \<Longrightarrow>
     mset (bt_values (bt_insert k xs m)) + mset ys = mset xs + mset (bt_values m)"
proof (induction m)
  case (Cons p m)
  then show ?case
    using bt_get_below [of m "fst p" k] by (cases p) (auto simp: bt_ok_Cons split: if_splits)
qed simp

lemma mset_bt_values_push:
  assumes "bt_ok m"
  shows "mset (bt_values (bt_push k x m)) = add_mset x (mset (bt_values m))"
proof (cases "bt_get m k")
  case None
  then show ?thesis by (simp add: bt_push_def mset_bt_values_insert_fresh)
next
  case (Some ys)
  have "mset (bt_values (bt_push k x m)) + mset ys = add_mset x (mset (bt_values m)) + mset ys"
    using mset_bt_values_insert_present [OF assms Some, of "ys @ [x]"] Some
    by (simp add: bt_push_def)
  then show ?thesis by (rule add_right_imp_eq)
qed

lemma bt_total_push: "bt_ok m \<Longrightarrow> bt_total (bt_push k x m) = Suc (bt_total m)"
  by (metis length_bt_values mset_bt_values_push size_mset size_add_mset)

lemma set_bt_values_push: "bt_ok m \<Longrightarrow> set (bt_values (bt_push k x m)) = insert x (set (bt_values m))"
  by (metis mset_bt_values_push set_mset_add_mset_insert set_mset_mset)

lemma bt_total_pop_first: "m = p # m' \<Longrightarrow> bt_total m = length (snd p) + bt_total (bt_pop_first m)"
  by simp

lemma bt_total_remove_le: "bt_total (bt_remove k m) \<le> bt_total m"
  by (induction m) auto

lemma bt_get_in_values: "bt_get m k = Some xs \<Longrightarrow> set xs \<subseteq> set (bt_values m)"
  by (induction m) (auto split: if_splits)

section \<open>The interface of a map of waiting lists\<close>

text \<open>
  Two components park items under the id of something that has not arrived: the driver parks
  events under their span, the aggregator parks spans under their parent. Both rely on the same
  contract: pushing adds exactly the item, taking the list of a key removes exactly that list.
\<close>

locale parking =
  fixes held :: "'m \<Rightarrow> 'v list"
    and waiting :: "'m \<Rightarrow> 'k \<Rightarrow> 'v list option"
    and push :: "'k \<Rightarrow> 'v \<Rightarrow> 'm \<Rightarrow> 'm"
    and take_out :: "'k \<Rightarrow> 'm \<Rightarrow> 'm"
    and ok :: "'m \<Rightarrow> bool"
  assumes push_ok: "ok m \<Longrightarrow> ok (push k x m)"
    and take_ok: "ok m \<Longrightarrow> ok (take_out k m)"
    and push_held: "ok m \<Longrightarrow> mset (held (push k x m)) = add_mset x (mset (held m))"
    and take_held: "ok m \<Longrightarrow> waiting m k = Some xs \<Longrightarrow> mset (held m) = mset xs + mset (held (take_out k m))"
    and push_waiting: "ok m \<Longrightarrow>
      waiting (push k x m) = (waiting m)(k \<mapsto> (case waiting m k of None \<Rightarrow> [] | Some xs \<Rightarrow> xs) @ [x])"
    and take_waiting: "ok m \<Longrightarrow> waiting (take_out k m) = (waiting m)(k := None)"
begin

fun park_all :: "('k \<times> 'v) list \<Rightarrow> 'm \<Rightarrow> 'm" where
  "park_all [] m = m"
| "park_all ((k, x) # ps) m = park_all ps (push k x m)"

lemma park_all_ok: "ok m \<Longrightarrow> ok (park_all ps m)"
  by (induction ps m rule: park_all.induct) (auto intro: push_ok)

lemma park_all_held: "ok m \<Longrightarrow> mset (held (park_all ps m)) = mset (map snd ps) + mset (held m)"
  by (induction ps m rule: park_all.induct) (auto simp: push_held push_ok)

text \<open>What was parked under a key is found under it, in order of arrival.\<close>

lemma park_all_waiting:
  "ok m \<Longrightarrow> (case waiting (park_all ps m) k of None \<Rightarrow> [] | Some xs \<Rightarrow> xs) =
     (case waiting m k of None \<Rightarrow> [] | Some xs \<Rightarrow> xs) @ map snd (filter (\<lambda>p. fst p = k) ps)"
  by (induction ps m rule: park_all.induct) (auto simp: push_waiting push_ok)

lemma take_after_park:
  "ok m \<Longrightarrow> waiting (take_out k (park_all ps m)) k = None"
  by (simp add: take_waiting park_all_ok)

end

interpretation bt_parking: parking bt_values bt_get bt_push bt_remove bt_ok
  by unfold_locales
    (simp_all add: bt_simps mset_bt_values_push mset_bt_values_remove)

section \<open>Channels\<close>

text \<open>What \<open>send\<close> and \<open>send_many\<close> of a \<open>spillway\<close> channel answer; a full channel takes nothing.\<close>

datatype send_outcome = SendOk | SendFull | SendClosed

section \<open>Runs of operations that may fail\<close>

fun run_opt :: "('s \<Rightarrow> 'e \<Rightarrow> 's option) \<Rightarrow> 's \<Rightarrow> 'e list \<Rightarrow> 's option" where
  "run_opt step s [] = Some s"
| "run_opt step s (e # es) = (case step s e of None \<Rightarrow> None | Some s' \<Rightarrow> run_opt step s' es)"

text \<open>
  A machine whose every permitted operation returns and keeps an invariant: every permitted run
  returns and keeps it. \<open>ok s e\<close> is what the environment guarantees of an operation in a state.
\<close>

locale guarded_machine =
  fixes step :: "'s \<Rightarrow> 'e \<Rightarrow> 's option"
    and ok :: "'s \<Rightarrow> 'e \<Rightarrow> bool"
    and inv :: "'s \<Rightarrow> bool"
  assumes progress: "inv s \<Longrightarrow> ok s e \<Longrightarrow> \<exists>s'. step s e = Some s' \<and> inv s'"
begin

fun all_ok :: "'s \<Rightarrow> 'e list \<Rightarrow> bool" where
  "all_ok s [] = True"
| "all_ok s (e # es) = (ok s e \<and> (\<forall>s'. step s e = Some s' \<longrightarrow> all_ok s' es))"

lemma run_returns: "inv s \<Longrightarrow> all_ok s es \<Longrightarrow> \<exists>s'. run_opt step s es = Some s' \<and> inv s'"
proof (induction es arbitrary: s)
  case (Cons e es)
  then obtain s1 where "step s e = Some s1" "inv s1"
    using progress [of s e] by auto
  with Cons show ?case by auto
qed simp

lemma all_ok_append:
  "all_ok s (xs @ ys) \<longleftrightarrow> all_ok s xs \<and> (\<forall>s'. run_opt step s xs = Some s' \<longrightarrow> all_ok s' ys)"
  by (induction xs arbitrary: s) (auto split: option.splits)

lemma run_inv: "inv s \<Longrightarrow> all_ok s es \<Longrightarrow> run_opt step s es = Some s' \<Longrightarrow> inv s'"
  using run_returns by fastforce

end

lemma run_opt_append:
  "run_opt step s (xs @ ys) = (case run_opt step s xs of None \<Rightarrow> None | Some s' \<Rightarrow> run_opt step s' ys)"
  by (induction xs arbitrary: s) (auto split: option.splits)

end
