(* ===== verification/Float64.thy ===== *)
theory Float64
  imports Complex_Main Prelude
begin

text \<open>
  Rust's \<open>f64\<close>: IEEE 754 binary64 values with the operations of the standard library that the
  code calls. A finite non-zero value is the rational number it denotes; every arithmetic operation
  computes the exact result and rounds it once, to nearest with ties to even (\<open>rnd64\<close>). The
  negative zero has its own constructor, NaN has no payload. Comparisons follow IEEE: every
  comparison with NaN is false.
\<close>

datatype f64 = NaN | PosInf | NegInf | NegZero | Fin rat

section \<open>Rounding\<close>

fun round_half_even :: "rat \<Rightarrow> int" where
  "round_half_even q =
     (let f = \<lfloor>q\<rfloor>; d = q - of_int f
      in if d < 1 / 2 then f else if 1 / 2 < d then f + 1 else if even f then f else f + 1)"

definition pow2 :: "int \<Rightarrow> rat" where
  "pow2 e = (if 0 \<le> e then 2 ^ nat e else 1 / 2 ^ nat (- e))"

fun ilog2 :: "int \<Rightarrow> int" where
  "ilog2 n = (if n \<le> 1 then 0 else 1 + ilog2 (n div 2))"

declare ilog2.simps [simp del]

text \<open>\<open>rnd64\<close> overflows when the rounded magnitude reaches \<open>2\<^sup>1\<^sup>0\<^sup>2\<^sup>4\<close>. \<open>flog2 q\<close> is the exponent \<open>e\<close> with \<open>2\<^sup>e \<le> q < 2\<^sup>e\<^sup>+\<^sup>1\<close>, for positive \<open>q\<close>.\<close>

definition flog2 :: "rat \<Rightarrow> int" where
  "flog2 q = (let (n, d) = quotient_of q; e = ilog2 n - ilog2 d
     in if pow2 e \<le> q then e else e - 1)"

definition rnd64 :: "rat \<Rightarrow> f64" where
  "rnd64 q =
     (if q = 0 then Fin 0
      else let ulp = pow2 (max (flog2 \<bar>q\<bar> - 52) (- 1074));
               r = of_int (round_half_even (\<bar>q\<bar> / ulp)) * ulp
           in if 1024 \<le> flog2 r then (if q < 0 then NegInf else PosInf)
              else if r = 0 then (if q < 0 then NegZero else Fin 0)
              else Fin (if q < 0 then - r else r))"

section \<open>Classification and comparison\<close>

fun f64_val :: "f64 \<Rightarrow> rat" where
  "f64_val (Fin q) = q"
| "f64_val _ = 0"

definition f64_is_nan :: "f64 \<Rightarrow> bool" where
  "f64_is_nan x = (x = NaN)"

definition f64_is_finite :: "f64 \<Rightarrow> bool" where
  "f64_is_finite x = (x \<noteq> NaN \<and> x \<noteq> PosInf \<and> x \<noteq> NegInf)"

definition f64_is_neg :: "f64 \<Rightarrow> bool" where
  "f64_is_neg x = (x = NegInf \<or> x = NegZero \<or> f64_val x < 0)"

definition f64_lt :: "f64 \<Rightarrow> f64 \<Rightarrow> bool" where
  "f64_lt a b =
     (if a = NaN \<or> b = NaN \<or> a = PosInf \<or> b = NegInf then False
      else if a = NegInf \<or> b = PosInf then True
      else f64_val a < f64_val b)"

definition f64_eq :: "f64 \<Rightarrow> f64 \<Rightarrow> bool" where
  "f64_eq a b =
     (if a = NaN \<or> b = NaN then False
      else if f64_is_finite a \<and> f64_is_finite b then f64_val a = f64_val b
      else a = b)"

definition f64_le :: "f64 \<Rightarrow> f64 \<Rightarrow> bool" where
  "f64_le a b = (f64_lt a b \<or> f64_eq a b)"

text \<open>\<open>clamp\<close>, \<open>min\<close>, \<open>max\<close>; \<open>min\<close> and \<open>max\<close> return the other operand for a NaN.\<close>

definition f64_clamp :: "f64 \<Rightarrow> f64 \<Rightarrow> f64 \<Rightarrow> f64" where
  "f64_clamp lo hi x = (let y = (if f64_lt x lo then lo else x) in if f64_lt hi y then hi else y)"

definition f64_max :: "f64 \<Rightarrow> f64 \<Rightarrow> f64" where
  "f64_max a b = (if a = NaN then b else if b = NaN then a else if f64_lt a b then b else a)"

section \<open>Arithmetic\<close>

definition f64_signed_zero :: "bool \<Rightarrow> f64" where
  "f64_signed_zero neg = (if neg then NegZero else Fin 0)"

definition f64_signed_inf :: "bool \<Rightarrow> f64" where
  "f64_signed_inf neg = (if neg then NegInf else PosInf)"

definition f64_is_zero :: "f64 \<Rightarrow> bool" where
  "f64_is_zero x = (f64_is_finite x \<and> f64_val x = 0)"

definition f64_mul :: "f64 \<Rightarrow> f64 \<Rightarrow> f64" where
  "f64_mul a b =
     (let neg = (f64_is_neg a \<noteq> f64_is_neg b)
      in if a = NaN \<or> b = NaN then NaN
         else if \<not> f64_is_finite a then (if f64_is_zero b then NaN else f64_signed_inf neg)
         else if \<not> f64_is_finite b then (if f64_is_zero a then NaN else f64_signed_inf neg)
         else if f64_is_zero a \<or> f64_is_zero b then f64_signed_zero neg
         else rnd64 (f64_val a * f64_val b))"

definition f64_div :: "f64 \<Rightarrow> f64 \<Rightarrow> f64" where
  "f64_div a b =
     (let neg = (f64_is_neg a \<noteq> f64_is_neg b)
      in if a = NaN \<or> b = NaN then NaN
         else if \<not> f64_is_finite a then (if f64_is_finite b then f64_signed_inf neg else NaN)
         else if \<not> f64_is_finite b then f64_signed_zero neg
         else if f64_is_zero b then (if f64_is_zero a then NaN else f64_signed_inf neg)
         else if f64_is_zero a then f64_signed_zero neg
         else rnd64 (f64_val a / f64_val b))"

definition f64_neg :: "f64 \<Rightarrow> f64" where
  "f64_neg a =
     (case a of NaN \<Rightarrow> NaN | PosInf \<Rightarrow> NegInf | NegInf \<Rightarrow> PosInf | NegZero \<Rightarrow> Fin 0
      | Fin q \<Rightarrow> (if q = 0 then NegZero else Fin (- q)))"

definition f64_add :: "f64 \<Rightarrow> f64 \<Rightarrow> f64" where
  "f64_add a b =
     (if a = NaN \<or> b = NaN then NaN
      else if \<not> f64_is_finite a then (if \<not> f64_is_finite b \<and> a \<noteq> b then NaN else a)
      else if \<not> f64_is_finite b then b
      else if a = NegZero \<and> b = NegZero then NegZero
      else rnd64 (f64_val a + f64_val b))"

definition f64_sub :: "f64 \<Rightarrow> f64 \<Rightarrow> f64" where
  "f64_sub a b = f64_add a (f64_neg b)"

section \<open>Conversions\<close>

definition f64_of_int :: "int \<Rightarrow> f64" where
  "f64_of_int n = rnd64 (of_int n)"

definition f64_of_u64 :: "u64 \<Rightarrow> f64" where
  "f64_of_u64 w = f64_of_int (uint w)"

text \<open>\<open>round()\<close> rounds half away from zero, \<open>ceil()\<close> upwards; both are exact.\<close>

definition f64_round :: "f64 \<Rightarrow> f64" where
  "f64_round x =
     (if f64_is_finite x \<and> \<not> f64_is_zero x
      then (let r = \<lfloor>\<bar>f64_val x\<bar> + 1 / 2\<rfloor>
            in if r = 0 then f64_signed_zero (f64_is_neg x)
               else Fin (if f64_is_neg x then - of_int r else of_int r))
      else x)"

definition f64_ceil :: "f64 \<Rightarrow> f64" where
  "f64_ceil x =
     (if f64_is_finite x \<and> \<not> f64_is_zero x
      then (let r = \<lceil>f64_val x\<rceil>
            in if r = 0 then f64_signed_zero (f64_is_neg x) else Fin (of_int r))
      else x)"

text \<open>\<open>as u64\<close> truncates towards zero and saturates; NaN becomes 0.\<close>

definition f64_to_uint :: "int \<Rightarrow> f64 \<Rightarrow> int" where
  "f64_to_uint bound x =
     (case x of
        NaN \<Rightarrow> 0
      | PosInf \<Rightarrow> bound
      | NegInf \<Rightarrow> 0
      | NegZero \<Rightarrow> 0
      | Fin q \<Rightarrow> if q \<le> 0 then 0 else min bound \<lfloor>q\<rfloor>)"

definition f64_to_u64 :: "f64 \<Rightarrow> u64" where
  "f64_to_u64 x = of_int (f64_to_uint 18446744073709551615 x)"

definition f64_to_usize :: "f64 \<Rightarrow> usize" where
  "f64_to_usize x = nat (f64_to_uint 18446744073709551615 x)"

section \<open>Parsing\<close>

text \<open>
  \<open>str::parse::<f64>()\<close>: an optional sign, then \<open>inf\<close>, \<open>infinity\<close> or \<open>nan\<close> in any case, or
  decimal digits with at most one point and at least one digit, and an optional exponent. The
  decimal value is exact and rounded once.
\<close>

definition is_digit :: "char \<Rightarrow> bool" where
  "is_digit c = (CHR ''0'' \<le> c \<and> c \<le> CHR ''9'')"

definition digit_val :: "char \<Rightarrow> int" where
  "digit_val c = of_char c - 48"

definition digits_val :: "string \<Rightarrow> int" where
  "digits_val ds = foldl (\<lambda>acc c. 10 * acc + digit_val c) 0 ds"

definition to_ascii_lowercase :: "char \<Rightarrow> char" where
  "to_ascii_lowercase c =
     (if CHR ''A'' \<le> c \<and> c \<le> CHR ''Z'' then char_of (of_char c + 32 :: nat) else c)"

definition split_sign :: "string \<Rightarrow> bool \<times> string" where
  "split_sign s =
     (case s of [] \<Rightarrow> (False, [])
      | c # r \<Rightarrow> if c = CHR ''-'' then (True, r) else if c = CHR ''+'' then (False, r) else (False, s))"

definition parse_exponent :: "string \<Rightarrow> int option" where
  "parse_exponent s =
     (case s of [] \<Rightarrow> Some 0
      | c # r \<Rightarrow>
          if to_ascii_lowercase c = CHR ''e'' then
            (let (neg, ds) = split_sign r
             in if ds \<noteq> [] \<and> list_all is_digit ds
                then Some (if neg then - digits_val ds else digits_val ds) else None)
          else None)"

definition pow10 :: "int \<Rightarrow> rat" where
  "pow10 e = (if 0 \<le> e then 10 ^ nat e else 1 / 10 ^ nat (- e))"

definition parse_decimal :: "string \<Rightarrow> rat option" where
  "parse_decimal s =
     (let ip = takeWhile is_digit s; r = dropWhile is_digit s;
          (fp, r') = (case r of [] \<Rightarrow> ([], [])
                      | c # r1 \<Rightarrow> if c = CHR ''.'' then (takeWhile is_digit r1, dropWhile is_digit r1)
                                  else ([], r))
      in if ip = [] \<and> fp = [] then None
         else (case parse_exponent r' of None \<Rightarrow> None
               | Some e \<Rightarrow> Some (of_int (digits_val (ip @ fp)) * pow10 (e - int (length fp)))))"

definition parse_f64 :: "string \<Rightarrow> f64 option" where
  "parse_f64 s =
     (let (neg, r) = split_sign s; l = map to_ascii_lowercase r
      in if l = ''inf'' \<or> l = ''infinity'' then Some (f64_signed_inf neg)
         else if l = ''nan'' then Some NaN
         else (case parse_decimal r of None \<Rightarrow> None
               | Some q \<Rightarrow> Some (if q = 0 then f64_signed_zero neg
                                 else rnd64 (if neg then - q else q))))"

section \<open>Display\<close>

text \<open>Decimal digits of an unsigned and of a signed integer, as \<open>{}\<close> prints them.\<close>

fun show_uint :: "int \<Rightarrow> string" where
  "show_uint n = (if n < 10 then [char_of (48 + n)] else show_uint (n div 10) @ [char_of (48 + n mod 10)])"

declare show_uint.simps [simp del]

definition show_int :: "int \<Rightarrow> string" where
  "show_int i = (if i < 0 then CHR ''-'' # show_uint (- i) else show_uint i)"

text \<open>
  \<open>{}\<close> on a float prints the shortest decimal that reads back as the same value, closest to it
  among those of that length, without an exponent. \<open>shortest\<close> tries \<open>n\<close> significant digits for
  growing \<open>n\<close>; 17 are always enough for binary64, so the fuel of 17 is never used up.
\<close>

definition flog10 :: "rat \<Rightarrow> int" where
  "flog10 q =
     (let (n, d) = quotient_of q; e = int (length (show_uint n)) - int (length (show_uint d))
      in if pow10 e \<le> q then e else e - 1)"

fun shortest :: "nat \<Rightarrow> nat \<Rightarrow> rat \<Rightarrow> int \<times> int" where
  "shortest 0 n q = (round_half_even (q * pow10 (16 - flog10 q)), flog10 q - 16)"
| "shortest (Suc fuel) n q =
     (let e = flog10 q + 1 - int n;
          lo = \<lfloor>q * pow10 (- e)\<rfloor>; hi = lo + 1;
          back = (\<lambda>m. rnd64 (of_int m * pow10 e) = Fin q);
          near = (if q - of_int lo * pow10 e \<le> of_int hi * pow10 e - q then lo else hi);
          far = (if near = lo then hi else lo)
      in if back near then (near, e) else if back far then (far, e) else shortest fuel (n + 1) q)"

definition show_scaled :: "int \<Rightarrow> int \<Rightarrow> string" where
  "show_scaled m e =
     (let ds = show_uint m
      in if 0 \<le> e then ds @ replicate (nat e) (CHR ''0'')
         else let k = nat (- e);
                  padded = replicate (k + 1 - length ds) (CHR ''0'') @ ds;
                  frac = drop (length padded - k) padded
              in take (length padded - k) padded @
                 (let t = rev (dropWhile (\<lambda>c. c = CHR ''0'') (rev frac)) in if t = [] then [] else CHR ''.'' # t))"

definition show_f64 :: "f64 \<Rightarrow> string" where
  "show_f64 x =
     (case x of
        NaN \<Rightarrow> ''NaN''
      | PosInf \<Rightarrow> ''inf''
      | NegInf \<Rightarrow> ''-inf''
      | NegZero \<Rightarrow> ''-0''
      | Fin q \<Rightarrow> (if q = 0 then ''0''
                  else let (m, e) = shortest 17 1 \<bar>q\<bar>
                       in (if q < 0 then ''-'' else []) @ show_scaled m e))"

section \<open>Facts the components use\<close>

lemma f64_lt_irrefl [simp]: "\<not> f64_lt x x"
  by (simp add: f64_lt_def)

lemma f64_lt_trans: "f64_lt a b \<Longrightarrow> f64_lt b c \<Longrightarrow> f64_lt a c"
  by (auto simp: f64_lt_def split: if_splits)

lemma f64_lt_le_trans: "f64_lt a b \<Longrightarrow> f64_le b c \<Longrightarrow> f64_lt a c"
  by (auto simp: f64_lt_def f64_le_def f64_eq_def f64_is_finite_def split: if_splits)

lemma f64_le_lt_trans: "f64_le a b \<Longrightarrow> f64_lt b c \<Longrightarrow> f64_lt a c"
  by (auto simp: f64_lt_def f64_le_def f64_eq_def f64_is_finite_def split: if_splits)

lemma f64_le_trans: "f64_le a b \<Longrightarrow> f64_le b c \<Longrightarrow> f64_le a c"
  by (auto simp: f64_lt_def f64_le_def f64_eq_def f64_is_finite_def split: if_splits)

lemma f64_le_refl: "x \<noteq> NaN \<Longrightarrow> f64_le x x"
  by (auto simp: f64_le_def f64_eq_def)

lemma f64_not_lt: "a \<noteq> NaN \<Longrightarrow> b \<noteq> NaN \<Longrightarrow> (\<not> f64_lt a b) = f64_le b a"
  by (cases a; cases b) (auto simp: f64_lt_def f64_le_def f64_eq_def f64_is_finite_def)

lemma f64_nan_compare [simp]:
  "\<not> f64_lt NaN x" "\<not> f64_lt x NaN" "\<not> f64_le NaN x" "\<not> f64_le x NaN"
  by (auto simp: f64_lt_def f64_le_def f64_eq_def)

lemma f64_clamp_bounds:
  assumes "x \<noteq> NaN" "f64_le lo hi"
  shows "f64_le lo (f64_clamp lo hi x) \<and> f64_le (f64_clamp lo hi x) hi"
proof -
  have nn: "lo \<noteq> NaN" "hi \<noteq> NaN" using assms(2) by auto
  show ?thesis
    using assms nn f64_not_lt [of x lo] f64_not_lt [of hi x] f64_not_lt [of hi lo]
    by (auto simp: f64_clamp_def Let_def f64_le_refl)
qed

lemma f64_clamp_inside: "f64_le lo x \<Longrightarrow> f64_le x hi \<Longrightarrow> f64_clamp lo hi x = x"
  using f64_not_lt [of x lo] f64_not_lt [of hi x]
  by (auto simp: f64_clamp_def Let_def) (metis f64_nan_compare f64_not_lt)+

end
