(* ===== verification/Protocol.thy ===== *)
theory Protocol
  imports Float64
begin

text \<open>
  The wire protocol between host and console (\<open>tracing-console-host/src/protocol.rs\<close>): field
  values, levels, closed spans and their events, and the request and response messages.
  The severity enumerations \<open>Level\<close> and \<open>LevelFilter\<close> of the \<open>tracing\<close> crate appear as the
  datatypes \<open>level\<close> and \<open>level_filter\<close> with the order the crate documents (a more verbose level
  is greater). The byte encoding of protosocket's control codes is a parameter \<open>cc\<close>.
\<close>

section \<open>Severity levels of the tracing crate\<close>

datatype level = ERROR | WARN | INFO | DEBUG | TRACE

fun level_rank :: "level \<Rightarrow> nat" where
  "level_rank ERROR = 1"
| "level_rank WARN = 2"
| "level_rank INFO = 3"
| "level_rank DEBUG = 4"
| "level_rank TRACE = 5"

lemma level_rank_inj: "level_rank a = level_rank b \<Longrightarrow> a = b"
  by (cases a; cases b) auto

instantiation level :: linorder
begin
definition less_eq_level :: "level \<Rightarrow> level \<Rightarrow> bool" where
  "less_eq_level a b = (level_rank a \<le> level_rank b)"
definition less_level :: "level \<Rightarrow> level \<Rightarrow> bool" where
  "less_level a b = (level_rank a < level_rank b)"
instance
  by intro_classes (auto simp: less_eq_level_def less_level_def intro: level_rank_inj)
end

datatype level_filter = OFF | AtMost level

fun filter_rank :: "level_filter \<Rightarrow> nat" where
  "filter_rank OFF = 0"
| "filter_rank (AtMost l) = level_rank l"

lemma level_rank_nz [simp]: "level_rank l \<noteq> 0"
  by (cases l) auto

lemma filter_rank_inj: "filter_rank a = filter_rank b \<Longrightarrow> a = b"
  by (cases a; cases b) (auto dest: level_rank_inj)

instantiation level_filter :: linorder
begin
definition less_eq_level_filter :: "level_filter \<Rightarrow> level_filter \<Rightarrow> bool" where
  "less_eq_level_filter a b = (filter_rank a \<le> filter_rank b)"
definition less_level_filter :: "level_filter \<Rightarrow> level_filter \<Rightarrow> bool" where
  "less_level_filter a b = (filter_rank a < filter_rank b)"
instance
  by intro_classes (auto simp: less_eq_level_filter_def less_level_filter_def intro: filter_rank_inj)
end

lemmas level_order = less_eq_level_def less_level_def less_eq_level_filter_def less_level_filter_def

section \<open>Field values\<close>

datatype wire_field_value =
    WU64 u64
  | WI64 u64
  | WF64 f64
  | WBool bool
  | WStr string

text \<open>\<open>WI64\<close> carries the two's complement bits of the \<open>i64\<close>.\<close>

definition show_bool :: "bool \<Rightarrow> string" where
  "show_bool b = (if b then ''true'' else ''false'')"

fun to_string_value :: "wire_field_value \<Rightarrow> string" where
  "to_string_value (WU64 v) = show_uint (uint v)"
| "to_string_value (WI64 v) = show_int (sint v)"
| "to_string_value (WF64 v) = show_f64 v"
| "to_string_value (WBool v) = show_bool v"
| "to_string_value (WStr s) = s"

text \<open>\<open>str::contains\<close>, \<open>str::starts_with\<close>.\<close>

fun starts_with :: "'a list \<Rightarrow> 'a list \<Rightarrow> bool" where
  "starts_with xs [] = True"
| "starts_with [] (y # ys) = False"
| "starts_with (x # xs) (y # ys) = (x = y \<and> starts_with xs ys)"

fun str_contains :: "string \<Rightarrow> string \<Rightarrow> bool" where
  "str_contains [] needle = (needle = [])"
| "str_contains (c # s) needle = (starts_with (c # s) needle \<or> str_contains s needle)"

fun wire_contains :: "wire_field_value \<Rightarrow> string \<Rightarrow> bool" where
  "wire_contains (WStr s) needle = str_contains s needle"
| "wire_contains other needle = str_contains (to_string_value other) needle"

lemma starts_with_iff: "starts_with xs ys \<longleftrightarrow> (\<exists>zs. xs = ys @ zs)"
  by (induction xs ys rule: starts_with.induct) auto

lemma starts_with_take: "starts_with xs ys \<longleftrightarrow> length ys \<le> length xs \<and> take (length ys) xs = ys"
  by (induction xs ys rule: starts_with.induct) auto

lemma starts_with_refl [simp]: "starts_with xs xs"
  by (simp add: starts_with_iff)

lemma starts_with_trans: "starts_with xs ys \<Longrightarrow> starts_with ys zs \<Longrightarrow> starts_with xs zs"
  by (auto simp: starts_with_iff)

lemma str_contains_iff: "str_contains s needle \<longleftrightarrow> (\<exists>a b. s = a @ needle @ b)"
proof (induction s)
  case Nil
  then show ?case by auto
next
  case (Cons c s)
  have "(\<exists>a b. c # s = a @ needle @ b) \<longleftrightarrow>
      (\<exists>b. c # s = needle @ b) \<or> (\<exists>a b. s = a @ needle @ b)"
    by (metis append_Cons append_Nil list.exhaust list.inject)
  with Cons show ?case by (auto simp: starts_with_iff)
qed

lemma wire_contains_printed: "wire_contains v needle = str_contains (to_string_value v) needle"
  by (cases v) auto

section \<open>Levels on the wire\<close>

datatype wire_level = WTrace | WDebug | WInfo | WWarn | WError

fun wl_from_tracing :: "level \<Rightarrow> wire_level" where
  "wl_from_tracing TRACE = WTrace"
| "wl_from_tracing DEBUG = WDebug"
| "wl_from_tracing INFO = WInfo"
| "wl_from_tracing WARN = WWarn"
| "wl_from_tracing ERROR = WError"

fun wl_to_tracing :: "wire_level \<Rightarrow> level" where
  "wl_to_tracing WTrace = TRACE"
| "wl_to_tracing WDebug = DEBUG"
| "wl_to_tracing WInfo = INFO"
| "wl_to_tracing WWarn = WARN"
| "wl_to_tracing WError = ERROR"

datatype wire_level_filter = LfOff | LfError | LfWarn | LfInfo | LfDebug | LfTrace

definition wlf_from_tracing :: "level_filter \<Rightarrow> wire_level_filter" where
  "wlf_from_tracing f =
     (if f = OFF then LfOff
      else if f = AtMost ERROR then LfError
      else if f = AtMost WARN then LfWarn
      else if f = AtMost INFO then LfInfo
      else if f = AtMost DEBUG then LfDebug
      else LfTrace)"

fun wlf_to_tracing :: "wire_level_filter \<Rightarrow> level_filter" where
  "wlf_to_tracing LfOff = OFF"
| "wlf_to_tracing LfError = AtMost ERROR"
| "wlf_to_tracing LfWarn = AtMost WARN"
| "wlf_to_tracing LfInfo = AtMost INFO"
| "wlf_to_tracing LfDebug = AtMost DEBUG"
| "wlf_to_tracing LfTrace = AtMost TRACE"

lemma wl_roundtrip [simp]: "wl_to_tracing (wl_from_tracing l) = l" "wl_from_tracing (wl_to_tracing w) = w"
  by (cases l; simp) (cases w; simp)

lemma wlf_to_from [simp]: "wlf_from_tracing (wlf_to_tracing w) = w"
  by (cases w) (simp_all add: wlf_from_tracing_def)

lemma wlf_from_to [simp]: "wlf_to_tracing (wlf_from_tracing f) = f"
proof (cases f)
  case (AtMost l)
  then show ?thesis by (cases l) (simp_all add: wlf_from_tracing_def)
qed (simp add: wlf_from_tracing_def)

section \<open>Spans and events on the wire\<close>

record wire_event =
  we_name :: string
  we_level :: wire_level
  we_fields :: "(string \<times> wire_field_value) list"
  we_recorded_at_ns :: u64

record wire_span =
  ws_id :: u64
  ws_parent_id :: "u64 option"
  ws_name :: string
  ws_target :: string
  ws_level :: wire_level
  ws_fields :: "(string \<times> wire_field_value) list"
  ws_events :: "wire_event list"
  ws_opened_at_ns :: u64
  ws_closed_at_ns :: "u64 option"

definition ws_field :: "wire_span \<Rightarrow> string \<Rightarrow> wire_field_value option" where
  "ws_field s name = map_option snd (find (\<lambda>p. fst p = name) (ws_fields s))"

definition we_field :: "wire_event \<Rightarrow> string \<Rightarrow> wire_field_value option" where
  "we_field e name = map_option snd (find (\<lambda>p. fst p = name) (we_fields e))"

lemma find_map_of: "map_option snd (find (\<lambda>p. fst p = k) xs) = map_of xs k"
  by (induction xs) auto

lemma ws_field_map_of: "ws_field s = map_of (ws_fields s)"
  by (simp add: ws_field_def find_map_of fun_eq_iff)

section \<open>Requests and responses\<close>

datatype control_code = CcNormal | CcCancel | CcEnd

datatype request_body =
    RqNoop
  | StartStream
  | StopStream
  | SetLevel wire_level
  | SetCacheLevel wire_level_filter
  | SetCacheChance f64
  | SetSamplingRate f64

record request =
  rq_id :: u64
  rq_control :: u8
  rq_body :: request_body

definition request_new :: "(control_code \<Rightarrow> u8) \<Rightarrow> request_body \<Rightarrow> request" where
  "request_new cc b = \<lparr>rq_id = 0, rq_control = cc CcNormal, rq_body = b\<rparr>"

definition request_set_id :: "u64 \<Rightarrow> request \<Rightarrow> request" where
  "request_set_id n r = r\<lparr>rq_id := n\<rparr>"

definition request_cancelled :: "(control_code \<Rightarrow> u8) \<Rightarrow> u64 \<Rightarrow> request" where
  "request_cancelled cc n = \<lparr>rq_id = n, rq_control = cc CcCancel, rq_body = RqNoop\<rparr>"

definition request_ended :: "(control_code \<Rightarrow> u8) \<Rightarrow> u64 \<Rightarrow> request" where
  "request_ended cc n = \<lparr>rq_id = n, rq_control = cc CcEnd, rq_body = RqNoop\<rparr>"

record wire_server_info =
  wsi_version :: string

datatype response_body =
    RsNoop
  | RsServerInfo wire_server_info
  | RsSpan wire_span
  | RsCacheLevel wire_level_filter
  | RsCacheChance f64
  | RsAck
  | RsError string

record response =
  rs_id :: u64
  rs_control :: u8
  rs_body :: response_body

definition response_new :: "(control_code \<Rightarrow> u8) \<Rightarrow> response_body \<Rightarrow> response" where
  "response_new cc b = \<lparr>rs_id = 0, rs_control = cc CcNormal, rs_body = b\<rparr>"

definition response_ack :: "(control_code \<Rightarrow> u8) \<Rightarrow> response" where
  "response_ack cc = response_new cc RsAck"

definition response_error :: "(control_code \<Rightarrow> u8) \<Rightarrow> string \<Rightarrow> response" where
  "response_error cc msg = response_new cc (RsError msg)"

definition response_span :: "(control_code \<Rightarrow> u8) \<Rightarrow> wire_span \<Rightarrow> response" where
  "response_span cc s = response_new cc (RsSpan s)"

definition response_cache_level :: "(control_code \<Rightarrow> u8) \<Rightarrow> wire_level_filter \<Rightarrow> response" where
  "response_cache_level cc l = response_new cc (RsCacheLevel l)"

definition response_cache_chance :: "(control_code \<Rightarrow> u8) \<Rightarrow> f64 \<Rightarrow> response" where
  "response_cache_chance cc pct = response_new cc (RsCacheChance pct)"

definition response_server_info :: "(control_code \<Rightarrow> u8) \<Rightarrow> string \<Rightarrow> response" where
  "response_server_info cc version = response_new cc (RsServerInfo \<lparr>wsi_version = version\<rparr>)"

definition response_with_id :: "u64 \<Rightarrow> response \<Rightarrow> response" where
  "response_with_id n r = r\<lparr>rs_id := n\<rparr>"

definition response_cancelled :: "(control_code \<Rightarrow> u8) \<Rightarrow> u64 \<Rightarrow> response" where
  "response_cancelled cc n = \<lparr>rs_id = n, rs_control = cc CcCancel, rs_body = RsNoop\<rparr>"

definition response_ended :: "(control_code \<Rightarrow> u8) \<Rightarrow> u64 \<Rightarrow> response" where
  "response_ended cc n = \<lparr>rs_id = n, rs_control = cc CcEnd, rs_body = RsNoop\<rparr>"

lemmas response_defs = response_new_def response_ack_def response_error_def response_span_def
  response_cache_level_def response_cache_chance_def response_server_info_def response_with_id_def

end
