(* ===== verification/Aggregator.thy ===== *)
theory Aggregator
  imports Protocol
begin

text \<open>
  The console's rolling aggregator (\<open>tracing-console/src/aggregate/state.rs\<close> and \<open>types.rs\<close>):
  a ring of at most \<open>history_budget\<close> closed spans, grouped into buckets by ancestry stack and by
  user-selected field values, with counts, sums and counted multisets kept incrementally; a pool
  of spans that wait for their parent; eviction, rebuilding and the snapshot on disk.
  \<open>HashMap\<close>s are maps; the bucket table, which is iterated over, is an association list.
  Loops that may not end (\<open>make_room\<close>, \<open>absorb_resolved\<close>) are partial functions: None is a call
  that never returns. This theory holds the definitions; \<open>AggInv\<close> and \<open>AggProps\<close> the proofs.
\<close>

section \<open>Bucket keys and statistics\<close>

record bucket_key =
  bk_stack :: "string list"
  bk_splits :: "(string \<times> string) list"

record stack_stats =
  st_count :: u64
  st_total_min_ns :: u64
  st_total_max_ns :: u64
  st_total_sum_ns :: u128
  st_self_min_ns :: u64
  st_self_max_ns :: u64
  st_self_sum_ns :: u128

definition total_avg_ns :: "stack_stats \<Rightarrow> u64" where
  "total_avg_ns s =
     (if st_count s = 0 then 0 else ucast (st_total_sum_ns s div ucast (st_count s)))"

definition self_avg_ns :: "stack_stats \<Rightarrow> u64" where
  "self_avg_ns s =
     (if st_count s = 0 then 0 else ucast (st_self_sum_ns s div ucast (st_count s)))"

section \<open>One bucket\<close>

record bucket_state =
  b_count :: u64
  b_total_sum :: u128
  b_self_sum :: u128
  b_total_ms :: "(u64, u32) btree"
  b_self_ms :: "(u64, u32) btree"

definition bucket_default :: bucket_state where
  "bucket_default = \<lparr>b_count = 0, b_total_sum = 0, b_self_sum = 0, b_total_ms = [], b_self_ms = []\<rparr>"

text \<open>\<open>*ms.entry(k).or_insert(0) += 1\<close>\<close>

definition ms_inc :: "(u64, u32) btree \<Rightarrow> u64 \<Rightarrow> (u64, u32) btree" where
  "ms_inc ms k = bt_insert k ((case bt_get ms k of None \<Rightarrow> 0 | Some c \<Rightarrow> c) + 1) ms"

definition ms_dec :: "(u64, u32) btree \<Rightarrow> u64 \<Rightarrow> (u64, u32) btree" where
  "ms_dec ms k =
     (case bt_get ms k of
        None \<Rightarrow> ms
      | Some c \<Rightarrow> (let ms' = bt_insert k (c - 1) ms in
                   if c - 1 = 0 then bt_remove k ms' else ms'))"

definition ms_min_max :: "(u64, u32) btree \<Rightarrow> u64 \<times> u64" where
  "ms_min_max ms = (if ms = [] then (0, 0) else (fst (hd ms), fst (last ms)))"

definition bucket_add :: "u64 \<Rightarrow> u64 \<Rightarrow> bucket_state \<Rightarrow> bucket_state" where
  "bucket_add total_ns self_ns b =
     \<lparr>b_count = b_count b + 1,
      b_total_sum = b_total_sum b + ucast total_ns,
      b_self_sum = b_self_sum b + ucast self_ns,
      b_total_ms = ms_inc (b_total_ms b) total_ns,
      b_self_ms = ms_inc (b_self_ms b) self_ns\<rparr>"

definition bucket_remove :: "u64 \<Rightarrow> u64 \<Rightarrow> bucket_state \<Rightarrow> bucket_state" where
  "bucket_remove total_ns self_ns b =
     \<lparr>b_count = b_count b - 1,
      b_total_sum = b_total_sum b - ucast total_ns,
      b_self_sum = b_self_sum b - ucast self_ns,
      b_total_ms = ms_dec (b_total_ms b) total_ns,
      b_self_ms = ms_dec (b_self_ms b) self_ns\<rparr>"

definition bucket_is_empty :: "bucket_state \<Rightarrow> bool" where
  "bucket_is_empty b = (b_count b = 0)"

definition to_stack_stats :: "bucket_state \<Rightarrow> stack_stats" where
  "to_stack_stats b =
     (let (total_min, total_max) = ms_min_max (b_total_ms b);
          (self_min, self_max) = ms_min_max (b_self_ms b)
      in \<lparr>st_count = b_count b,
          st_total_min_ns = total_min, st_total_max_ns = total_max,
          st_total_sum_ns = b_total_sum b,
          st_self_min_ns = self_min, st_self_max_ns = self_max,
          st_self_sum_ns = b_self_sum b\<rparr>)"

section \<open>The aggregator\<close>

record entry =
  e_span :: wire_span
  e_bucket :: bucket_key
  e_total_ns :: u64
  e_self_ns :: u64

record aggregator =
  order :: "u64 list"
  by_id :: "u64 \<rightharpoonup> entry"
  child_sum :: "u64 \<rightharpoonup> u64"
  pending :: "(u64, wire_span list) btree"
  pending_len :: usize
  pending_cap :: usize
  buckets :: "(bucket_key \<times> bucket_state) list"
  split_keys :: "string set"
  history_budget :: usize

definition agg_new :: "usize \<Rightarrow> aggregator" where
  "agg_new budget =
     \<lparr>order = [], by_id = Map.empty, child_sum = Map.empty, pending = [], pending_len = 0,
      pending_cap = max (budget div 4) 1, buckets = [], split_keys = {}, history_budget = budget\<rparr>"

definition agg_len :: "aggregator \<Rightarrow> usize" where
  "agg_len a = length (order a)"

definition iter_with_stack :: "aggregator \<Rightarrow> (wire_span \<times> string list) list" where
  "iter_with_stack a =
     List.map_filter (\<lambda>i. map_option (\<lambda>e. (e_span e, bk_stack (e_bucket e))) (by_id a i)) (order a)"

definition resolved_stack :: "aggregator \<Rightarrow> u64 \<Rightarrow> string list option" where
  "resolved_stack a i = map_option (\<lambda>e. bk_stack (e_bucket e)) (by_id a i)"

definition child_sum_for :: "aggregator \<Rightarrow> u64 \<Rightarrow> u64" where
  "child_sum_for a i = (case child_sum a i of None \<Rightarrow> 0 | Some v \<Rightarrow> v)"

definition span_by_id :: "aggregator \<Rightarrow> u64 \<Rightarrow> wire_span option" where
  "span_by_id a i = map_option e_span (by_id a i)"

subsection \<open>Split values\<close>

text \<open>The loop that both split collectors run over the fields of one span.\<close>

fun take_splits :: "string set \<Rightarrow> (string \<times> string) list \<Rightarrow> (string \<times> wire_field_value) list
    \<Rightarrow> (string \<times> string) list" where
  "take_splits keys out [] = out"
| "take_splits keys out ((k, v) # fs) =
     (if k \<in> keys \<and> \<not> list_ex (\<lambda>p. fst p = k) out
      then take_splits keys (out @ [(k, to_string_value v)]) fs
      else take_splits keys out fs)"

fun inherit_splits :: "(string \<times> string) list \<Rightarrow> (string \<times> string) list \<Rightarrow> (string \<times> string) list" where
  "inherit_splits out [] = out"
| "inherit_splits out ((k, v) # ps) =
     (if \<not> list_ex (\<lambda>p. fst p = k) out then inherit_splits (out @ [(k, v)]) ps
      else inherit_splits out ps)"

definition collect_splits :: "wire_span \<Rightarrow> (string \<times> string) list option \<Rightarrow> string set
    \<Rightarrow> (string \<times> string) list" where
  "collect_splits sp parent_splits keys =
     (let splits = take_splits keys [] (ws_fields sp);
          splits = (case parent_splits of None \<Rightarrow> splits | Some p \<Rightarrow> inherit_splits splits p)
      in sort_key fst splits)"

text \<open>\<open>collect_splits_for\<close>: \<open>n\<close> is how many more entries the walk may visit (\<open>depth > 64\<close> stops
  it, so 65 in all).\<close>

fun walk_splits :: "aggregator \<Rightarrow> string set \<Rightarrow> nat \<Rightarrow> u64 option \<Rightarrow> (string \<times> string) list
    \<Rightarrow> (string \<times> string) list" where
  "walk_splits a keys 0 cursor out = out"
| "walk_splits a keys (Suc n) cursor out =
     (case cursor of
        None \<Rightarrow> out
      | Some i \<Rightarrow>
          (case by_id a i of
             None \<Rightarrow> out
           | Some e \<Rightarrow> walk_splits a keys n (ws_parent_id (e_span e))
                         (take_splits keys out (ws_fields (e_span e)))))"

definition collect_splits_for :: "aggregator \<Rightarrow> u64 \<Rightarrow> string set \<Rightarrow> (string \<times> string) list" where
  "collect_splits_for a i keys = sort_key fst (walk_splits a keys 65 (Some i) [])"

definition resolve_root :: "aggregator \<Rightarrow> wire_span \<Rightarrow> bucket_key" where
  "resolve_root a sp =
     \<lparr>bk_stack = [ws_name sp], bk_splits = collect_splits sp None (split_keys a)\<rparr>"

definition resolve_with_parent :: "aggregator \<Rightarrow> wire_span \<Rightarrow> entry \<Rightarrow> bucket_key" where
  "resolve_with_parent a sp parent_entry =
     \<lparr>bk_stack = bk_stack (e_bucket parent_entry) @ [ws_name sp],
      bk_splits = collect_splits sp (Some (bk_splits (e_bucket parent_entry))) (split_keys a)\<rparr>"

subsection \<open>Waiting for a parent\<close>

text \<open>The loop of \<open>park_pending\<close>: \<open>pop_first\<close> until the pool is back under its cap.\<close>

fun shrink_pending :: "(u64, wire_span list) btree \<Rightarrow> usize \<Rightarrow> usize
    \<Rightarrow> (u64, wire_span list) btree \<times> usize" where
  "shrink_pending [] len cap = ([], len)"
| "shrink_pending (p # m) len cap =
     (if len > cap then shrink_pending m (len - length (snd p)) cap else (p # m, len))"

definition park_pending :: "u64 \<Rightarrow> wire_span \<Rightarrow> aggregator \<Rightarrow> aggregator" where
  "park_pending missing_parent sp a =
     (let (pend, len) = shrink_pending (bt_push missing_parent sp (pending a))
                          (pending_len a + 1) (pending_cap a)
      in a\<lparr>pending := pend, pending_len := len\<rparr>)"

subsection \<open>Eviction\<close>

definition bump_parent_self :: "u64 \<Rightarrow> u64 \<Rightarrow> aggregator \<Rightarrow> aggregator" where
  "bump_parent_self parent_id new_child_sum a =
     (case by_id a parent_id of
        None \<Rightarrow> a
      | Some pe \<Rightarrow>
          (let new_self = sat_sub (e_total_ns pe) new_child_sum;
               old_self = e_self_ns pe
           in if new_self = old_self then a
              else let a = a\<lparr>by_id := (by_id a)(parent_id \<mapsto> pe\<lparr>e_self_ns := new_self\<rparr>)\<rparr>
                   in case map_of (buckets a) (e_bucket pe) of
                        None \<Rightarrow> a
                      | Some st \<Rightarrow>
                          a\<lparr>buckets := AList.update (e_bucket pe)
                              (bucket_add (e_total_ns pe) new_self
                                 (bucket_remove (e_total_ns pe) old_self st)) (buckets a)\<rparr>))"

definition drop_contribution :: "entry \<Rightarrow> aggregator \<Rightarrow> aggregator" where
  "drop_contribution e a =
     (case map_of (buckets a) (e_bucket e) of
        None \<Rightarrow> a
      | Some st \<Rightarrow>
          (let st = bucket_remove (e_total_ns e) (e_self_ns e) st
           in a\<lparr>buckets := (if bucket_is_empty st then AList.delete (e_bucket e) (buckets a)
                            else AList.update (e_bucket e) st (buckets a))\<rparr>))"

definition give_back :: "entry \<Rightarrow> aggregator \<Rightarrow> aggregator" where
  "give_back e a =
     (case ws_parent_id (e_span e) of
        None \<Rightarrow> a
      | Some p \<Rightarrow>
          (if by_id a p = None then a
           else case child_sum a p of
                  None \<Rightarrow> a
                | Some s \<Rightarrow>
                    (let new_sum = sat_sub s (e_total_ns e)
                     in bump_parent_self p new_sum
                          (a\<lparr>child_sum := (child_sum a)
                               (p := (if new_sum = 0 then None else Some new_sum))\<rparr>))))"

definition evict_oldest :: "aggregator \<Rightarrow> aggregator" where
  "evict_oldest a =
     (case order a of
        [] \<Rightarrow> a
      | i # rest \<Rightarrow>
          (let a = a\<lparr>order := rest\<rparr>
           in case by_id a i of
                None \<Rightarrow> a
              | Some e \<Rightarrow>
                  (let a = a\<lparr>by_id := (by_id a)(i := None)\<rparr>;
                       a = (case bt_get (pending a) i of
                              None \<Rightarrow> a
                            | Some orphans \<Rightarrow> a\<lparr>pending := bt_remove i (pending a),
                                                 pending_len := pending_len a - length orphans\<rparr>);
                       a = a\<lparr>child_sum := (child_sum a)(i := None)\<rparr>
                   in give_back e (drop_contribution e a))))"

partial_function (option) make_room :: "aggregator \<Rightarrow> aggregator option" where
  "make_room a = (if length (order a) \<ge> history_budget a then make_room (evict_oldest a) else Some a)"

declare make_room.simps [code]

subsection \<open>Absorbing a span\<close>

definition span_total_ns :: "wire_span \<Rightarrow> u64" where
  "span_total_ns s =
     sat_sub (case ws_closed_at_ns s of None \<Rightarrow> ws_opened_at_ns s | Some c \<Rightarrow> c) (ws_opened_at_ns s)"

text \<open>Step 1: the bucket and whether the parent is in the ring, or the missing parent.\<close>

definition try_resolve :: "aggregator \<Rightarrow> wire_span \<Rightarrow> u64 + bucket_key \<times> bool" where
  "try_resolve a sp =
     (case ws_parent_id sp of
        None \<Rightarrow> Inr (resolve_root a sp, False)
      | Some p \<Rightarrow>
          (case by_id a p of
             Some pe \<Rightarrow> Inr (resolve_with_parent a sp pe, True)
           | None \<Rightarrow> Inl p))"

text \<open>Step 4: the parent's child sum and self time.\<close>

definition charge_parent :: "wire_span \<Rightarrow> bool \<Rightarrow> u64 \<Rightarrow> aggregator \<Rightarrow> aggregator" where
  "charge_parent sp parent_in_ring total_ns a =
     (case ws_parent_id sp of
        None \<Rightarrow> a
      | Some p \<Rightarrow>
          (if parent_in_ring \<and> by_id a p \<noteq> None then
             let new_sum = child_sum_for a p + total_ns
             in bump_parent_self p new_sum (a\<lparr>child_sum := (child_sum a)(p \<mapsto> new_sum)\<rparr>)
           else a))"

text \<open>Steps 5 and 6: the contribution to the bucket and the ring entry.\<close>

definition add_contribution :: "bucket_key \<Rightarrow> u64 \<Rightarrow> u64 \<Rightarrow> aggregator \<Rightarrow> aggregator" where
  "add_contribution b total_ns self_ns a =
     a\<lparr>buckets := AList.update b
         (bucket_add total_ns self_ns
            (case map_of (buckets a) b of None \<Rightarrow> bucket_default | Some st \<Rightarrow> st)) (buckets a)\<rparr>"

definition insert_entry :: "wire_span \<Rightarrow> bucket_key \<Rightarrow> u64 \<Rightarrow> u64 \<Rightarrow> aggregator \<Rightarrow> aggregator" where
  "insert_entry sp b total_ns self_ns a =
     a\<lparr>order := order a @ [ws_id sp],
       by_id := (by_id a)(ws_id sp \<mapsto>
         \<lparr>e_span = sp, e_bucket = b, e_total_ns = total_ns, e_self_ns = self_ns\<rparr>)\<rparr>"

text \<open>Step 7: the waiters of an id leave the pool.\<close>

definition take_waiters :: "u64 \<Rightarrow> aggregator \<Rightarrow> aggregator \<times> wire_span list" where
  "take_waiters i a =
     (case bt_get (pending a) i of
        None \<Rightarrow> (a, [])
      | Some waiters \<Rightarrow> (a\<lparr>pending := bt_remove i (pending a),
                           pending_len := pending_len a - length waiters\<rparr>, waiters))"

text \<open>Steps 2 to 7 up to the recursive calls: the state and the waiters to absorb.\<close>

definition insert_resolved :: "wire_span \<Rightarrow> bucket_key \<Rightarrow> bool \<Rightarrow> aggregator
    \<Rightarrow> (aggregator \<times> wire_span list) option" where
  "insert_resolved sp b parent_in_ring a =
     (let total_ns = span_total_ns sp;
          self_ns = sat_sub total_ns (child_sum_for a (ws_id sp))
      in case make_room a of
           None \<Rightarrow> None
         | Some a \<Rightarrow>
             (let a = charge_parent sp parent_in_ring total_ns a;
                  a = add_contribution b total_ns self_ns a;
                  a = insert_entry sp b total_ns self_ns a
              in Some (take_waiters (ws_id sp) a)))"

lemma run_opt_mono [partial_function_mono]:
  assumes "\<And>s e. mono_option (\<lambda>f. F f s e)"
  shows "mono_option (\<lambda>f. run_opt (F f) s es)"
proof (induction es arbitrary: s)
  case Nil
  show ?case by (simp add: option.const_mono)
next
  case (Cons e es)
  have "mono_option (\<lambda>f. Option.bind (F f s e) (\<lambda>s'. run_opt (F f) s' es))"
    by (intro bind_mono assms Cons)
  moreover have "(\<lambda>f. run_opt (F f) s (e # es)) =
      (\<lambda>f. Option.bind (F f s e) (\<lambda>s'. run_opt (F f) s' es))"
    by (auto simp: fun_eq_iff split: option.splits)
  ultimately show ?case by simp
qed

partial_function (option) absorb_resolved ::
  "aggregator \<times> u64 list \<Rightarrow> wire_span \<Rightarrow> (aggregator \<times> u64 list) option" where
  "absorb_resolved st sp =
     (case try_resolve (fst st) sp of
        Inl p \<Rightarrow> Some (park_pending p sp (fst st), snd st)
      | Inr r \<Rightarrow>
          Option.bind (insert_resolved sp (fst r) (snd r) (fst st))
            (\<lambda>(a, waiters). run_opt absorb_resolved (a, snd st @ [ws_id sp]) waiters))"

declare absorb_resolved.simps [code]

definition absorb :: "wire_span \<Rightarrow> aggregator \<Rightarrow> (aggregator \<times> u64 list) option" where
  "absorb sp a =
     (if ws_closed_at_ns sp = None then Some (a, []) else absorb_resolved (a, []) sp)"

subsection \<open>Rows\<close>

definition rows :: "aggregator \<Rightarrow> (bucket_key \<times> stack_stats) list" where
  "rows a = sort_key (\<lambda>r. (bk_stack (fst r), bk_splits (fst r)))
              (map (\<lambda>(k, s). (k, to_stack_stats s)) (buckets a))"

subsection \<open>Changing the split keys\<close>

text \<open>The loop of \<open>rebuild_buckets\<close>: the spans of the old ring are absorbed again, in order.\<close>

definition ring_spans :: "aggregator \<Rightarrow> wire_span list" where
  "ring_spans a = List.map_filter (span_by_id a) (order a)"

definition rebuild_buckets :: "aggregator \<Rightarrow> aggregator option" where
  "rebuild_buckets a =
     (case run_opt absorb_resolved
             (a\<lparr>buckets := [], child_sum := Map.empty, order := [], by_id := Map.empty,
                pending := [], pending_len := 0\<rparr>, []) (ring_spans a) of
        None \<Rightarrow> None
      | Some (b, _) \<Rightarrow> Some (b\<lparr>pending := pending a, pending_len := pending_len a\<rparr>))"

definition set_split_keys :: "string set \<Rightarrow> aggregator \<Rightarrow> aggregator option" where
  "set_split_keys new_keys a =
     (if new_keys = split_keys a then Some a else rebuild_buckets (a\<lparr>split_keys := new_keys\<rparr>))"

subsection \<open>Snapshots\<close>

record snapshot =
  sn_spans :: "wire_span list"
  sn_pending :: "(u64, wire_span list) btree"
  sn_split_keys :: "string set"
  sn_budget :: usize

definition to_snapshot :: "aggregator \<Rightarrow> snapshot" where
  "to_snapshot a = \<lparr>sn_spans = ring_spans a, sn_pending = pending a,
     sn_split_keys = split_keys a, sn_budget = history_budget a\<rparr>"

definition absorb_step :: "aggregator \<Rightarrow> wire_span \<Rightarrow> aggregator option" where
  "absorb_step a s = map_option fst (absorb s a)"

definition from_snapshot :: "snapshot \<Rightarrow> aggregator option" where
  "from_snapshot sn =
     (case run_opt absorb_step ((agg_new (sn_budget sn))\<lparr>split_keys := sn_split_keys sn\<rparr>) (sn_spans sn) of
        None \<Rightarrow> None
      | Some a \<Rightarrow> Some (fold (\<lambda>(p, ws) a. fold (park_pending p) ws a) (sn_pending sn) a))"

end
