(* ===== verification/AggInv.thy ===== *)
theory AggInv
  imports Aggregator
begin

text \<open>
  The data invariant of the aggregator and its preservation by every operation: what the counted
  multisets and bucket states stand for, the interface \<open>tally\<close> between a bucket and the table of
  buckets, sums over the ring, the invariant \<open>agg_inv\<close>, and its preservation by eviction, by
  parking and by the insertion of one span.
\<close>

section \<open>Counted multisets\<close>

text \<open>\<open>ms\<close> counts the multiset \<open>M\<close>; counts are 32 bits wide.\<close>

definition counted :: "(u64, u32) btree \<Rightarrow> u64 multiset \<Rightarrow> bool" where
  "counted ms M \<longleftrightarrow> bt_ok ms \<and>
     (\<forall>k. bt_get ms k = (if k \<in># M then Some (of_nat (count M k)) else None))"

lemma counted_Nil [simp]: "counted [] {#}"
  by (simp add: counted_def)

lemma counted_inc: "counted ms M \<Longrightarrow> counted (ms_inc ms k) (add_mset k M)"
  by (auto simp: counted_def ms_inc_def bt_simps add.commute not_in_iff)

lemma u32_of_nat_eq_1: "n < 2 ^ 32 \<Longrightarrow> (of_nat n :: u32) = 1 \<longleftrightarrow> n = 1"
  using of_nat_inverse [of n "1 :: u32"] by auto

lemma counted_dec:
  assumes "counted ms M" "k \<in># M" "size M < 2 ^ 32"
  shows "counted (ms_dec ms k) (M - {#k#})"
proof -
  have "count M k \<le> size M" by (rule count_le_size)
  with assms have "count M k < 2 ^ 32" by simp
  then have one: "(of_nat (count M k) :: u32) = 1 \<longleftrightarrow> count M k = 1" by (rule u32_of_nat_eq_1)
  from assms have get: "bt_get ms k = Some (of_nat (count M k))" and ok: "bt_ok ms"
    by (auto simp: counted_def)
  have minus: "count M k \<noteq> 1 \<Longrightarrow> (of_nat (count M k) :: u32) - 1 = of_nat (count M k - 1)"
    using assms(2) by (simp add: of_nat_diff Suc_leI)
  show ?thesis
  proof (cases "count M k = 1")
    case True
    then have "\<And>j. j \<in># M - {#k#} \<longleftrightarrow> j \<noteq> k \<and> j \<in># M"
      by (auto simp: in_diff_count)
    with assms(1) get ok one True show ?thesis
      by (simp add: counted_def ms_dec_def bt_simps Let_def)
  next
    case False
    with assms(2) have "\<And>j. j \<in># M - {#k#} \<longleftrightarrow> j \<in># M"
      by (auto simp: in_diff_count dest: in_diffD) (metis Suc_lessI count_greater_zero_iff)
    with assms get ok one False minus show ?thesis
      by (simp add: counted_def ms_dec_def bt_simps Let_def)
  qed
qed

lemma counted_keys: "counted ms M \<Longrightarrow> set (bt_keys ms) = set_mset M"
proof -
  assume c: "counted ms M"
  have "k \<in> set (bt_keys ms) \<longleftrightarrow> k \<in># M" for k
    using c map_of_eq_None_iff [of ms k] by (auto simp: counted_def split: if_splits)
  then show ?thesis by blast
qed

lemma sorted_wrt_hd_last:
  fixes xs :: "'a::linorder list"
  assumes "sorted_wrt (<) xs" "xs \<noteq> []"
  shows "hd xs = Min (set xs)" "last xs = Max (set xs)"
proof -
  have s: "sorted xs" using assms(1) by (auto intro: sorted_wrt_mono_rel [of _ "(<)"])
  show "hd xs = Min (set xs)"
    using s assms(2) by (cases xs) (auto intro!: Min_eqI [symmetric])
  show "last xs = Max (set xs)"
    using s assms(2) by (induction xs rule: rev_induct) (auto intro!: Max_eqI [symmetric] simp: sorted_append)
qed

lemma counted_min_max:
  assumes "counted ms M" "M \<noteq> {#}"
  shows "ms_min_max ms = (Min (set_mset M), Max (set_mset M))"
proof -
  have keys: "set (bt_keys ms) = set_mset M" and "sorted_wrt (<) (bt_keys ms)"
    using assms counted_keys by (auto simp: counted_def bt_ok_def)
  moreover have "ms \<noteq> []" using keys assms(2) by auto
  ultimately have "fst (hd ms) = Min (set_mset M)" "fst (last ms) = Max (set_mset M)"
    using sorted_wrt_hd_last [of "bt_keys ms"] by (auto simp: hd_map last_map)
  with \<open>ms \<noteq> []\<close> show ?thesis by (simp add: ms_min_max_def)
qed

section \<open>What a bucket stands for\<close>

type_synonym contribution = "u64 \<times> u64"

definition bucket_rep :: "bucket_state \<Rightarrow> contribution multiset \<Rightarrow> bool" where
  "bucket_rep b C \<longleftrightarrow>
     b_count b = of_nat (size C) \<and>
     b_total_sum b = (\<Sum>c \<in># C. ucast (fst c)) \<and>
     b_self_sum b = (\<Sum>c \<in># C. ucast (snd c)) \<and>
     counted (b_total_ms b) (image_mset fst C) \<and>
     counted (b_self_ms b) (image_mset snd C)"

definition contrib_limit :: nat where
  "contrib_limit = 2 ^ 32"

lemma bucket_rep_default: "bucket_rep bucket_default {#}"
  by (simp add: bucket_rep_def bucket_default_def)

lemma bucket_rep_add:
  "bucket_rep b C \<Longrightarrow> bucket_rep (bucket_add (fst c) (snd c) b) (add_mset c C)"
  by (simp add: bucket_rep_def bucket_add_def counted_inc add.commute)

lemma bucket_rep_remove:
  assumes "bucket_rep b C" "c \<in># C" "size C < contrib_limit"
  shows "bucket_rep (bucket_remove (fst c) (snd c) b) (C - {#c#})"
proof -
  from assms(2) obtain D where C: "C = add_mset c D" by (blast dest: multi_member_split)
  have small: "size (image_mset fst C) < 2 ^ 32" "size (image_mset snd C) < 2 ^ 32"
    using assms(3) by (simp_all add: contrib_limit_def)
  have "counted (ms_dec (b_total_ms b) (fst c)) (image_mset fst C - {#fst c#})"
    "counted (ms_dec (b_self_ms b) (snd c)) (image_mset snd C - {#snd c#})"
    using assms(1,2) small by (simp_all add: counted_dec bucket_rep_def)
  with assms(1) show ?thesis
    by (simp add: bucket_rep_def bucket_remove_def C)
qed

lemma bucket_rep_empty:
  assumes "bucket_rep b C" "size C < contrib_limit"
  shows "bucket_is_empty b \<longleftrightarrow> C = {#}"
proof -
  have "(of_nat (size C) :: u64) = 0 \<longleftrightarrow> size C = 0"
  proof
    assume "(of_nat (size C) :: u64) = 0"
    then have "2 ^ 64 dvd size C" by (simp add: word_of_nat_eq_0_iff)
    with assms(2) show "size C = 0" using nat_dvd_not_less [of "size C" "2 ^ 64"]
      by (auto simp: contrib_limit_def)
  qed simp
  with assms(1) show ?thesis by (simp add: bucket_rep_def bucket_is_empty_def)
qed

section \<open>The interface between a bucket and the table of buckets\<close>

text \<open>A table entry is present exactly when something contributes to it, and stands for its
  contributions.\<close>

definition table_ok :: "('s \<Rightarrow> 'c multiset \<Rightarrow> bool) \<Rightarrow> ('k \<times> 's) list \<Rightarrow> ('k \<Rightarrow> 'c multiset) \<Rightarrow> bool" where
  "table_ok rep T C \<longleftrightarrow> distinct (map fst T) \<and>
     (\<forall>k. case map_of T k of None \<Rightarrow> C k = {#} | Some s \<Rightarrow> C k \<noteq> {#} \<and> rep s (C k))"

locale tally =
  fixes fresh :: 's
    and put :: "'c \<Rightarrow> 's \<Rightarrow> 's"
    and drop_one :: "'c \<Rightarrow> 's \<Rightarrow> 's"
    and empty :: "'s \<Rightarrow> bool"
    and rep :: "'s \<Rightarrow> 'c multiset \<Rightarrow> bool"
    and limit :: nat
  assumes fresh_rep: "rep fresh {#}"
    and put_rep: "rep s M \<Longrightarrow> rep (put c s) (add_mset c M)"
    and drop_rep: "rep s M \<Longrightarrow> c \<in># M \<Longrightarrow> size M < limit \<Longrightarrow> rep (drop_one c s) (M - {#c#})"
    and empty_iff: "rep s M \<Longrightarrow> size M < limit \<Longrightarrow> empty s \<longleftrightarrow> M = {#}"
begin

lemma table_ok_update:
  "table_ok rep T C \<Longrightarrow> rep s M \<Longrightarrow> M \<noteq> {#} \<Longrightarrow> table_ok rep (AList.update k s T) (C(k := M))"
  by (auto simp: table_ok_def update_conv' distinct_update cong: option.case_cong)

lemma table_ok_delete:
  "table_ok rep T C \<Longrightarrow> table_ok rep (AList.delete k T) (C(k := {#}))"
  by (auto simp: table_ok_def delete_conv' distinct_delete cong: option.case_cong)

lemma table_put:
  assumes "table_ok rep T C"
  shows "table_ok rep (AList.update k (put c (case map_of T k of None \<Rightarrow> fresh | Some s \<Rightarrow> s)) T)
           (C(k := add_mset c (C k)))"
proof -
  have "rep (case map_of T k of None \<Rightarrow> fresh | Some s \<Rightarrow> s) (C k)"
    using assms fresh_rep by (auto simp: table_ok_def split: option.splits dest!: spec [of _ k])
  then show ?thesis using assms by (intro table_ok_update put_rep) auto
qed

lemma table_drop:
  assumes "table_ok rep T C" "c \<in># C k" "size (C k) < limit"
  obtains s where "map_of T k = Some s"
    and "table_ok rep (if empty (drop_one c s) then AList.delete k T
                       else AList.update k (drop_one c s) T) (C(k := C k - {#c#}))"
proof -
  from assms obtain s where s: "map_of T k = Some s" "rep s (C k)"
    by (auto simp: table_ok_def split: option.splits dest!: spec [of _ k])
  have r: "rep (drop_one c s) (C k - {#c#})" using s assms by (auto intro: drop_rep)
  moreover have "size (C k - {#c#}) < limit" using assms by (auto simp: size_Diff_singleton_if)
  ultimately have e: "empty (drop_one c s) \<longleftrightarrow> C k - {#c#} = {#}" by (rule empty_iff)
  show ?thesis
  proof (rule that [OF s(1)])
    show "table_ok rep (if empty (drop_one c s) then AList.delete k T
        else AList.update k (drop_one c s) T) (C(k := C k - {#c#}))"
      using e r assms(1) table_ok_delete [OF assms(1)] table_ok_update by auto
  qed
qed

lemma table_shift:
  assumes "table_ok rep T C" "c \<in># C k" "size (C k) < limit"
  obtains s where "map_of T k = Some s"
    and "table_ok rep (AList.update k (put c' (drop_one c s)) T)
           (C(k := add_mset c' (C k - {#c#})))"
proof -
  from assms obtain s where s: "map_of T k = Some s" "rep s (C k)"
    by (auto simp: table_ok_def split: option.splits dest!: spec [of _ k])
  then have "rep (put c' (drop_one c s)) (add_mset c' (C k - {#c#}))"
    using assms by (intro put_rep drop_rep) auto
  then show ?thesis using that [OF s(1)] assms(1) by (simp add: table_ok_update)
qed

end

interpretation bucket: tally bucket_default "\<lambda>c. bucket_add (fst c) (snd c)"
    "\<lambda>c. bucket_remove (fst c) (snd c)" bucket_is_empty bucket_rep contrib_limit
  by unfold_locales
    (simp_all add: bucket_rep_default bucket_rep_add bucket_rep_remove bucket_rep_empty)

section \<open>Sums over the ring\<close>

definition ring_sum :: "(entry \<Rightarrow> 'a::comm_monoid_add) \<Rightarrow> (u64 \<rightharpoonup> entry) \<Rightarrow> 'a" where
  "ring_sum g f = (\<Sum>i \<in> dom f. g (the (f i)))"

lemma ring_sum_insert:
  "finite (dom f) \<Longrightarrow> f i = None \<Longrightarrow> ring_sum g (f(i \<mapsto> e)) = g e + ring_sum g f"
  by (simp add: ring_sum_def domIff) (auto intro!: arg_cong2 [where f = "(+)"] sum.cong)

lemma ring_sum_remove:
  assumes "finite (dom f)" "f i = Some e"
  shows "ring_sum g f = g e + ring_sum g (f(i := None))"
proof -
  have "f = (f(i := None))(i \<mapsto> e)" using assms(2) by auto
  then have "ring_sum g f = ring_sum g ((f(i := None))(i \<mapsto> e))" by simp
  also have "\<dots> = g e + ring_sum g (f(i := None))"
    using assms(1) by (intro ring_sum_insert) auto
  finally show ?thesis .
qed

lemma ring_sum_update_same:
  "finite (dom f) \<Longrightarrow> f i = Some e \<Longrightarrow> g e' = g e \<Longrightarrow> ring_sum g (f(i \<mapsto> e')) = ring_sum g f"
  using ring_sum_remove [of f i e g] ring_sum_insert [of "f(i := None)" i g e'] by simp

lemma ring_sum_Nil [simp]: "ring_sum g Map.empty = 0"
  by (simp add: ring_sum_def)

lemma ring_sum_mono:
  fixes g h :: "entry \<Rightarrow> nat"
  shows "(\<And>e. g e \<le> h e) \<Longrightarrow> ring_sum g f \<le> ring_sum h f"
  by (auto simp: ring_sum_def intro!: sum_mono)

text \<open>The contributions of the ring to a bucket, and the total time of a span's children.\<close>

definition contribs :: "(u64 \<rightharpoonup> entry) \<Rightarrow> bucket_key \<Rightarrow> contribution multiset" where
  "contribs f k = ring_sum (\<lambda>e. if e_bucket e = k then {#(e_total_ns e, e_self_ns e)#} else {#}) f"

definition kids_total :: "(u64 \<rightharpoonup> entry) \<Rightarrow> u64 \<Rightarrow> nat" where
  "kids_total f p = ring_sum (\<lambda>e. if ws_parent_id (e_span e) = Some p then unat (e_total_ns e) else 0) f"

definition ring_ns :: "(u64 \<rightharpoonup> entry) \<Rightarrow> nat" where
  "ring_ns f = ring_sum (\<lambda>e. unat (e_total_ns e)) f"

lemma size_contribs: "size (contribs f k) \<le> card (dom f)"
  by (cases "finite (dom f)")
    (auto simp: contribs_def ring_sum_def size_multiset_sum if_distrib sum.If_cases
      intro!: card_mono)

lemma kids_le_ring: "kids_total f p \<le> ring_ns f"
  by (auto simp: kids_total_def ring_ns_def intro!: ring_sum_mono)

lemma contribs_insert:
  "finite (dom f) \<Longrightarrow> f i = None \<Longrightarrow>
     contribs (f(i \<mapsto> e)) = (contribs f)(e_bucket e := add_mset (e_total_ns e, e_self_ns e) (contribs f (e_bucket e)))"
  by (auto simp: contribs_def ring_sum_insert fun_eq_iff)

lemma contribs_remove:
  assumes "finite (dom f)" "f i = Some e"
  shows "(e_total_ns e, e_self_ns e) \<in># contribs f (e_bucket e)"
    and "contribs (f(i := None)) =
      (contribs f)(e_bucket e := contribs f (e_bucket e) - {#(e_total_ns e, e_self_ns e)#})"
  using assms by (auto simp: contribs_def ring_sum_remove [OF assms] fun_eq_iff)

lemma contribs_update:
  assumes "finite (dom f)" "f i = Some e" "e_bucket e' = e_bucket e"
  shows "contribs (f(i \<mapsto> e')) = (contribs f)(e_bucket e :=
    add_mset (e_total_ns e', e_self_ns e') (contribs f (e_bucket e) - {#(e_total_ns e, e_self_ns e)#}))"
proof -
  have "f(i \<mapsto> e') = (f(i := None))(i \<mapsto> e')" by auto
  then show ?thesis
    using contribs_insert [of "f(i := None)" i e'] contribs_remove(2) [OF assms(1,2)] assms
    by simp
qed

section \<open>The invariant\<close>

definition ring_parent :: "(u64 \<rightharpoonup> entry) \<Rightarrow> u64 \<Rightarrow> u64 option" where
  "ring_parent f i = (case f i of None \<Rightarrow> None | Some e \<Rightarrow> ws_parent_id (e_span e))"

text \<open>The ring: \<open>order\<close> and \<open>by_id\<close> in lock-step, entries that describe closed spans, parents
  before their children.\<close>

definition ring_ok :: "aggregator \<Rightarrow> bool" where
  "ring_ok a \<longleftrightarrow> distinct (order a) \<and> set (order a) = dom (by_id a) \<and>
     (\<forall>i e. by_id a i = Some e \<longrightarrow> ws_id (e_span e) = i \<and>
        e_total_ns e = span_total_ns (e_span e) \<and> ws_closed_at_ns (e_span e) \<noteq> None) \<and>
     sorted_wrt (\<lambda>i j. ring_parent (by_id a) i \<noteq> Some j) (order a) \<and>
     (\<forall>i. ring_parent (by_id a) i \<noteq> Some i)"

text \<open>The pool: its counter, its cap, and no waiter whose parent is in the ring.\<close>

definition pool_ok :: "aggregator \<Rightarrow> bool" where
  "pool_ok a \<longleftrightarrow> bt_ok (pending a) \<and> pending_len a = bt_total (pending a) \<and>
     pending_len a \<le> pending_cap a \<and>
     (\<forall>p ws. bt_get (pending a) p = Some ws \<longrightarrow> by_id a p = None \<and> ws \<noteq> [] \<and>
        (\<forall>w \<in> set ws. ws_parent_id w = Some p \<and> ws_closed_at_ns w \<noteq> None))"

definition pool_ids :: "aggregator \<Rightarrow> u64 list" where
  "pool_ids a = map ws_id (bt_values (pending a))"

text \<open>\<open>fresh\<close>: an id that no span of the ring or the pool has or has had as its parent.\<close>

definition fresh :: "aggregator \<Rightarrow> u64 \<Rightarrow> bool" where
  "fresh a i \<longleftrightarrow> by_id a i = None \<and> i \<notin> set (pool_ids a) \<and>
     (\<forall>j. ring_parent (by_id a) j \<noteq> Some i)"

definition ids_ok :: "aggregator \<Rightarrow> bool" where
  "ids_ok a \<longleftrightarrow> distinct (pool_ids a) \<and>
     (\<forall>i \<in> set (pool_ids a). by_id a i = None \<and> (\<forall>j. ring_parent (by_id a) j \<noteq> Some i))"

definition sums_ok :: "aggregator \<Rightarrow> bool" where
  "sums_ok a \<longleftrightarrow> (\<forall>p. (by_id a p = None \<longrightarrow> child_sum a p = None) \<and>
     (by_id a p \<noteq> None \<longrightarrow> unat (child_sum_for a p) = kids_total (by_id a) p))"

definition self_ok :: "aggregator \<Rightarrow> bool" where
  "self_ok a \<longleftrightarrow> (\<forall>i e. by_id a i = Some e \<longrightarrow>
     e_self_ns e = sat_sub (e_total_ns e) (child_sum_for a i))"

definition table_of :: "aggregator \<Rightarrow> bool" where
  "table_of a \<longleftrightarrow> table_ok bucket_rep (buckets a) (contribs (by_id a))"

text \<open>A root's bucket is its own name and fields; a child's extends its parent's, as long as the
  parent is in the ring.\<close>

definition links_ok :: "aggregator \<Rightarrow> bool" where
  "links_ok a \<longleftrightarrow> (\<forall>i e. by_id a i = Some e \<longrightarrow>
     (ws_parent_id (e_span e) = None \<longrightarrow> e_bucket e = resolve_root a (e_span e)) \<and>
     (\<forall>p pe. ws_parent_id (e_span e) = Some p \<and> by_id a p = Some pe \<longrightarrow>
        e_bucket e = resolve_with_parent a (e_span e) pe))"

definition budget_ok :: "aggregator \<Rightarrow> bool" where
  "budget_ok a \<longleftrightarrow> 0 < history_budget a \<and> history_budget a < 2 ^ 32 \<and>
     length (order a) \<le> history_budget a \<and> pending_cap a = max (history_budget a div 4) 1"

definition span_ns :: "wire_span \<Rightarrow> nat" where
  "span_ns s = unat (span_total_ns s)"

text \<open>All the span time the aggregator holds; child sums cannot wrap while it is below 2^64.\<close>

definition held_ns :: "aggregator \<Rightarrow> nat" where
  "held_ns a = ring_ns (by_id a) + sum_list (map span_ns (bt_values (pending a)))"

definition agg_inv :: "aggregator \<Rightarrow> bool" where
  "agg_inv a \<longleftrightarrow> ring_ok a \<and> pool_ok a \<and> ids_ok a \<and> sums_ok a \<and> self_ok a \<and> table_of a \<and>
     links_ok a \<and> budget_ok a \<and> held_ns a < 2 ^ 64"

lemma ring_finite: "ring_ok a \<Longrightarrow> finite (dom (by_id a))"
  unfolding ring_ok_def by (metis finite_set)

lemma ring_card: "ring_ok a \<Longrightarrow> card (dom (by_id a)) = length (order a)"
  unfolding ring_ok_def by (metis distinct_card)

lemma ring_entry:
  "ring_ok a \<Longrightarrow> by_id a i = Some e \<Longrightarrow> ws_id (e_span e) = i \<and> e_total_ns e = span_total_ns (e_span e)
     \<and> ws_closed_at_ns (e_span e) \<noteq> None \<and> i \<in> set (order a)"
  unfolding ring_ok_def by blast

lemma contribs_small:
  "ring_ok a \<Longrightarrow> length (order a) < contrib_limit \<Longrightarrow> size (contribs (by_id a) k) < contrib_limit"
  using size_contribs [of "by_id a" k] ring_card [of a] by linarith

lemma agg_inv_new: "0 < n \<Longrightarrow> n < 2 ^ 32 \<Longrightarrow> agg_inv (agg_new n)"
  by (simp add: agg_inv_def agg_new_def ring_ok_def pool_ok_def pool_ids_def ids_ok_def sums_ok_def
      self_ok_def table_of_def table_ok_def links_ok_def budget_ok_def held_ns_def ring_ns_def
      contribs_def ring_parent_def)

section \<open>A parent's self time\<close>

lemma entry_update_self: "e\<lparr>e_self_ns := e_self_ns e\<rparr> = e"
  by simp

lemma bump_parent_self:
  assumes "ring_ok a" "table_of a" "length (order a) < contrib_limit" "by_id a p = Some pe"
  obtains T where "bump_parent_self p n a =
      a\<lparr>by_id := (by_id a)(p \<mapsto> pe\<lparr>e_self_ns := sat_sub (e_total_ns pe) n\<rparr>), buckets := T\<rparr>"
    and "table_ok bucket_rep T (contribs ((by_id a)(p \<mapsto> pe\<lparr>e_self_ns := sat_sub (e_total_ns pe) n\<rparr>)))"
proof (cases "sat_sub (e_total_ns pe) n = e_self_ns pe")
  case True
  then have "pe\<lparr>e_self_ns := sat_sub (e_total_ns pe) n\<rparr> = pe" by simp
  with True assms(2,4) show ?thesis
    by (intro that [of "buckets a"])
      (simp_all add: bump_parent_self_def table_of_def fun_upd_idem Let_def)
next
  case False
  let ?c = "(e_total_ns pe, e_self_ns pe)" and ?c' = "(e_total_ns pe, sat_sub (e_total_ns pe) n)"
  have fin: "finite (dom (by_id a))" using assms(1) by (rule ring_finite)
  have C: "table_ok bucket_rep (buckets a) (contribs (by_id a))"
    using assms(2) by (simp add: table_of_def)
  obtain s where s: "map_of (buckets a) (e_bucket pe) = Some s"
    and T: "table_ok bucket_rep
        (AList.update (e_bucket pe) (bucket_add (fst ?c') (snd ?c') (bucket_remove (fst ?c) (snd ?c) s)) (buckets a))
        ((contribs (by_id a))(e_bucket pe := add_mset ?c' (contribs (by_id a) (e_bucket pe) - {#?c#})))"
    using bucket.table_shift [OF C contribs_remove(1) [OF fin assms(4)] contribs_small [OF assms(1,3)],
        where c' = ?c']
    by blast
  have "contribs ((by_id a)(p \<mapsto> pe\<lparr>e_self_ns := sat_sub (e_total_ns pe) n\<rparr>)) =
      (contribs (by_id a))(e_bucket pe := add_mset ?c' (contribs (by_id a) (e_bucket pe) - {#?c#}))"
    using contribs_update [OF fin assms(4), of "pe\<lparr>e_self_ns := sat_sub (e_total_ns pe) n\<rparr>"] by simp
  with T s False assms(4) show ?thesis
    by (intro that) (simp_all add: bump_parent_self_def Let_def)
qed

section \<open>What does not depend on self times\<close>

definition strip :: "(u64 \<rightharpoonup> entry) \<Rightarrow> u64 \<rightharpoonup> entry" where
  "strip f = (\<lambda>i. map_option (\<lambda>e. e\<lparr>e_self_ns := 0\<rparr>) (f i))"

lemma strip_at: "strip f = strip g \<Longrightarrow>
    map_option (\<lambda>e. e\<lparr>e_self_ns := 0\<rparr>) (f i) = map_option (\<lambda>e. e\<lparr>e_self_ns := 0\<rparr>) (g i)"
proof -
  assume "strip f = strip g"
  then have "strip f i = strip g i" by simp
  then show ?thesis by (simp add: strip_def)
qed

lemma strip_none: "strip f = strip g \<Longrightarrow> f i = None \<longleftrightarrow> g i = None"
  by (drule strip_at [of f g i]) (cases "f i"; cases "g i"; simp)

lemma strip_dom: "strip f = strip g \<Longrightarrow> dom f = dom g"
  using strip_none [of f g] by (simp add: dom_def)

lemma strip_some:
  assumes "strip f = strip g" "f i = Some e"
  obtains e' where "g i = Some e'" "e_span e' = e_span e" "e_bucket e' = e_bucket e"
    "e_total_ns e' = e_total_ns e"
proof -
  have "map_option (\<lambda>e. e\<lparr>e_self_ns := 0\<rparr>) (g i) = Some (e\<lparr>e_self_ns := 0\<rparr>)"
    using assms strip_at [OF assms(1), of i] by simp
  then obtain e' where e': "g i = Some e'" "e'\<lparr>e_self_ns := 0\<rparr> = e\<lparr>e_self_ns := (0::u64)\<rparr>"
    by auto
  then show ?thesis
    using arg_cong [OF e'(2), of e_span] arg_cong [OF e'(2), of e_bucket]
      arg_cong [OF e'(2), of e_total_ns] by (intro that [OF e'(1)]) auto
qed

lemma strip_update: "f i = Some e \<Longrightarrow> strip (f(i \<mapsto> e\<lparr>e_self_ns := x\<rparr>)) = strip f"
  by (auto simp: strip_def fun_eq_iff)

lemma strip_remove: "strip f = strip g \<Longrightarrow> strip (f(i := None)) = strip (g(i := None))"
  unfolding strip_def fun_eq_iff by simp

lemma strip_insert: "strip f = strip g \<Longrightarrow> strip (f(i \<mapsto> e)) = strip (g(i \<mapsto> e))"
  unfolding strip_def fun_eq_iff by simp

lemma ring_parent_strip: "strip f = strip g \<Longrightarrow> ring_parent f = ring_parent g"
proof (rule ext)
  fix i
  assume eq: "strip f = strip g"
  show "ring_parent f i = ring_parent g i"
    using strip_none [OF eq, of i]
    by (cases "f i") (auto simp: ring_parent_def elim: strip_some [OF eq])
qed

lemma ring_sum_strip:
  assumes "strip f = strip g" "\<And>e x. h (e\<lparr>e_self_ns := x\<rparr>) = h e"
  shows "ring_sum h f = ring_sum h g"
proof -
  have "h (the (f i)) = h (the (g i))" if i: "i \<in> dom f" for i
  proof -
    obtain e e' where e: "f i = Some e" and e': "g i = Some e'"
      using i strip_none [OF assms(1), of i] by (cases "f i"; cases "g i") auto
    then have "e\<lparr>e_self_ns := 0\<rparr> = e'\<lparr>e_self_ns := (0::u64)\<rparr>"
      using strip_at [OF assms(1), of i] by simp
    then show ?thesis using assms(2) e e' by (metis option.sel)
  qed
  then show ?thesis
    using strip_dom [OF assms(1)] by (auto simp: ring_sum_def intro!: sum.cong)
qed

lemma kids_total_strip: "strip f = strip g \<Longrightarrow> kids_total f = kids_total g"
  unfolding kids_total_def fun_eq_iff by (auto intro!: ring_sum_strip)

lemma ring_ns_strip: "strip f = strip g \<Longrightarrow> ring_ns f = ring_ns g"
  unfolding ring_ns_def by (auto intro!: ring_sum_strip)

lemma ring_ok_strip:
  assumes "ring_ok a" "order b = order a" "strip (by_id b) = strip (by_id a)"
  shows "ring_ok b"
proof -
  have "ws_id (e_span e) = i \<and> e_total_ns e = span_total_ns (e_span e) \<and> ws_closed_at_ns (e_span e) \<noteq> None"
    if e: "by_id b i = Some e" for i e
  proof -
    obtain e' where "by_id a i = Some e'" "e_span e' = e_span e" "e_total_ns e' = e_total_ns e"
      by (rule strip_some [OF assms(3) e])
    then show ?thesis using ring_entry [OF assms(1), of i e'] by simp
  qed
  with assms show ?thesis
    by (simp add: ring_ok_def strip_dom [OF assms(3)] ring_parent_strip [OF assms(3)])
qed

lemma pool_ok_strip:
  "pool_ok a \<Longrightarrow> pending b = pending a \<Longrightarrow> pending_len b = pending_len a \<Longrightarrow>
     pending_cap b = pending_cap a \<Longrightarrow> strip (by_id b) = strip (by_id a) \<Longrightarrow> pool_ok b"
  by (simp add: pool_ok_def strip_none [of "by_id b" "by_id a"])

lemma ids_ok_strip:
  "ids_ok a \<Longrightarrow> pending b = pending a \<Longrightarrow> strip (by_id b) = strip (by_id a) \<Longrightarrow> ids_ok b"
  by (simp add: ids_ok_def pool_ids_def strip_none [of "by_id b" "by_id a"]
      ring_parent_strip [of "by_id b" "by_id a"])

lemma resolve_cong:
  "split_keys b = split_keys a \<Longrightarrow> e_bucket e' = e_bucket e \<Longrightarrow>
     resolve_root b s = resolve_root a s \<and> resolve_with_parent b s e' = resolve_with_parent a s e"
  by (simp add: resolve_root_def resolve_with_parent_def)

lemma links_ok_strip:
  assumes "links_ok a" "split_keys b = split_keys a" "strip (by_id b) = strip (by_id a)"
  shows "links_ok b"
  unfolding links_ok_def
proof (intro allI impI conjI)
  fix i e
  assume e: "by_id b i = Some e"
  obtain e' where e': "by_id a i = Some e'" "e_span e' = e_span e" "e_bucket e' = e_bucket e"
    by (rule strip_some [OF assms(3) e])
  {
    assume "ws_parent_id (e_span e) = None"
    then show "e_bucket e = resolve_root b (e_span e)"
      using assms(1) e' resolve_cong [OF assms(2)] unfolding links_ok_def by metis
  next
    fix p pe
    assume p: "ws_parent_id (e_span e) = Some p \<and> by_id b p = Some pe"
    then obtain pe' where "by_id a p = Some pe'" "e_bucket pe' = e_bucket pe"
      by (auto elim: strip_some [OF assms(3)])
    then show "e_bucket e = resolve_with_parent b (e_span e) pe"
      using assms(1) e' p resolve_cong [OF assms(2)] unfolding links_ok_def by metis
  }
qed

text \<open>Setting the child sum of one span and adjusting its self time to it.\<close>

lemma set_child_sum:
  assumes "ring_ok a" "table_of a" "self_ok a" "length (order a) < contrib_limit"
    and "by_id a p = Some pe"
    and cs: "(case cs p of None \<Rightarrow> 0 | Some v \<Rightarrow> v) = n" "\<forall>q. q \<noteq> p \<longrightarrow> cs q = child_sum a q"
  shows "\<exists>f T. bump_parent_self p n (a\<lparr>child_sum := cs\<rparr>) =
        a\<lparr>by_id := f, child_sum := cs, buckets := T\<rparr> \<and>
      strip f = strip (by_id a) \<and> table_ok bucket_rep T (contribs f) \<and>
      (\<forall>i e. f i = Some e \<longrightarrow>
        e_self_ns e = sat_sub (e_total_ns e) (case cs i of None \<Rightarrow> 0 | Some v \<Rightarrow> v))"
proof -
  let ?f = "(by_id a)(p \<mapsto> pe\<lparr>e_self_ns := sat_sub (e_total_ns pe) n\<rparr>)"
  have "ring_ok (a\<lparr>child_sum := cs\<rparr>)" "table_of (a\<lparr>child_sum := cs\<rparr>)"
    using assms(1,2) by (simp_all add: ring_ok_def table_of_def)
  with assms(4,5) obtain T where T: "bump_parent_self p n (a\<lparr>child_sum := cs\<rparr>) =
      (a\<lparr>child_sum := cs\<rparr>)\<lparr>by_id := ?f, buckets := T\<rparr>" "table_ok bucket_rep T (contribs ?f)"
    using bump_parent_self [of "a\<lparr>child_sum := cs\<rparr>" p pe n] by auto
  have "strip ?f = strip (by_id a)" by (rule strip_update) (rule assms(5))
  moreover have "e_self_ns e = sat_sub (e_total_ns e) (case cs i of None \<Rightarrow> 0 | Some v \<Rightarrow> v)"
    if "?f i = Some e" for i e
    using that cs assms(3) by (cases "i = p") (auto simp: self_ok_def child_sum_for_def)
  ultimately show ?thesis
    using T by (intro exI [of _ ?f] exI [of _ T]) simp
qed

section \<open>Eviction\<close>

lemma agg_invD:
  assumes "agg_inv a"
  shows "ring_ok a" "pool_ok a" "ids_ok a" "sums_ok a" "self_ok a" "table_of a" "links_ok a"
    "budget_ok a" "held_ns a < 2 ^ 64" "length (order a) < contrib_limit" "finite (dom (by_id a))"
  using assms ring_finite by (auto simp: agg_inv_def budget_ok_def contrib_limit_def)

lemma ring_parent_remove: "ring_parent (f(i := None)) = (ring_parent f)(i := None)"
  by (auto simp: ring_parent_def fun_eq_iff)

lemma ring_ok_pop:
  assumes "ring_ok a" "order a = i # rest" "order b = rest" "by_id b = (by_id a)(i := None)"
  shows "ring_ok b"
proof -
  have "set rest = dom (by_id a) - {i}" "distinct rest" "i \<notin> set rest"
    using assms(1,2) by (auto simp: ring_ok_def)
  moreover have "sorted_wrt (\<lambda>i j. ring_parent (by_id b) i \<noteq> Some j) rest"
  proof (rule sorted_wrt_mono_rel)
    show "sorted_wrt (\<lambda>i j. ring_parent (by_id a) i \<noteq> Some j) rest"
      using assms(1,2) by (simp add: ring_ok_def)
    show "ring_parent (by_id b) x \<noteq> Some y"
      if "x \<in> set rest" "ring_parent (by_id a) x \<noteq> Some y" for x y
      using that \<open>i \<notin> set rest\<close> by (auto simp: assms(4) ring_parent_remove)
  qed
  ultimately show ?thesis
    using assms by (auto simp: ring_ok_def ring_parent_remove)
qed

text \<open>The state after the oldest entry \<open>e\<close> left, with any repair of its parent's self time.\<close>

lemma evict_finish:
  assumes inv: "agg_inv a" and order: "order a = i # rest" and e: "by_id a i = Some e"
    and h: "strip h = strip ((by_id a)(i := None))"
    and T: "table_ok bucket_rep T (contribs h)"
    and self: "\<And>j e. h j = Some e \<Longrightarrow>
      e_self_ns e = sat_sub (e_total_ns e) (case cs j of None \<Rightarrow> 0 | Some v \<Rightarrow> v)"
    and sums: "\<And>q. h q = None \<Longrightarrow> cs q = None"
      "\<And>q. h q \<noteq> None \<Longrightarrow> unat (case cs q of None \<Rightarrow> 0 | Some v \<Rightarrow> v) = kids_total h q"
    and b: "b = a\<lparr>order := rest, by_id := h, child_sum := cs, buckets := T\<rparr>"
  shows "agg_inv b"
proof -
  note D = agg_invD [OF inv]
  let ?m = "a\<lparr>order := rest, by_id := (by_id a)(i := None)\<rparr>"
  have sm: "strip (by_id b) = strip (by_id ?m)" using h b by simp
  have "ring_ok ?m" by (rule ring_ok_pop [OF D(1) order]) simp_all
  then have ring: "ring_ok b" by (rule ring_ok_strip) (use sm b in simp_all)
  have "pool_ok ?m" using D(2) by (auto simp: pool_ok_def)
  then have pool: "pool_ok b" by (rule pool_ok_strip) (use sm b in simp_all)
  have "ids_ok ?m" using D(3) by (auto simp: ids_ok_def pool_ids_def ring_parent_remove)
  then have ids: "ids_ok b" by (rule ids_ok_strip) (use sm b in simp_all)
  have "links_ok ?m"
    using D(7) by (auto simp: links_ok_def resolve_root_def resolve_with_parent_def)
  then have links: "links_ok b" by (rule links_ok_strip) (use sm b in simp_all)
  have "ring_ns h = ring_ns ((by_id a)(i := None))" using h by (rule ring_ns_strip)
  also have "\<dots> \<le> ring_ns (by_id a)"
    using ring_sum_remove [OF D(11) e, of "\<lambda>e. unat (e_total_ns e)"] by (simp add: ring_ns_def)
  finally have held: "held_ns b < 2 ^ 64" using D(9) b by (simp add: held_ns_def)
  have "sums_ok b" "self_ok b" "table_of b" "budget_ok b"
    using sums self T D(8) order b
    by (simp_all add: sums_ok_def self_ok_def table_of_def child_sum_for_def budget_ok_def)
  with ring pool ids links held show ?thesis by (simp add: agg_inv_def)
qed

lemma evict_oldest_inv:
  assumes inv: "agg_inv a" and order: "order a = i # rest"
  obtains h cs T where
    "evict_oldest a = a\<lparr>order := rest, by_id := h, child_sum := cs, buckets := T\<rparr>"
    and "strip h = strip ((by_id a)(i := None))"
    and "agg_inv (evict_oldest a)"
proof -
  note D = agg_invD [OF inv]
  have "i \<in> dom (by_id a)" using D(1) order by (auto simp: ring_ok_def)
  then obtain e where e: "by_id a i = Some e" by auto
  let ?g = "(by_id a)(i := None)" and ?cs = "(child_sum a)(i := None)"
  let ?c = "(e_total_ns e, e_self_ns e)"
  have pend: "bt_get (pending a) i = None"
    using D(2) e by (cases "bt_get (pending a) i") (auto simp: pool_ok_def)
  obtain s where s: "map_of (buckets a) (e_bucket e) = Some s"
    and T: "table_ok bucket_rep
      (if bucket_is_empty (bucket_remove (fst ?c) (snd ?c) s) then AList.delete (e_bucket e) (buckets a)
       else AList.update (e_bucket e) (bucket_remove (fst ?c) (snd ?c) s) (buckets a)) (contribs ?g)"
    using bucket.table_drop [OF D(6) [unfolded table_of_def] contribs_remove(1) [OF D(11) e]
        contribs_small [OF D(1) D(10)]]
    unfolding contribs_remove(2) [OF D(11) e] by blast
  define T' where "T' = (if bucket_is_empty (bucket_remove (fst ?c) (snd ?c) s)
    then AList.delete (e_bucket e) (buckets a)
    else AList.update (e_bucket e) (bucket_remove (fst ?c) (snd ?c) s) (buckets a))"
  define m where "m = a\<lparr>order := rest, by_id := ?g, child_sum := ?cs, buckets := T'\<rparr>"
  have ev: "evict_oldest a = give_back e m"
    using order e pend s
    by (simp add: evict_oldest_def drop_contribution_def Let_def m_def T'_def)
  have T': "table_ok bucket_rep T' (contribs ?g)" using T by (simp add: T'_def)
  have kids: "kids_total (by_id a) q =
      (if ws_parent_id (e_span e) = Some q then unat (e_total_ns e) else 0) + kids_total ?g q" for q
    unfolding kids_total_def by (subst ring_sum_remove [OF D(11) e]) simp
  have sum_at: "unat (case ?cs q of None \<Rightarrow> 0 | Some v \<Rightarrow> v) =
      (if ws_parent_id (e_span e) = Some q then unat (e_total_ns e) else 0) + kids_total ?g q"
    if "?g q \<noteq> None" for q
    using D(4) kids [of q] that by (auto simp: sums_ok_def child_sum_for_def split: if_splits)
  have no_sum: "?cs q = None" if "?g q = None" for q
    using D(4) that by (auto simp: sums_ok_def split: if_splits)
  have self: "e_self_ns e' = sat_sub (e_total_ns e') (case ?cs j of None \<Rightarrow> 0 | Some v \<Rightarrow> v)"
    if "?g j = Some e'" for j e'
    using D(5) that by (auto simp: self_ok_def child_sum_for_def split: if_splits)
  have stay: "agg_inv m"
    if "\<And>q. ?g q \<noteq> None \<Longrightarrow> ws_parent_id (e_span e) = Some q \<Longrightarrow> e_total_ns e = 0"
    by (rule evict_finish [OF inv order e refl T' self no_sum _ m_def])
      (use that sum_at in \<open>auto split: if_splits\<close>)
  show ?thesis
  proof (cases "\<exists>p. ws_parent_id (e_span e) = Some p \<and> ?g p \<noteq> None \<and> ?cs p \<noteq> None")
    case False
    then have "give_back e m = m"
      by (auto simp: give_back_def m_def split: option.split)
    moreover have "agg_inv m"
    proof (rule stay)
      fix q assume "?g q \<noteq> None" "ws_parent_id (e_span e) = Some q"
      then have "?cs q = None" using False by auto
      then show "e_total_ns e = 0"
        using sum_at [OF \<open>?g q \<noteq> None\<close>] \<open>ws_parent_id (e_span e) = Some q\<close> by (simp add: unat_eq_0)
    qed
    ultimately show ?thesis using ev m_def that by simp
  next
    case True
    then obtain p pe v where p: "ws_parent_id (e_span e) = Some p" "?g p = Some pe" "?cs p = Some v"
      by blast
    define n where "n = sat_sub v (e_total_ns e)"
    define cs where "cs = ?cs(p := (if n = 0 then None else Some n))"
    have cs_p: "(case cs p of None \<Rightarrow> 0 | Some v \<Rightarrow> v) = n" by (simp add: cs_def)
    have cs_q: "\<forall>q. q \<noteq> p \<longrightarrow> cs q = child_sum m q" by (simp add: cs_def m_def)
    have m_ok: "ring_ok m" "table_of m" "self_ok m" "length (order m) < contrib_limit"
      "by_id m p = Some pe"
      using ring_ok_pop [OF D(1) order, of m] T' self D(10) order p(2)
      by (simp_all add: m_def table_of_def self_ok_def child_sum_for_def)
    obtain h U where bump: "bump_parent_self p n (m\<lparr>child_sum := cs\<rparr>) =
        m\<lparr>by_id := h, child_sum := cs, buckets := U\<rparr>"
      and h: "strip h = strip (by_id m)" and U: "table_ok bucket_rep U (contribs h)"
      and hs: "\<forall>i e. h i = Some e \<longrightarrow>
        e_self_ns e = sat_sub (e_total_ns e) (case cs i of None \<Rightarrow> 0 | Some v \<Rightarrow> v)"
      using set_child_sum [OF m_ok cs_p cs_q] by (elim exE conjE)
    have give: "give_back e m = a\<lparr>order := rest, by_id := h, child_sum := cs, buckets := U\<rparr>"
    proof -
      have "by_id m = ?g" "child_sum m = ?cs" by (simp_all add: m_def)
      with p have "give_back e m = bump_parent_self p n (m\<lparr>child_sum := cs\<rparr>)"
        unfolding give_back_def Let_def n_def [symmetric] cs_def by (simp add: n_def)
      with bump show ?thesis by (simp add: m_def)
    qed
    have h': "strip h = strip ?g" using h by (simp add: m_def)
    have n: "unat n = kids_total ?g p"
      using sum_at [of p] p by (simp add: n_def unat_sat_sub)
    have "agg_inv (give_back e m)"
    proof (rule evict_finish [OF inv order e h' U hs [rule_format] _ _ give])
      fix q assume "h q = None"
      then show "cs q = None" using no_sum strip_none [OF h', of q] p(2) by (auto simp: cs_def)
    next
      fix q assume "h q \<noteq> None"
      then have "?g q \<noteq> None" using strip_none [OF h', of q] by simp
      then show "unat (case cs q of None \<Rightarrow> 0 | Some v \<Rightarrow> v) = kids_total h q"
        using sum_at [of q] n p cs_p
        by (cases "q = p") (simp_all add: kids_total_strip [OF h'] cs_def)
    qed
    with ev give h' that show ?thesis by simp
  qed
qed

end
