(* ===== verification/AggAbsorb.thy ===== *)
theory AggAbsorb
  imports AggInv
begin

text \<open>
  Absorbing spans: making room, parking, inserting one resolved span, and the recursion that
  drains the waiters. The recursion of \<open>absorb_resolved\<close> is followed as a work list (\<open>todo\<close>): it
  always ends on an aggregator that satisfies the invariant.
\<close>

section \<open>Making room\<close>

text \<open>\<open>b\<close> is \<open>a\<close> after only evictions: the ring is a suffix, its spans and buckets unchanged.\<close>

definition trimmed :: "nat \<Rightarrow> aggregator \<Rightarrow> aggregator \<Rightarrow> bool" where
  "trimmed k a b \<longleftrightarrow> order b = drop k (order a) \<and>
     strip (by_id b) = strip ((by_id a) |` set (order b)) \<and>
     pending b = pending a \<and> pending_len b = pending_len a \<and> pending_cap b = pending_cap a \<and>
     split_keys b = split_keys a \<and> history_budget b = history_budget a"

lemma restrict_ring: "ring_ok a \<Longrightarrow> by_id a |` set (order a) = by_id a"
  by (auto simp: ring_ok_def restrict_map_def fun_eq_iff domIff)

lemma restrict_pop:
  assumes "ring_ok a" "order a = i # rest"
  shows "by_id a |` set rest = (by_id a)(i := None)"
proof
  fix j
  have "i \<notin> set rest" "dom (by_id a) = insert i (set rest)" using assms by (auto simp: ring_ok_def)
  then show "(by_id a |` set rest) j = ((by_id a)(i := None)) j"
    by (cases "j = i"; cases "j \<in> set rest") (auto simp: restrict_map_def domIff)
qed

lemma make_room_inv:
  assumes "agg_inv a"
  shows "\<exists>b. make_room a = Some b \<and> agg_inv b \<and> length (order b) < history_budget b \<and>
    trimmed (Suc (length (order a)) - history_budget a) a b"
proof (cases "length (order a) < history_budget a")
  case True
  then show ?thesis
    using assms agg_invD(1) [OF assms]
    by (simp add: make_room.simps [of a] trimmed_def restrict_ring)
next
  case False
  have le: "length (order a) \<le> history_budget a" and "0 < history_budget a"
    using agg_invD(8) [OF assms] by (simp_all add: budget_ok_def)
  with False obtain i rest where order: "order a = i # rest" and len: "length (order a) = history_budget a"
    by (cases "order a") auto
  obtain h cs T where ev: "evict_oldest a = a\<lparr>order := rest, by_id := h, child_sum := cs, buckets := T\<rparr>"
    and h: "strip h = strip ((by_id a)(i := None))" and inv: "agg_inv (evict_oldest a)"
    by (rule evict_oldest_inv [OF assms order])
  have "make_room a = Some (evict_oldest a)"
    using False len order make_room.simps [of "evict_oldest a"] by (simp add: make_room.simps [of a] ev)
  then show ?thesis
    using inv ev h len order restrict_pop [OF agg_invD(1) [OF assms] order]
    by (simp add: trimmed_def)
qed

text \<open>With a budget of zero the loop never ends: there is always room to make.\<close>

lemma bump_parent_self_budget [simp]: "history_budget (bump_parent_self p n a) = history_budget a"
  by (simp add: bump_parent_self_def Let_def split: option.split)

lemma give_back_budget [simp]: "history_budget (give_back e a) = history_budget a"
  by (simp add: give_back_def Let_def split: option.split)

lemma drop_contribution_budget [simp]: "history_budget (drop_contribution e a) = history_budget a"
  by (simp add: drop_contribution_def Let_def split: option.split)

lemma evict_oldest_budget [simp]: "history_budget (evict_oldest a) = history_budget a"
  by (simp add: evict_oldest_def Let_def split: list.split option.split)

lemma make_room_some_budget: "make_room a = Some b \<Longrightarrow> history_budget a \<noteq> 0"
proof (rule make_room.raw_induct [where P = "\<lambda>a b. history_budget a \<noteq> 0"])
  fix f :: "aggregator \<Rightarrow> aggregator option" and x y
  assume IH: "\<And>x y. f x = Some y \<Longrightarrow> history_budget x \<noteq> 0"
    and "(if length (order x) \<ge> history_budget x then f (evict_oldest x) else Some x) = Some y"
  then show "history_budget x \<noteq> 0"
    using IH [of "evict_oldest x" y] by (auto split: if_splits)
qed

section \<open>Parking\<close>

lemma shrink_pending:
  "shrink_pending m (bt_total m) cap = (m', len) \<Longrightarrow>
     (\<exists>xs. m = xs @ m') \<and> len = bt_total m' \<and> len \<le> cap"
proof (induction m)
  case (Cons p m)
  show ?case
  proof (cases "bt_total (p # m) > cap")
    case True
    then have "shrink_pending m (bt_total m) cap = (m', len)" using Cons.prems by simp
    from Cons.IH [OF this] show ?thesis by (metis append_Cons)
  qed (use Cons.prems in auto)
qed simp

lemma bt_suffix:
  assumes "bt_ok (xs @ m)"
  shows "bt_ok m" "bt_get m k = Some v \<Longrightarrow> bt_get (xs @ m) k = Some v"
proof -
  show "bt_ok m" using assms by (simp add: bt_ok_def sorted_wrt_append)
  show "bt_get (xs @ m) k = Some v" if "bt_get m k = Some v"
  proof -
    have "(k, v) \<in> set (xs @ m)" using map_of_SomeD [OF that] by simp
    then show ?thesis using bt_ok_distinct [OF assms] by (simp only: map_of_eq_Some_iff)
  qed
qed

lemma bt_values_append [simp]: "bt_values (xs @ ys) = bt_values xs @ bt_values ys"
  by (simp add: bt_values_def)

text \<open>What parking does to the pool: some of the lowest-keyed lists may go.\<close>

lemma park_pending_shape:
  assumes "pool_ok a"
  shows "\<exists>m. park_pending p s a = a\<lparr>pending := m, pending_len := bt_total m\<rparr> \<and>
    bt_ok m \<and> bt_total m \<le> pending_cap a \<and> (\<exists>xs. bt_push p s (pending a) = xs @ m) \<and>
    (\<forall>k v. bt_get m k = Some v \<longrightarrow> bt_get (bt_push p s (pending a)) k = Some v) \<and>
    mset (bt_values m) \<subseteq># add_mset s (mset (bt_values (pending a)))"
proof -
  have ok: "bt_ok (pending a)" "pending_len a = bt_total (pending a)"
    using assms by (simp_all add: pool_ok_def)
  obtain m len where m: "shrink_pending (bt_push p s (pending a)) (bt_total (bt_push p s (pending a)))
      (pending_cap a) = (m, len)"
    by fastforce
  from shrink_pending [OF this] obtain xs where xs: "bt_push p s (pending a) = xs @ m"
    "len = bt_total m" "len \<le> pending_cap a" by blast
  have okm: "bt_ok (xs @ m)" using bt_ok_push [OF ok(1), of p s] xs(1) by simp
  have "mset (bt_values (bt_push p s (pending a))) = add_mset s (mset (bt_values (pending a)))"
    by (rule mset_bt_values_push [OF ok(1)])
  then have sub: "mset (bt_values m) \<subseteq># add_mset s (mset (bt_values (pending a)))"
    by (metis xs(1) bt_values_append mset_append mset_subset_eq_add_right)
  have "park_pending p s a = a\<lparr>pending := m, pending_len := bt_total m\<rparr>"
    using m xs(2) ok by (simp add: park_pending_def bt_total_push)
  moreover have "\<forall>k v. bt_get m k = Some v \<longrightarrow> bt_get (bt_push p s (pending a)) k = Some v"
    using bt_suffix(2) [OF okm] xs(1) by simp
  ultimately show ?thesis using xs sub bt_suffix(1) [OF okm] by blast
qed

lemma sum_list_mset_mono:
  fixes f :: "'a \<Rightarrow> nat"
  assumes "mset xs \<subseteq># mset ys"
  shows "sum_list (map f xs) \<le> sum_list (map f ys)"
proof -
  obtain D where D: "mset ys = mset xs + D" using assms by (auto simp: subset_mset.le_iff_add)
  have "sum_list (map f zs) = (\<Sum>x \<in># mset zs. f x)" for zs
    by (metis mset_map sum_mset_sum_list)
  then show ?thesis by (simp add: D)
qed

lemma distinct_iff_count_le: "distinct xs \<longleftrightarrow> (\<forall>x. count (mset xs) x \<le> 1)"
  by (induction xs) (auto simp: count_eq_zero_iff le_Suc_eq)

lemma distinct_sub_mset: "mset xs \<subseteq># mset ys \<Longrightarrow> distinct ys \<Longrightarrow> distinct xs"
  unfolding distinct_iff_count_le by (meson mset_subset_eq_count order_trans)

lemma pool_sub_ids:
  assumes "mset (bt_values m) \<subseteq># mset ws" "distinct (map ws_id ws)"
  shows "distinct (map ws_id (bt_values m))" "set (map ws_id (bt_values m)) \<subseteq> set (map ws_id ws)"
proof -
  have sub: "mset (map ws_id (bt_values m)) \<subseteq># mset (map ws_id ws)"
    using assms(1) by (simp add: image_mset_subseteq_mono)
  show "distinct (map ws_id (bt_values m))"
    by (rule distinct_sub_mset [OF sub assms(2)])
  show "set (map ws_id (bt_values m)) \<subseteq> set (map ws_id ws)"
    using sub by (metis set_mset_mono set_mset_mset)
qed

lemma park_pending_inv:
  assumes inv: "agg_inv a" and p: "ws_parent_id s = Some p" "by_id a p = None"
    and closed: "ws_closed_at_ns s \<noteq> None" and fresh: "fresh a (ws_id s)"
    and held: "held_ns a + span_ns s < 2 ^ 64"
  shows "agg_inv (park_pending p s a)"
    and "order (park_pending p s a) = order a" "by_id (park_pending p s a) = by_id a"
    and "split_keys (park_pending p s a) = split_keys a"
    and "history_budget (park_pending p s a) = history_budget a"
    and "mset (bt_values (pending (park_pending p s a))) \<subseteq># add_mset s (mset (bt_values (pending a)))"
    and "held_ns (park_pending p s a) \<le> held_ns a + span_ns s"
proof -
  note D = agg_invD [OF inv]
  obtain m where m: "park_pending p s a = a\<lparr>pending := m, pending_len := bt_total m\<rparr>"
    and ok: "bt_ok m" "bt_total m \<le> pending_cap a"
    and get: "\<forall>k v. bt_get m k = Some v \<longrightarrow> bt_get (bt_push p s (pending a)) k = Some v"
    and sub: "mset (bt_values m) \<subseteq># add_mset s (mset (bt_values (pending a)))"
    using park_pending_shape [OF D(2), where p = p and s = s] by blast
  let ?b = "park_pending p s a"
  have sub': "mset (bt_values m) \<subseteq># mset (s # bt_values (pending a))" using sub by simp
  have ids: "distinct (map ws_id (s # bt_values (pending a)))"
    using D(3) fresh by (simp add: ids_ok_def pool_ids_def fresh_def)
  have "bt_ok (pending a)" using D(2) by (simp add: pool_ok_def)
  then have pool: "by_id a k = None \<and> v \<noteq> [] \<and> (\<forall>w \<in> set v. ws_parent_id w = Some k \<and> ws_closed_at_ns w \<noteq> None)"
    if "bt_get m k = Some v" for k v
    using get [rule_format, OF that] D(2) p closed
    by (auto simp: bt_get_push pool_ok_def split: if_splits option.splits)
  show held_le: "held_ns ?b \<le> held_ns a + span_ns s"
    using sum_list_mset_mono [OF sub', of span_ns] by (simp add: held_ns_def m)
  have "pool_ok ?b" using ok pool by (simp add: pool_ok_def m)
  moreover have "ids_ok ?b"
    using pool_sub_ids [OF sub' ids] D(3) fresh
    by (auto simp: ids_ok_def pool_ids_def m fresh_def)
  moreover have "ring_ok ?b" "sums_ok ?b" "self_ok ?b" "table_of ?b" "links_ok ?b" "budget_ok ?b"
    using D by (auto simp: ring_ok_def sums_ok_def self_ok_def table_of_def links_ok_def budget_ok_def
        m child_sum_for_def resolve_root_def resolve_with_parent_def)
  ultimately show "agg_inv ?b" using held held_le by (simp add: agg_inv_def)
  show "mset (bt_values (pending ?b)) \<subseteq># add_mset s (mset (bt_values (pending a)))"
    using sub m by simp
qed (simp_all add: park_pending_def Let_def split: prod.split)

section \<open>Inserting one resolved span\<close>

lemma ring_parent_insert:
  "ring_parent (f(i \<mapsto> e)) = (ring_parent f)(i := ws_parent_id (e_span e))"
  by (auto simp: ring_parent_def fun_eq_iff)

lemma trimmed_entry:
  assumes "trimmed k a b" "by_id b i = Some e"
  obtains e' where "by_id a i = Some e'" "e_span e' = e_span e" "e_bucket e' = e_bucket e"
proof -
  have st: "strip (by_id b) = strip ((by_id a) |` set (order b))" using assms(1) by (simp add: trimmed_def)
  obtain e' where "((by_id a) |` set (order b)) i = Some e'" "e_span e' = e_span e" "e_bucket e' = e_bucket e"
    by (rule strip_some [OF st assms(2)])
  then show ?thesis by (intro that [of e']) (auto simp: restrict_map_def split: if_splits)
qed

lemma trimmed_parent: "trimmed k a b \<Longrightarrow> ring_parent (by_id b) j = Some i \<Longrightarrow> ring_parent (by_id a) j = Some i"
proof -
  assume t: "trimmed k a b" and p: "ring_parent (by_id b) j = Some i"
  then obtain e where e: "by_id b j = Some e" "ws_parent_id (e_span e) = Some i"
    by (auto simp: ring_parent_def split: option.splits)
  obtain e' where "by_id a j = Some e'" "e_span e' = e_span e" by (rule trimmed_entry [OF t e(1)])
  with e show ?thesis by (simp add: ring_parent_def)
qed

lemma trimmed_none: "trimmed k a b \<Longrightarrow> by_id a i = None \<Longrightarrow> by_id b i = None"
  by (cases "by_id b i") (auto elim: trimmed_entry)

lemma trimmed_fresh: "trimmed k a b \<Longrightarrow> fresh a i \<Longrightarrow> fresh b i"
  using trimmed_none [of k a b i] trimmed_parent [of k a b]
  by (auto simp: fresh_def) (auto simp: trimmed_def pool_ids_def)

lemma trimmed_held: "ring_ok a \<Longrightarrow> trimmed k a b \<Longrightarrow> held_ns b \<le> held_ns a"
proof -
  assume r: "ring_ok a" and t: "trimmed k a b"
  let ?g = "(by_id a) |` set (order b)"
  have "ring_ns (by_id b) = ring_ns ?g" using t by (intro ring_ns_strip) (simp add: trimmed_def)
  also have "\<dots> = (\<Sum>i \<in> dom (by_id a) \<inter> set (order b). unat (e_total_ns (the (by_id a i))))"
    by (auto simp: ring_ns_def ring_sum_def intro!: sum.cong)
  also have "\<dots> \<le> ring_ns (by_id a)"
    unfolding ring_ns_def ring_sum_def using ring_finite [OF r] by (intro sum_mono2) auto
  finally show ?thesis using t by (simp add: held_ns_def trimmed_def)
qed

text \<open>The state after step 4: parent charged, nothing else changed.\<close>

lemma charge_parent_inv:
  assumes inv: "agg_inv b" and held: "ring_ns (by_id b) + unat t < 2 ^ 64"
    and pin: "pin \<longleftrightarrow> ws_parent_id s \<noteq> None"
  shows "\<exists>h cs T. charge_parent s pin t b = b\<lparr>by_id := h, child_sum := cs, buckets := T\<rparr> \<and>
    strip h = strip (by_id b) \<and> table_ok bucket_rep T (contribs h) \<and>
    (\<forall>i e. h i = Some e \<longrightarrow>
      e_self_ns e = sat_sub (e_total_ns e) (case cs i of None \<Rightarrow> 0 | Some v \<Rightarrow> v)) \<and>
    (\<forall>q. h q = None \<longrightarrow> cs q = None) \<and>
    (\<forall>q. h q \<noteq> None \<longrightarrow> unat (case cs q of None \<Rightarrow> 0 | Some v \<Rightarrow> v) =
      (if ws_parent_id s = Some q then unat t else 0) + kids_total h q)"
proof -
  note D = agg_invD [OF inv]
  have sum_at: "by_id b q \<noteq> None \<Longrightarrow> unat (child_sum_for b q) = kids_total (by_id b) q"
    and no_sum: "by_id b q = None \<Longrightarrow> child_sum b q = None" for q
    using D(4) by (simp_all add: sums_ok_def)
  show ?thesis
  proof (cases "\<exists>p. ws_parent_id s = Some p \<and> by_id b p \<noteq> None")
    case False
    then have "charge_parent s pin t b = b\<lparr>by_id := by_id b, child_sum := child_sum b, buckets := buckets b\<rparr>"
      by (auto simp: charge_parent_def split: option.split)
    moreover have "\<forall>q. by_id b q \<noteq> None \<longrightarrow> unat (case child_sum b q of None \<Rightarrow> 0 | Some v \<Rightarrow> v) =
        (if ws_parent_id s = Some q then unat t else 0) + kids_total (by_id b) q"
      using False sum_at by (auto simp: child_sum_for_def)
    ultimately show ?thesis
      using D(5,6) no_sum unfolding self_ok_def table_of_def child_sum_for_def by blast
  next
    case True
    then obtain p pe where p: "ws_parent_id s = Some p" "by_id b p = Some pe" by blast
    define n where "n = child_sum_for b p + t"
    define cs where "cs = (child_sum b)(p \<mapsto> n)"
    have charge: "charge_parent s pin t b = bump_parent_self p n (b\<lparr>child_sum := cs\<rparr>)"
      using p pin by (simp add: charge_parent_def cs_def n_def Let_def)
    have cs_p: "(case cs p of None \<Rightarrow> 0 | Some v \<Rightarrow> v) = n"
      and cs_q: "\<forall>q. q \<noteq> p \<longrightarrow> cs q = child_sum b q" by (simp_all add: cs_def)
    obtain h T where h: "charge_parent s pin t b = b\<lparr>by_id := h, child_sum := cs, buckets := T\<rparr>"
      "strip h = strip (by_id b)" "table_ok bucket_rep T (contribs h)"
      "\<forall>i e. h i = Some e \<longrightarrow>
        e_self_ns e = sat_sub (e_total_ns e) (case cs i of None \<Rightarrow> 0 | Some v \<Rightarrow> v)"
      using set_child_sum [OF D(1) D(6) D(5) D(10) p(2) cs_p cs_q] charge by auto
    have "unat (child_sum_for b p) \<le> ring_ns (by_id b)"
      using sum_at [of p] p kids_le_ring [of "by_id b" p] by simp
    then have n: "unat n = kids_total (by_id b) p + unat t"
      using held sum_at [of p] p by (simp add: n_def unat_add_small)
    have "\<forall>q. h q = None \<longrightarrow> cs q = None"
      using no_sum strip_none [OF h(2)] p(2) by (auto simp: cs_def)
    moreover have "unat (case cs q of None \<Rightarrow> 0 | Some v \<Rightarrow> v) =
        (if ws_parent_id s = Some q then unat t else 0) + kids_total h q" if "h q \<noteq> None" for q
      using n sum_at [of q] p cs_p cs_q that strip_none [OF h(2), of q]
      by (cases "q = p") (simp_all add: kids_total_strip [OF h(2)] child_sum_for_def)
    ultimately show ?thesis using h by blast
  qed
qed

text \<open>What step 1 found out about a span that can be placed.\<close>

definition placed :: "aggregator \<Rightarrow> wire_span \<Rightarrow> bucket_key \<Rightarrow> bool" where
  "placed a s k \<longleftrightarrow>
     (case ws_parent_id s of
        None \<Rightarrow> k = resolve_root a s
      | Some p \<Rightarrow> (\<exists>pe. by_id a p = Some pe \<and> k = resolve_with_parent a s pe))"

lemma try_resolve_Inr:
  "try_resolve a s = Inr (k, pin) \<Longrightarrow> placed a s k \<and> (pin \<longleftrightarrow> ws_parent_id s \<noteq> None)"
  by (auto simp: try_resolve_def placed_def split: option.splits)

lemma try_resolve_Inl:
  "try_resolve a s = Inl p \<Longrightarrow> ws_parent_id s = Some p \<and> by_id a p = None"
  by (auto simp: try_resolve_def split: option.splits)

lemma take_waiters_eq:
  assumes "bt_ok (pending a)" "pending_len a = bt_total (pending a)"
  shows "take_waiters i a = (a\<lparr>pending := bt_remove i (pending a), pending_len := bt_total (bt_remove i (pending a))\<rparr>,
    case bt_get (pending a) i of None \<Rightarrow> [] | Some ws \<Rightarrow> ws)"
proof (cases "bt_get (pending a) i")
  case None
  then show ?thesis using assms(2) by (simp add: take_waiters_def bt_remove_absent)
next
  case (Some ws)
  then show ?thesis
    using bt_total_remove [OF Some] assms(2) by (simp add: take_waiters_def)
qed

lemma fresh_other:
  "fresh a i \<Longrightarrow> by_id a j \<noteq> None \<Longrightarrow> j \<noteq> i"
  by (auto simp: fresh_def)

text \<open>The state after a new entry was appended to \<open>b\<close>, whose parent was charged.\<close>

lemma insert_finish:
  assumes inv: "agg_inv b" and room: "length (order b) < history_budget b"
    and fresh: "fresh b (ws_id s)" and closed: "ws_closed_at_ns s \<noteq> None"
    and parent0: "\<forall>p. ws_parent_id s = Some p \<longrightarrow> p \<noteq> ws_id s \<and> p \<notin> set (pool_ids b)"
    and held: "held_ns b + span_ns s < 2 ^ 64"
    and place0: "ws_parent_id s = None \<longrightarrow> k = resolve_root b s"
      "\<forall>p pe. ws_parent_id s = Some p \<longrightarrow> by_id b p = Some pe \<longrightarrow> k = resolve_with_parent b s pe"
    and pin: "pin \<longleftrightarrow> ws_parent_id s \<noteq> None"
  defines "t \<equiv> span_total_ns s"
  defines "c \<equiv> fst (take_waiters (ws_id s) (insert_entry s k t t (add_contribution k t t (charge_parent s pin t b))))"
  shows "agg_inv c"
    and "order c = order b @ [ws_id s]" and "pending c = bt_remove (ws_id s) (pending b)"
    and "\<And>i e. by_id c i = Some e \<Longrightarrow> i = ws_id s \<and> e_span e = s \<or>
      (\<exists>e'. by_id b i = Some e' \<and> e_span e' = e_span e)"
    and "split_keys c = split_keys b" and "history_budget c = history_budget b"
    and "held_ns c + sum_list (map span_ns (case bt_get (pending b) (ws_id s) of None \<Rightarrow> [] | Some ws \<Rightarrow> ws))
      \<le> held_ns b + span_ns s"
proof -
  note D = agg_invD [OF inv] and parent = parent0 [rule_format] and place = place0 [rule_format]
  let ?i = "ws_id s" and ?ent = "\<lparr>e_span = s, e_bucket = k, e_total_ns = t, e_self_ns = t\<rparr>"
  have "ring_ns (by_id b) + unat t < 2 ^ 64" using held by (simp add: held_ns_def span_ns_def t_def)
  from charge_parent_inv [OF inv this pin] obtain h cs T where
    ch: "charge_parent s pin t b = b\<lparr>by_id := h, child_sum := cs, buckets := T\<rparr>"
    and h: "strip h = strip (by_id b)" and T: "table_ok bucket_rep T (contribs h)"
    and hs: "\<forall>i e. h i = Some e \<longrightarrow>
      e_self_ns e = sat_sub (e_total_ns e) (case cs i of None \<Rightarrow> 0 | Some v \<Rightarrow> v)"
    and cs0: "\<forall>q. h q = None \<longrightarrow> cs q = None"
    and cs1: "\<forall>q. h q \<noteq> None \<longrightarrow> unat (case cs q of None \<Rightarrow> 0 | Some v \<Rightarrow> v) =
      (if ws_parent_id s = Some q then unat t else 0) + kids_total h q"
    by blast
  have hi: "h ?i = None" using fresh strip_none [OF h, of ?i] by (simp add: fresh_def)
  have fin: "finite (dom h)" using D(11) strip_dom [OF h] by simp
  define U where "U = AList.update k (bucket_add t t (case map_of T k of None \<Rightarrow> bucket_default | Some st \<Rightarrow> st)) T"
  have U: "table_ok bucket_rep U (contribs (h(?i \<mapsto> ?ent)))"
    using bucket.table_put [OF T, of k "(t, t)"] by (simp add: contribs_insert [OF fin hi] U_def)
  have pool: "bt_ok (pending b)" "pending_len b = bt_total (pending b)"
    using D(2) by (simp_all add: pool_ok_def)
  have c: "c = b\<lparr>order := order b @ [?i], by_id := h(?i \<mapsto> ?ent), child_sum := cs, buckets := U,
      pending := bt_remove ?i (pending b), pending_len := bt_total (bt_remove ?i (pending b))\<rparr>"
    by (simp add: c_def ch insert_entry_def add_contribution_def take_waiters_eq pool U_def)
  have rp: "ring_parent (by_id c) = (ring_parent (by_id b))(?i := ws_parent_id s)"
    by (simp add: c ring_parent_insert ring_parent_strip [OF h])
  have nopar: "ring_parent (by_id b) j \<noteq> Some ?i" for j using fresh by (simp add: fresh_def)
  have entry: "i = ?i \<and> e = ?ent \<or> i \<noteq> ?i \<and> (\<exists>e'. by_id b i = Some e' \<and> e_span e' = e_span e \<and>
      e_bucket e' = e_bucket e \<and> e_total_ns e' = e_total_ns e)" if "by_id c i = Some e" for i e
    using that by (cases "i = ?i") (auto simp: c elim!: strip_some [OF h])
  show order: "order c = order b @ [ws_id s]" and "pending c = bt_remove (ws_id s) (pending b)"
    and sk: "split_keys c = split_keys b" and "history_budget c = history_budget b"
    by (simp_all add: c)
  show "i = ws_id s \<and> e_span e = s \<or> (\<exists>e'. by_id b i = Some e' \<and> e_span e' = e_span e)"
    if "by_id c i = Some e" for i e
    using entry [OF that] by auto
  have sorted: "sorted_wrt (\<lambda>i j. ring_parent (by_id c) i \<noteq> Some j) (order c)"
  proof -
    have "?i \<notin> set (order b)" using D(1) fresh by (auto simp: ring_ok_def fresh_def)
    have "sorted_wrt (\<lambda>i j. ring_parent (by_id b) i \<noteq> Some j) (order b)"
      using D(1) by (simp add: ring_ok_def)
    then have "sorted_wrt (\<lambda>i j. ring_parent (by_id c) i \<noteq> Some j) (order b)"
      by (rule sorted_wrt_mono_rel [rotated]) (use \<open>?i \<notin> set (order b)\<close> in \<open>auto simp: rp\<close>)
    with \<open>?i \<notin> set (order b)\<close> show ?thesis
      using nopar by (auto simp: order sorted_wrt_append rp)
  qed
  have ring: "ring_ok c"
  proof -
    have "dom (by_id c) = insert ?i (dom (by_id b))" by (simp add: c strip_dom [OF h])
    then have "distinct (order c)" "set (order c) = dom (by_id c)"
      using D(1) fresh by (auto simp: ring_ok_def order fresh_def)
    moreover have "ring_parent (by_id c) i \<noteq> Some i" for i
      using D(1) parent by (auto simp: rp ring_ok_def)
    moreover have "ws_id (e_span e) = i \<and> e_total_ns e = span_total_ns (e_span e) \<and>
        ws_closed_at_ns (e_span e) \<noteq> None" if "by_id c i = Some e" for i e
      using entry [OF that] ring_entry [OF D(1), of i] closed by (auto simp: t_def)
    ultimately show ?thesis using sorted unfolding ring_ok_def by blast
  qed
  have remains: "bt_get (bt_remove ?i (pending b)) p = Some ws \<Longrightarrow> p \<noteq> ?i \<and> bt_get (pending b) p = Some ws"
    for p ws by (auto simp: bt_get_remove [OF pool(1)] split: if_splits)
  have "pool_ok c"
    using D(2) strip_none [OF h] remains bt_total_remove_le [of ?i "pending b"]
    by (auto simp: pool_ok_def c bt_ok_remove dest!: remains)
  moreover have mset: "mset (bt_values (pending b)) =
      mset (case bt_get (pending b) ?i of None \<Rightarrow> [] | Some ws \<Rightarrow> ws) + mset (bt_values (pending c))"
    by (cases "bt_get (pending b) ?i") (simp_all add: c bt_remove_absent mset_bt_values_remove)
  then have sub: "mset (bt_values (pending c)) \<subseteq># mset (bt_values (pending b))" by simp
  have "ids_ok c"
  proof -
    have "distinct (map ws_id (bt_values (pending b)))" using D(3) by (simp add: ids_ok_def pool_ids_def)
    note ids = pool_sub_ids [OF sub this]
    have "by_id c j = None \<and> (\<forall>q. ring_parent (by_id c) q \<noteq> Some j)" if "j \<in> set (pool_ids c)" for j
    proof -
      have j: "j \<in> set (pool_ids b)" using ids that by (auto simp: pool_ids_def)
      then have "j \<noteq> ?i" using fresh by (auto simp: fresh_def)
      moreover have "ws_parent_id s \<noteq> Some j" using parent j by auto
      ultimately show ?thesis
        using j D(3) strip_none [OF h, of j] by (auto simp: ids_ok_def rp) (simp add: c)
    qed
    then show ?thesis using ids(1) by (simp add: ids_ok_def pool_ids_def)
  qed
  moreover have kids: "kids_total (by_id c) q =
      (if ws_parent_id s = Some q then unat t else 0) + kids_total h q" for q
    by (simp add: kids_total_def c ring_sum_insert [OF fin hi])
  have no_kids: "kids_total h ?i = 0"
  proof -
    have "ws_parent_id (e_span (the (by_id b j))) \<noteq> Some ?i" if "j \<in> dom (by_id b)" for j
      using nopar [of j] that by (auto simp: ring_parent_def)
    then show ?thesis
      by (simp add: kids_total_strip [OF h]) (simp add: kids_total_def ring_sum_def)
  qed
  have no_par: "ws_parent_id s \<noteq> Some ?i" using parent by auto
  have csi: "cs ?i = None" using cs0 hi by simp
  have "sums_ok c"
    unfolding sums_ok_def kids
    using cs0 cs1 no_kids no_par csi by (auto simp: c child_sum_for_def)
  moreover have "self_ok c"
    using hs csi by (auto simp: self_ok_def c child_sum_for_def)
  moreover have "table_of c" using U by (simp add: table_of_def c)
  moreover have "links_ok c"
    unfolding links_ok_def
  proof (intro allI impI conjI)
    fix i e
    assume e: "by_id c i = Some e"
    note res = resolve_cong [OF sk]
    {
      assume root: "ws_parent_id (e_span e) = None"
      from entry [OF e] show "e_bucket e = resolve_root c (e_span e)"
        using place(1) root D(7) res unfolding links_ok_def by (metis entry.select_convs(1,2))
    next
      fix p pe
      assume p: "ws_parent_id (e_span e) = Some p \<and> by_id c p = Some pe"
      have "p \<noteq> ?i"
        using p no_par nopar [of i] entry [OF e] by (auto simp: ring_parent_def)
      then obtain pe' where pe': "by_id b p = Some pe'" "e_bucket pe' = e_bucket pe"
        using entry [of p pe] p by blast
      from entry [OF e] show "e_bucket e = resolve_with_parent c (e_span e) pe"
      proof (elim disjE conjE exE)
        assume "e = ?ent"
        then show ?thesis using place(2) [OF _ pe'(1)] p res [OF pe'(2) [symmetric]] by simp
      next
        fix e'
        assume "by_id b i = Some e'" "e_span e' = e_span e" "e_bucket e' = e_bucket e"
        then have "e_bucket e = resolve_with_parent b (e_span e) pe'"
          using D(7) pe'(1) p unfolding links_ok_def by metis
        then show ?thesis using res [OF pe'(2) [symmetric]] by simp
      qed
    }
  qed
  moreover have "budget_ok c" using D(8) room by (simp add: budget_ok_def c)
  moreover have pool_ns: "sum_list (map span_ns (bt_values (pending b))) =
      sum_list (map span_ns (case bt_get (pending b) ?i of None \<Rightarrow> [] | Some ws \<Rightarrow> ws)) +
      sum_list (map span_ns (bt_values (pending c)))"
    by (metis mset mset_append map_append sum_list_append mset_map sum_mset_sum_list)
  have ring_c: "ring_ns (by_id c) = unat t + ring_ns (by_id b)"
    by (simp add: ring_ns_def c ring_sum_insert [OF fin hi])
      (use ring_ns_strip [OF h] in \<open>simp add: ring_ns_def\<close>)
  show le: "held_ns c + sum_list (map span_ns (case bt_get (pending b) (ws_id s) of None \<Rightarrow> [] | Some ws \<Rightarrow> ws))
      \<le> held_ns b + span_ns s"
    using pool_ns ring_c by (simp add: held_ns_def span_ns_def t_def)
  ultimately show "agg_inv c" using ring held by (simp add: agg_inv_def)
qed

section \<open>Absorbing a work list\<close>

text \<open>The spans held, in the ring or in the pool.\<close>

definition ring_set :: "aggregator \<Rightarrow> wire_span set" where
  "ring_set a = {e_span e | e i. by_id a i = Some e}"

definition held_set :: "aggregator \<Rightarrow> wire_span set" where
  "held_set a = ring_set a \<union> set (bt_values (pending a))"

text \<open>The parents named by spans of the ring.\<close>

definition ring_parents :: "aggregator \<Rightarrow> u64 set" where
  "ring_parents a = {p. \<exists>s \<in> ring_set a. ws_parent_id s = Some p}"

lemma ring_parents_iff: "p \<in> ring_parents a \<longleftrightarrow> (\<exists>i. ring_parent (by_id a) i = Some p)"
  by (auto simp: ring_parents_def ring_set_def ring_parent_def split: option.splits)

lemma insert_resolved_inv:
  assumes inv: "agg_inv a" and res: "try_resolve a s = Inr (k, pin)" and fresh: "fresh a (ws_id s)"
    and closed: "ws_closed_at_ns s \<noteq> None" and held: "held_ns a + span_ns s < 2 ^ 64"
  shows "\<exists>c ws. insert_resolved s k pin a = Some (c, ws) \<and> agg_inv c \<and>
    order c = drop (Suc (length (order a)) - history_budget a) (order a) @ [ws_id s] \<and>
    (\<forall>i e. by_id c i = Some e \<longrightarrow> i = ws_id s \<and> e_span e = s \<or>
      (\<exists>e'. by_id a i = Some e' \<and> e_span e' = e_span e)) \<and>
    pending c = bt_remove (ws_id s) (pending a) \<and>
    ws = (case bt_get (pending a) (ws_id s) of None \<Rightarrow> [] | Some ws \<Rightarrow> ws) \<and>
    held_ns c + sum_list (map span_ns ws) \<le> held_ns a + span_ns s \<and>
    split_keys c = split_keys a \<and> history_budget c = history_budget a"
proof -
  note D = agg_invD [OF inv]
  let ?d = "Suc (length (order a)) - history_budget a"
  obtain b where b: "make_room a = Some b" "agg_inv b" "length (order b) < history_budget b"
    and t: "trimmed ?d a b"
    using make_room_inv [OF inv] by blast
  have same: "order b = drop ?d (order a)" "pending b = pending a" "split_keys b = split_keys a"
    "history_budget b = history_budget a" "pending_len b = pending_len a"
    using t by (simp_all add: trimmed_def)
  from try_resolve_Inr [OF res] have pl: "placed a s k" and pin: "pin \<longleftrightarrow> ws_parent_id s \<noteq> None"
    by simp_all
  have self: "sat_sub (span_total_ns s) (child_sum_for a (ws_id s)) = span_total_ns s"
    using D(4) fresh by (simp add: sums_ok_def fresh_def child_sum_for_def)
  have parent: "\<forall>p. ws_parent_id s = Some p \<longrightarrow> p \<noteq> ws_id s \<and> p \<notin> set (pool_ids b)"
  proof (intro allI impI)
    fix p assume "ws_parent_id s = Some p"
    with pl obtain pe where "by_id a p = Some pe" by (auto simp: placed_def)
    then show "p \<noteq> ws_id s \<and> p \<notin> set (pool_ids b)"
      using fresh D(3) by (auto simp: fresh_def ids_ok_def pool_ids_def same)
  qed
  have root: "ws_parent_id s = None \<longrightarrow> k = resolve_root b s"
    using pl same by (auto simp: placed_def resolve_root_def)
  have child: "\<forall>p pe. ws_parent_id s = Some p \<longrightarrow> by_id b p = Some pe \<longrightarrow> k = resolve_with_parent b s pe"
  proof (intro allI impI)
    fix p pe assume sp: "ws_parent_id s = Some p" "by_id b p = Some pe"
    obtain pe' where "by_id a p = Some pe'" "e_bucket pe' = e_bucket pe"
      by (rule trimmed_entry [OF t sp(2)])
    then show "k = resolve_with_parent b s pe"
      using pl sp same by (simp add: placed_def resolve_with_parent_def)
  qed
  have hb: "held_ns b \<le> held_ns a" by (rule trimmed_held [OF D(1) t])
  then have held_b: "held_ns b + span_ns s < 2 ^ 64" using held by simp
  note fin = insert_finish [OF b(2,3) trimmed_fresh [OF t fresh] closed parent held_b root child pin]
  define f where "f = take_waiters (ws_id s) (insert_entry s k (span_total_ns s) (span_total_ns s)
    (add_contribution k (span_total_ns s) (span_total_ns s) (charge_parent s pin (span_total_ns s) b)))"
  note fin = fin [folded f_def]
  have snd: "snd f = (case bt_get (pending a) (ws_id s) of None \<Rightarrow> [] | Some ws \<Rightarrow> ws)"
  proof -
    have "pending (insert_entry s k t u (add_contribution k t u b')) = pending b'" for t u b'
      by (simp add: insert_entry_def add_contribution_def)
    moreover have "pending (charge_parent s pin t b) = pending b" for t
      by (simp add: charge_parent_def bump_parent_self_def Let_def split: option.split)
    ultimately show ?thesis
      by (simp add: f_def take_waiters_def same split: option.split)
  qed
  have "insert_resolved s k pin a = Some (fst f, snd f)"
    by (simp add: insert_resolved_def Let_def self b(1) f_def)
  moreover have "\<forall>i e. by_id (fst f) i = Some e \<longrightarrow> i = ws_id s \<and> e_span e = s \<or>
      (\<exists>e'. by_id a i = Some e' \<and> e_span e' = e_span e)"
  proof (intro allI impI)
    fix i e
    assume "by_id (fst f) i = Some e"
    from fin(4) [OF this] show "i = ws_id s \<and> e_span e = s \<or>
      (\<exists>e'. by_id a i = Some e' \<and> e_span e' = e_span e)"
    proof (elim disjE exE conjE)
      fix e'
      assume e': "by_id b i = Some e'" "e_span e' = e_span e"
      obtain e2 where "by_id a i = Some e2" "e_span e2 = e_span e'" by (rule trimmed_entry [OF t e'(1)])
      with e'(2) show ?thesis by auto
    qed simp
  qed
  moreover have "held_ns (fst f) + sum_list (map span_ns (snd f)) \<le> held_ns a + span_ns s"
    using fin(7) hb by (simp add: snd same)
  ultimately show ?thesis
    using fin(1,2,3,5,6) snd by (intro exI [of _ "fst f"] exI [of _ "snd f"]) (simp add: same)
qed

definition todo_ok :: "aggregator \<Rightarrow> wire_span list \<Rightarrow> bool" where
  "todo_ok a ws \<longleftrightarrow> distinct (map ws_id ws) \<and>
     (\<forall>w \<in> set ws. fresh a (ws_id w) \<and> ws_closed_at_ns w \<noteq> None) \<and>
     held_ns a + sum_list (map span_ns ws) < 2 ^ 64"

lemma todo_ok_rest:
  "todo_ok a (s # ws) \<Longrightarrow> w \<in> set ws \<Longrightarrow> fresh a (ws_id w) \<and> ws_id w \<noteq> ws_id s"
  unfolding todo_ok_def by (metis distinct.simps(2) image_eqI list.set_intros(2) list.set_map list.simps(9))

lemma pool_get:
  assumes "agg_inv a" "bt_get (pending a) p = Some ws" "w \<in> set ws"
  shows "ws_parent_id w = Some p" "ws_closed_at_ns w \<noteq> None" "w \<in> set (bt_values (pending a))"
  using assms agg_invD(2) [OF assms(1)] bt_get_in_values [OF assms(2)] by (auto simp: pool_ok_def)

lemma todo_ok_park:
  assumes inv: "agg_inv a" and todo: "todo_ok a (s # ws)" and res: "try_resolve a s = Inl p"
  shows "agg_inv (park_pending p s a)" "todo_ok (park_pending p s a) ws"
proof -
  from try_resolve_Inl [OF res] have p: "ws_parent_id s = Some p" "by_id a p = None" by simp_all
  have s: "ws_closed_at_ns s \<noteq> None" "fresh a (ws_id s)" "held_ns a + span_ns s < 2 ^ 64"
    using todo by (simp_all add: todo_ok_def)
  note park = park_pending_inv [OF inv p s]
  show "agg_inv (park_pending p s a)" by (rule park(1))
  have "set (bt_values (pending (park_pending p s a))) \<subseteq> insert s (set (bt_values (pending a)))"
    using set_mset_mono [OF park(6)] by simp
  then have "set (pool_ids (park_pending p s a)) \<subseteq> insert (ws_id s) (set (pool_ids a))"
    by (auto simp: pool_ids_def)
  then have "fresh (park_pending p s a) (ws_id w)" if "w \<in> set ws" for w
    using todo_ok_rest [OF todo that] by (auto simp: fresh_def park(3))
  then show "todo_ok (park_pending p s a) ws"
    using todo park(7) by (auto simp: todo_ok_def)
qed

lemma todo_ok_insert:
  assumes inv: "agg_inv a" and todo: "todo_ok a (s # todo)" and res: "try_resolve a s = Inr (k, pin)"
    and c: "agg_inv c" "\<forall>i e. by_id c i = Some e \<longrightarrow> i = ws_id s \<and> e_span e = s \<or>
      (\<exists>e'. by_id a i = Some e' \<and> e_span e' = e_span e)"
    and pend: "pending c = bt_remove (ws_id s) (pending a)"
    and ws: "ws = (case bt_get (pending a) (ws_id s) of None \<Rightarrow> [] | Some ws \<Rightarrow> ws)"
    and held: "held_ns c + sum_list (map span_ns ws) \<le> held_ns a + span_ns s"
  shows "todo_ok c (ws @ todo)"
proof -
  note D = agg_invD [OF inv]
  have ms: "mset (bt_values (pending a)) = mset ws + mset (bt_values (pending c))"
    by (cases "bt_get (pending a) (ws_id s)") (simp_all add: pend ws bt_remove_absent mset_bt_values_remove)
  have "mset (pool_ids a) = mset (map ws_id ws @ pool_ids c)"
    using arg_cong [OF ms, of "image_mset ws_id"] by (simp add: pool_ids_def)
  then have dist: "distinct (map ws_id ws @ pool_ids c)" and sets: "set (pool_ids a) = set (map ws_id ws @ pool_ids c)"
    using D(3) unfolding ids_ok_def by (metis mset_eq_imp_distinct_iff, metis mset_eq_setD)
  have fs: "fresh a (ws_id s)" using todo by (simp add: todo_ok_def)
  have ringc: "by_id c i = None" if "by_id a i = None" "i \<noteq> ws_id s" for i
    using c(2) that by (cases "by_id c i") fastforce+
  have parc: "ring_parent (by_id c) j \<noteq> Some i"
    if a: "by_id a i = None" "\<forall>j. ring_parent (by_id a) j \<noteq> Some i" for i j
  proof
    assume "ring_parent (by_id c) j = Some i"
    then obtain e where e: "by_id c j = Some e" "ws_parent_id (e_span e) = Some i"
      by (auto simp: ring_parent_def split: option.splits)
    with c(2) consider "e_span e = s" | e' where "by_id a j = Some e'" "e_span e' = e_span e" by blast
    then show False
    proof cases
      case 1
      with e(2) try_resolve_Inr [OF res] a(1) show False by (auto simp: placed_def)
    next
      case (2 e')
      with e(2) a(2) show False by (auto simp: ring_parent_def dest: spec [of _ j])
    qed
  qed
  have "fresh c (ws_id w)" if "w \<in> set ws" for w
  proof -
    have "ws_id w \<in> set (pool_ids a)" using sets that by auto
    then have "by_id a (ws_id w) = None" "\<forall>j. ring_parent (by_id a) j \<noteq> Some (ws_id w)" "ws_id w \<noteq> ws_id s"
      using D(3) fs by (auto simp: ids_ok_def fresh_def)
    then show ?thesis using ringc parc dist that by (auto simp: fresh_def)
  qed
  moreover have "fresh c (ws_id w)" if "w \<in> set todo" for w
  proof -
    have "fresh a (ws_id w)" "ws_id w \<noteq> ws_id s" using todo_ok_rest [OF todo that] by simp_all
    then show ?thesis using ringc parc sets by (auto simp: fresh_def)
  qed
  moreover have "distinct (map ws_id (ws @ todo))"
  proof -
    have "ws_id ` set ws \<inter> ws_id ` set todo = {}"
    proof -
      have "ws_id w \<notin> set (pool_ids a)" if "w \<in> set todo" for w
        using todo_ok_rest [OF todo that] by (simp add: fresh_def)
      moreover have "ws_id w \<in> set (pool_ids a)" if "w \<in> set ws" for w
        using that sets by simp
      ultimately have "False" if "x \<in> set ws" "y \<in> set todo" "ws_id x = ws_id y" for x y
        using that by metis
      then show ?thesis by blast
    qed
    then show ?thesis using dist todo by (simp add: todo_ok_def)
  qed
  moreover have "ws_closed_at_ns w \<noteq> None" if "w \<in> set ws" for w
    using that pool_get(2) [OF inv, of "ws_id s"] by (cases "bt_get (pending a) (ws_id s)") (simp_all add: ws)
  ultimately show ?thesis using todo held by (auto simp: todo_ok_def)
qed

text \<open>The last \<open>n\<close> elements: what a ring of capacity \<open>n\<close> keeps.\<close>

definition last_n :: "nat \<Rightarrow> 'a list \<Rightarrow> 'a list" where
  "last_n n xs = drop (length xs - n) xs"

lemma last_n_push: "length xs \<le> n \<Longrightarrow> 0 < n \<Longrightarrow> drop (Suc (length xs) - n) xs @ [x] = last_n n (xs @ [x])"
  by (simp add: last_n_def)

lemma last_n_append: "last_n n (last_n n xs @ ys) = last_n n (xs @ ys)"
proof (cases "length xs \<le> n")
  case False
  then have "length ys + (length xs - n) = length xs + length ys - n" by simp
  with False show ?thesis by (simp add: last_n_def)
qed (simp add: last_n_def)

lemma last_n_all: "length xs \<le> n \<Longrightarrow> last_n n xs = xs"
  by (simp add: last_n_def)

text \<open>
  The recursion returns, on every work list that the invariant admits. The ids it reports are new
  and come from the work list and the pool, and the ring keeps the last of them.
\<close>

lemma absorb_run:
  assumes "agg_inv a" "todo_ok a todo"
  shows "\<exists>c new. run_opt absorb_resolved (a, ins) todo = Some (c, ins @ new) \<and> agg_inv c \<and>
    order c = last_n (history_budget a) (order a @ new) \<and>
    set new \<subseteq> ws_id ` set todo \<union> set (pool_ids a) \<and> distinct new \<and>
    ring_set c \<subseteq> ring_set a \<union> set todo \<union> set (bt_values (pending a)) \<and>
    set (bt_values (pending c)) \<subseteq> set todo \<union> set (bt_values (pending a)) \<and>
    ring_parents c \<subseteq> ring_parents a \<union> dom (by_id a) \<union> set new \<and>
    held_ns c \<le> held_ns a + sum_list (map span_ns todo) \<and>
    split_keys c = split_keys a \<and> history_budget c = history_budget a"
  using assms
proof (induction "(a, todo)" arbitrary: a todo ins
    rule: wf_induct_rule [OF wf_measures [where fs = "[\<lambda>(a, todo). bt_total (pending a) + length todo,
      \<lambda>(a, todo). length todo]"]])
  case 1
  note inv = 1(2) and todo = 1(3)
  show ?case
  proof (cases todo)
    case Nil
    then show ?thesis
      using inv agg_invD(8) [OF inv] by (simp add: budget_ok_def last_n_all)
  next
    case (Cons s ws)
    note todo = todo [unfolded Cons]
    show ?thesis
    proof (cases "try_resolve a s")
      case (Inl p)
      let ?b = "park_pending p s a"
      note next_ok = todo_ok_park [OF inv todo Inl]
      note res = try_resolve_Inl [OF Inl]
      have s: "ws_closed_at_ns s \<noteq> None" "fresh a (ws_id s)" "held_ns a + span_ns s < 2 ^ 64"
        using todo by (simp_all add: todo_ok_def)
      note park = park_pending_inv [OF inv conjunct1 [OF res] conjunct2 [OF res] s]
      have pool: "set (bt_values (pending ?b)) \<subseteq> insert s (set (bt_values (pending a)))"
        using set_mset_mono [OF park(6)] by simp
      then have ids: "set (pool_ids ?b) \<subseteq> insert (ws_id s) (set (pool_ids a))"
        by (auto simp: pool_ids_def)
      have "bt_total (pending ?b) \<le> Suc (bt_total (pending a))"
        using size_mset_mono [OF park(6)] by (simp add: length_bt_values)
      then have "((?b, ws), (a, todo)) \<in> measures [\<lambda>(a, todo). bt_total (pending a) + length todo,
          \<lambda>(a, todo). length todo]"
        by (auto simp: Cons)
      from 1(1) [OF this next_ok, of ins] obtain c new where
        "run_opt absorb_resolved (?b, ins) ws = Some (c, ins @ new)" "agg_inv c"
        "order c = last_n (history_budget a) (order a @ new)"
        "set new \<subseteq> ws_id ` set ws \<union> set (pool_ids ?b)" "distinct new"
        "ring_set c \<subseteq> ring_set ?b \<union> set ws \<union> set (bt_values (pending ?b))"
        "set (bt_values (pending c)) \<subseteq> set ws \<union> set (bt_values (pending ?b))"
        "ring_parents c \<subseteq> ring_parents ?b \<union> dom (by_id a) \<union> set new"
        "held_ns c \<le> held_ns ?b + sum_list (map span_ns ws)"
        "split_keys c = split_keys a" "history_budget c = history_budget a"
        by (auto simp: park)
      moreover have "absorb_resolved (a, ins) s = Some (?b, ins)"
        by (simp add: absorb_resolved.simps [of _ s] Inl)
      moreover have "ring_set ?b = ring_set a" by (simp add: ring_set_def park)
      moreover from this have "ring_parents ?b = ring_parents a" by (simp add: ring_parents_def)
      ultimately show ?thesis
        using pool ids park(7) by (intro exI [of _ c] exI [of _ new]) (auto simp: Cons)
    next
      case (Inr r)
      obtain k pin where r: "try_resolve a s = Inr (k, pin)" using Inr by (cases r) auto
      have s: "fresh a (ws_id s)" "ws_closed_at_ns s \<noteq> None" "held_ns a + span_ns s < 2 ^ 64"
        using todo by (simp_all add: todo_ok_def)
      obtain b waiters where b: "insert_resolved s k pin a = Some (b, waiters)" "agg_inv b"
        and order: "order b = drop (Suc (length (order a)) - history_budget a) (order a) @ [ws_id s]"
        and entries: "\<forall>i e. by_id b i = Some e \<longrightarrow> i = ws_id s \<and> e_span e = s \<or>
          (\<exists>e'. by_id a i = Some e' \<and> e_span e' = e_span e)"
        and pend: "pending b = bt_remove (ws_id s) (pending a)"
        and waiters: "waiters = (case bt_get (pending a) (ws_id s) of None \<Rightarrow> [] | Some ws \<Rightarrow> ws)"
        and held: "held_ns b + sum_list (map span_ns waiters) \<le> held_ns a + span_ns s"
        and same: "split_keys b = split_keys a" "history_budget b = history_budget a"
        using insert_resolved_inv [OF inv r s] by blast
      have next_ok: "todo_ok b (waiters @ ws)"
        by (rule todo_ok_insert [OF inv todo r b(2) entries pend waiters held])
      have ms: "mset (bt_values (pending a)) = mset waiters + mset (bt_values (pending b))"
        by (cases "bt_get (pending a) (ws_id s)")
          (simp_all add: pend waiters bt_remove_absent mset_bt_values_remove)
      then have pool: "set (bt_values (pending a)) = set waiters \<union> set (bt_values (pending b))"
        by (metis set_mset_mset set_mset_union)
      have "bt_total (pending a) = length waiters + bt_total (pending b)"
        using arg_cong [OF ms, of size] by (simp add: length_bt_values)
      then have "((b, waiters @ ws), (a, todo)) \<in> measures [\<lambda>(a, todo). bt_total (pending a) + length todo,
          \<lambda>(a, todo). length todo]"
        by (simp add: Cons)
      from 1(1) [OF this b(2) next_ok, of "ins @ [ws_id s]"] obtain c new where
        c: "run_opt absorb_resolved (b, ins @ [ws_id s]) (waiters @ ws) = Some (c, (ins @ [ws_id s]) @ new)"
        "agg_inv c" "order c = last_n (history_budget a) (order b @ new)"
        "set new \<subseteq> ws_id ` set (waiters @ ws) \<union> set (pool_ids b)" "distinct new"
        "ring_set c \<subseteq> ring_set b \<union> set (waiters @ ws) \<union> set (bt_values (pending b))"
        "set (bt_values (pending c)) \<subseteq> set (waiters @ ws) \<union> set (bt_values (pending b))"
        "ring_parents c \<subseteq> ring_parents b \<union> dom (by_id b) \<union> set new"
        "held_ns c \<le> held_ns b + sum_list (map span_ns (waiters @ ws))"
        "split_keys c = split_keys a" "history_budget c = history_budget a"
        unfolding same by blast
      have "absorb_resolved (a, ins) s = run_opt absorb_resolved (b, ins @ [ws_id s]) waiters"
        by (simp add: absorb_resolved.simps [of _ s] r b)
      then have run: "run_opt absorb_resolved (a, ins) todo = Some (c, ins @ ws_id s # new)"
        using c(1) by (simp add: Cons run_opt_append split: option.splits)
      have "order b = last_n (history_budget a) (order a @ [ws_id s])"
        using order agg_invD(8) [OF inv] by (simp add: budget_ok_def last_n_push)
      then have ord: "order c = last_n (history_budget a) (order a @ ws_id s # new)"
        using c(3) by (simp add: last_n_append)
      have ring_b: "ring_set b \<subseteq> insert s (ring_set a)" using entries by (fastforce simp: ring_set_def)
      have "p \<in> dom (by_id a)" if "ws_parent_id s = Some p" for p
        using try_resolve_Inr [OF r] that by (auto simp: placed_def)
      moreover have "dom (by_id b) \<subseteq> insert (ws_id s) (dom (by_id a))"
        using entries by fastforce
      ultimately have parents: "ring_parents c \<subseteq> ring_parents a \<union> dom (by_id a) \<union> set (ws_id s # new)"
      proof -
        have "ring_parents b \<subseteq> ring_parents a \<union> {p. ws_parent_id s = Some p}"
          using ring_b unfolding ring_parents_def by blast
        moreover have "{p. ws_parent_id s = Some p} \<subseteq> dom (by_id a)"
          using \<open>\<And>p. ws_parent_id s = Some p \<Longrightarrow> p \<in> dom (by_id a)\<close> by blast
        ultimately show ?thesis
          using c(8) \<open>dom (by_id b) \<subseteq> insert (ws_id s) (dom (by_id a))\<close> unfolding list.set by blast
      qed
      have held_c: "held_ns c \<le> held_ns a + sum_list (map span_ns todo)"
        using c(9) held by (simp add: Cons)
      from ring_b have "ring_set c \<subseteq> ring_set a \<union> set todo \<union> set (bt_values (pending a))"
        using c(6) pool by (auto simp: Cons)
      moreover have "set (bt_values (pending c)) \<subseteq> set todo \<union> set (bt_values (pending a))"
        using c(7) pool by (auto simp: Cons)
      moreover have ids: "set (pool_ids a) = ws_id ` set waiters \<union> set (pool_ids b)"
        using pool by (auto simp: pool_ids_def)
      moreover have "ws_id s \<notin> set new"
      proof -
        have "ws_id s \<notin> set (pool_ids a)" using s(1) by (simp add: fresh_def)
        moreover have "ws_id s \<notin> ws_id ` set ws" using todo by (simp add: todo_ok_def)
        ultimately show ?thesis using c(4) ids by auto
      qed
      ultimately show ?thesis
        using run ord c parents held_c by (intro exI [of _ c] exI [of _ "ws_id s # new"]) (auto simp: Cons)
    qed
  qed
qed

end
