(* ===== verification/AggProps.thy ===== *)
theory AggProps
  imports AggAbsorb
begin

text \<open>
  The aggregator's correctness: every run over spans with distinct ids returns and keeps the
  invariant; the rows are those of a recomputation from the ring; averages lie between the
  extremes; split values come from the nearest span; what changing the split keys keeps and loses.
\<close>

section \<open>Runs\<close>

text \<open>What the sender owes: a closed span's id is new, and the span time held stays below 2^64.\<close>

definition admits :: "aggregator \<Rightarrow> wire_span \<Rightarrow> bool" where
  "admits a s \<longleftrightarrow> ws_closed_at_ns s = None \<or> fresh a (ws_id s) \<and> held_ns a + span_ns s < 2 ^ 64"

lemma absorb_inv:
  assumes "agg_inv a" "admits a s"
  shows "\<exists>c new. absorb s a = Some (c, new) \<and> agg_inv c \<and>
    order c = last_n (history_budget a) (order a @ new) \<and>
    set new \<subseteq> insert (ws_id s) (set (pool_ids a)) \<and> distinct new \<and>
    set (pool_ids c) \<subseteq> insert (ws_id s) (set (pool_ids a)) \<and>
    ring_parents c \<subseteq> ring_parents a \<union> dom (by_id a) \<union> set new \<and>
    held_ns c \<le> held_ns a + span_ns s \<and>
    split_keys c = split_keys a \<and> history_budget c = history_budget a"
proof (cases "ws_closed_at_ns s = None")
  case True
  have "length (order a) \<le> history_budget a"
    using agg_invD(8) [OF assms(1)] by (simp add: budget_ok_def)
  with True assms(1) show ?thesis by (auto simp: absorb_def last_n_all)
next
  case False
  then have "todo_ok a [s]" using assms(2) by (auto simp: admits_def todo_ok_def)
  from absorb_run [OF assms(1) this, of "[]"] obtain c new where c:
    "absorb_resolved (a, []) s = Some (c, new)" "agg_inv c"
    "order c = last_n (history_budget a) (order a @ new)"
    "set new \<subseteq> insert (ws_id s) (set (pool_ids a))" "distinct new"
    "set (bt_values (pending c)) \<subseteq> insert s (set (bt_values (pending a)))"
    "ring_parents c \<subseteq> ring_parents a \<union> dom (by_id a) \<union> set new"
    "held_ns c \<le> held_ns a + span_ns s" "split_keys c = split_keys a" "history_budget c = history_budget a"
    by (auto split: option.splits)
  moreover from c(6) have "set (pool_ids c) \<subseteq> insert (ws_id s) (set (pool_ids a))"
    by (auto simp: pool_ids_def)
  ultimately show ?thesis using False by (auto simp: absorb_def)
qed

interpretation agg_machine: guarded_machine absorb_step admits agg_inv
proof
  show "\<exists>s'. absorb_step a s = Some s' \<and> agg_inv s'" if "agg_inv a" "admits a s" for a s
    using absorb_inv [OF that] by (auto simp: absorb_step_def)
qed

lemma absorb_step_same:
  "agg_inv a \<Longrightarrow> admits a s \<Longrightarrow> absorb_step a s = Some c \<Longrightarrow>
     agg_inv c \<and> history_budget c = history_budget a \<and> split_keys c = split_keys a"
  using absorb_inv [of a s] by (auto simp: absorb_step_def)

lemma run_same:
  "run_opt absorb_step a ss = Some c \<Longrightarrow> agg_inv a \<Longrightarrow> agg_machine.all_ok a ss \<Longrightarrow>
     history_budget c = history_budget a \<and> split_keys c = split_keys a"
proof (induction ss arbitrary: a)
  case (Cons s ss)
  then obtain b where b: "absorb_step a s = Some b" "run_opt absorb_step b ss = Some c"
    by (auto split: option.splits)
  then show ?case
    using Cons absorb_step_same [of a s b] by simp
qed simp

text \<open>Every id the aggregator knows of.\<close>

definition known_ids :: "aggregator \<Rightarrow> u64 set" where
  "known_ids a = dom (by_id a) \<union> set (pool_ids a) \<union> ring_parents a"

lemma fresh_unknown: "i \<notin> known_ids a \<Longrightarrow> fresh a i"
  by (auto simp: known_ids_def fresh_def ring_parents_iff)

lemma ring_dom: "agg_inv a \<Longrightarrow> dom (by_id a) = set (order a)"
  using agg_invD(1) by (auto simp: ring_ok_def)

lemma last_n_subset: "set (last_n n xs) \<subseteq> set xs"
  by (simp add: last_n_def set_drop_subset)

lemma absorb_step_known:
  assumes "agg_inv a" "admits a s" "absorb_step a s = Some c"
  shows "known_ids c \<subseteq> insert (ws_id s) (known_ids a)" "held_ns c \<le> held_ns a + span_ns s"
proof -
  obtain new where new: "absorb s a = Some (c, new)" using assms(3) by (auto simp: absorb_step_def)
  with absorb_inv [OF assms(1,2)] have c: "agg_inv c"
    "order c = last_n (history_budget a) (order a @ new)"
    "set new \<subseteq> insert (ws_id s) (set (pool_ids a))"
    "set (pool_ids c) \<subseteq> insert (ws_id s) (set (pool_ids a))"
    "ring_parents c \<subseteq> ring_parents a \<union> dom (by_id a) \<union> set new"
    and held: "held_ns c \<le> held_ns a + span_ns s" by auto
  have "dom (by_id c) \<subseteq> dom (by_id a) \<union> set new"
    using last_n_subset [of "history_budget a" "order a @ new"] c(2)
    by (simp add: ring_dom [OF c(1)] ring_dom [OF assms(1)])
  then show "known_ids c \<subseteq> insert (ws_id s) (known_ids a)"
    using c(3,4,5) unfolding known_ids_def by blast
  show "held_ns c \<le> held_ns a + span_ns s" by (rule held)
qed

lemma absorb_held:
  assumes "agg_inv a" "admits a s" "absorb s a = Some (c, new)"
  shows "held_set c \<subseteq> insert s (held_set a)"
proof (cases "ws_closed_at_ns s = None")
  case False
  then have "todo_ok a [s]" using assms(2) by (auto simp: admits_def todo_ok_def)
  from absorb_run [OF assms(1) this, of "[]"] False assms(3)
  have "ring_set c \<subseteq> ring_set a \<union> {s} \<union> set (bt_values (pending a))"
      "set (bt_values (pending c)) \<subseteq> {s} \<union> set (bt_values (pending a))"
    by (auto simp: absorb_def split: option.splits)
  then show ?thesis unfolding held_set_def by blast
qed (use assms(3) in \<open>auto simp: absorb_def\<close>)

lemma disjoint_step: "A \<subseteq> insert x B \<Longrightarrow> B \<inter> insert x S = {} \<Longrightarrow> x \<notin> S \<Longrightarrow> A \<inter> S = {}"
  by blast

lemma distinct_run_ok:
  "agg_inv a \<Longrightarrow> distinct (map ws_id ss) \<Longrightarrow> known_ids a \<inter> ws_id ` set ss = {} \<Longrightarrow>
     held_ns a + sum_list (map span_ns ss) < 2 ^ 64 \<Longrightarrow> agg_machine.all_ok a ss"
proof (induction ss arbitrary: a)
  case (Cons s ss)
  then have ok: "admits a s" by (auto simp: admits_def intro: fresh_unknown)
  moreover have "agg_machine.all_ok c ss" if c: "absorb_step a s = Some c" for c
  proof (rule Cons.IH)
    note k = absorb_step_known [OF Cons.prems(1) ok c]
    show "agg_inv c" using agg_machine.progress [OF Cons.prems(1) ok] c by auto
    show "distinct (map ws_id ss)" using Cons.prems(2) by simp
    have "ws_id s \<notin> ws_id ` set ss" using Cons.prems(2) by simp
    then show "known_ids c \<inter> ws_id ` set ss = {}"
      by (rule disjoint_step [OF k(1) Cons.prems(3) [unfolded list.set image_insert]])
    show "held_ns c + sum_list (map span_ns ss) < 2 ^ 64" using k(2) Cons.prems(4) by simp
  qed
  ultimately show ?case by simp
qed simp

lemma new_known [simp]: "known_ids (agg_new n) = {}"
  by (auto simp: known_ids_def agg_new_def pool_ids_def ring_parents_def ring_set_def)

lemma new_held [simp]: "held_ns (agg_new n) = 0"
  by (simp add: held_ns_def agg_new_def ring_ns_def)

lemma fed_run:
  assumes "0 < n" "n < 2 ^ 32" "distinct (map ws_id ss)" "sum_list (map span_ns ss) < 2 ^ 64"
  shows "\<exists>a. run_opt absorb_step (agg_new n) ss = Some a \<and> agg_inv a \<and> history_budget a = n"
proof -
  have ok: "agg_machine.all_ok (agg_new n) ss"
    using assms by (intro distinct_run_ok agg_inv_new) auto
  then obtain a where a: "run_opt absorb_step (agg_new n) ss = Some a" "agg_inv a"
    using agg_machine.run_returns agg_inv_new [OF assms(1,2)] by blast
  with run_same [OF a(1) agg_inv_new [OF assms(1,2)] ok] show ?thesis by (simp add: agg_new_def)
qed

text \<open>C5. Feeding a fresh aggregator any sequence of spans with distinct ids, in any order
  (children before parents included), always returns; afterwards the invariant holds, the ring is
  within its budget and the pool within its cap.\<close>

theorem aggregator_run:
  assumes "0 < n" "n < 2 ^ 32" "distinct (map ws_id ss)" "sum_list (map span_ns ss) < 2 ^ 64"
  shows "\<exists>a. run_opt absorb_step (agg_new n) ss = Some a \<and> agg_inv a \<and>
    agg_len a \<le> n \<and> pending_len a \<le> max (n div 4) 1"
proof -
  obtain a where a: "run_opt absorb_step (agg_new n) ss = Some a" "agg_inv a" "history_budget a = n"
    using fed_run [OF assms] by blast
  moreover have "pending_len a \<le> pending_cap a" "budget_ok a"
    using agg_invD(2,8) [OF a(2)] by (auto simp: pool_ok_def)
  ultimately show ?thesis by (auto simp: budget_ok_def agg_len_def)
qed

text \<open>A sample: a child before its parent, then a grandchild, in a ring of two.\<close>

definition mk_span :: "u64 \<Rightarrow> u64 option \<Rightarrow> string \<Rightarrow> u64 \<Rightarrow> u64 \<Rightarrow> wire_span" where
  "mk_span i p n t1 t2 =
     \<lparr>ws_id = i, ws_parent_id = p, ws_name = n, ws_target = [], ws_level = WInfo,
      ws_fields = [(''k'', WStr n)], ws_events = [], ws_opened_at_ns = t1, ws_closed_at_ns = Some t2\<rparr>"

definition sample_spans :: "wire_span list" where
  "sample_spans = [mk_span 2 (Some 1) ''b'' 5 8, mk_span 1 None ''a'' 0 10, mk_span 3 (Some 2) ''c'' 5 6]"

lemma sample_spans_ok: "distinct (map ws_id sample_spans)" "sum_list (map span_ns sample_spans) < 2 ^ 64"
  by (simp_all add: sample_spans_def mk_span_def span_ns_def span_total_ns_def sat_sub_def)

definition sample_agg :: "nat \<Rightarrow> aggregator" where
  "sample_agg n = the (run_opt absorb_step (agg_new n) sample_spans)"

lemma sample_agg_inv: "0 < n \<Longrightarrow> n < 2 ^ 32 \<Longrightarrow> agg_inv (sample_agg n)"
  using fed_run [OF _ _ sample_spans_ok, of n] by (auto simp: sample_agg_def)

lemma run_admits:
  assumes "0 < n" "n < 2 ^ 32" "distinct (map ws_id (ss @ [s]))" "sum_list (map span_ns (ss @ [s])) < 2 ^ 64"
    and "run_opt absorb_step (agg_new n) ss = Some a"
  shows "admits a s"
proof -
  have "agg_machine.all_ok (agg_new n) (ss @ [s])"
    using assms by (intro distinct_run_ok agg_inv_new) auto
  then show ?thesis using assms(5) by (simp add: agg_machine.all_ok_append)
qed

lemma sample_admits: "0 < n \<Longrightarrow> n < 2 ^ 32 \<Longrightarrow> admits (sample_agg n) (mk_span 9 (Some 3) ''d'' 1 2)"
  using run_admits [of n sample_spans "mk_span 9 (Some 3) ''d'' 1 2"] fed_run [OF _ _ sample_spans_ok, of n]
  by (auto simp: sample_agg_def sample_spans_def mk_span_def span_ns_def span_total_ns_def sat_sub_def)

lemma aggregator_run_witness:
  "\<exists>a. run_opt absorb_step (agg_new 2) sample_spans = Some a \<and>
    agg_inv a \<and> agg_len a \<le> 2 \<and> pending_len a \<le> 1"
  using aggregator_run [OF _ _ sample_spans_ok, of 2] by simp

text \<open>Absorbing a closed span: the call returns; the ids it reports are distinct, are the span's
  or those of parked spans, and the ring becomes the last \<open>history_budget\<close> ids of the old ring
  followed by the reported ones (oldest evicted first).\<close>

theorem absorb_reports:
  assumes "agg_inv a" "admits a s"
  shows "\<exists>c new. absorb s a = Some (c, new) \<and> agg_inv c \<and> distinct new \<and>
    set new \<subseteq> insert (ws_id s) (set (pool_ids a)) \<and>
    order c = last_n (history_budget a) (order a @ new)"
  using absorb_inv [OF assms] by blast

lemma absorb_reports_witness:
  "\<exists>c new. absorb (mk_span 9 (Some 3) ''d'' 1 2) (sample_agg 2) = Some (c, new) \<and> agg_inv c \<and> distinct new \<and>
    set new \<subseteq> insert 9 (set (pool_ids (sample_agg 2))) \<and>
    order c = last_n (history_budget (sample_agg 2)) (order (sample_agg 2) @ new)"
  using absorb_reports [OF sample_agg_inv sample_admits, of 2] by (simp add: mk_span_def)

section \<open>Rows are a recomputation from the ring\<close>

text \<open>The specification of the rows: group the spans of the ring by bucket; a span's self time is
  its duration less that of its children in the ring, or 0.\<close>

definition ring_entries :: "aggregator \<Rightarrow> entry list" where
  "ring_entries a = map (the \<circ> by_id a) (order a)"

definition batch_kids_ns :: "aggregator \<Rightarrow> u64 \<Rightarrow> nat" where
  "batch_kids_ns a i =
     sum_list (map (span_ns \<circ> e_span) (filter (\<lambda>e. ws_parent_id (e_span e) = Some i) (ring_entries a)))"

definition batch_self_ns :: "aggregator \<Rightarrow> entry \<Rightarrow> nat" where
  "batch_self_ns a e = span_ns (e_span e) - batch_kids_ns a (ws_id (e_span e))"

definition batch_stats :: "aggregator \<Rightarrow> bucket_key \<Rightarrow> stack_stats" where
  "batch_stats a k =
     (let es = filter (\<lambda>e. e_bucket e = k) (ring_entries a);
          totals = map (span_ns \<circ> e_span) es;
          selfs = map (batch_self_ns a) es
      in \<lparr>st_count = of_nat (length es),
          st_total_min_ns = of_nat (Min (set totals)), st_total_max_ns = of_nat (Max (set totals)),
          st_total_sum_ns = of_nat (sum_list totals),
          st_self_min_ns = of_nat (Min (set selfs)), st_self_max_ns = of_nat (Max (set selfs)),
          st_self_sum_ns = of_nat (sum_list selfs)\<rparr>)"

definition batch_rows :: "aggregator \<Rightarrow> (bucket_key \<times> stack_stats) list" where
  "batch_rows a = map (\<lambda>k. (k, batch_stats a k))
     (sort_key (\<lambda>k. (bk_stack k, bk_splits k)) (remdups (map e_bucket (ring_entries a))))"

lemma ring_sum_list:
  assumes "ring_ok a"
  shows "ring_sum g (by_id a) = sum_list (map g (ring_entries a))"
proof -
  have "distinct (order a)" "set (order a) = dom (by_id a)" using assms by (auto simp: ring_ok_def)
  then show ?thesis
    by (simp add: ring_sum_def ring_entries_def sum_list_distinct_conv_sum_set comp_def)
qed

lemma ring_entries_mem: "ring_ok a \<Longrightarrow> e \<in> set (ring_entries a) \<longleftrightarrow> (\<exists>i. by_id a i = Some e)"
  by (force simp: ring_entries_def ring_ok_def dom_def image_iff)

lemma ring_entry_total: "ring_ok a \<Longrightarrow> e \<in> set (ring_entries a) \<Longrightarrow> unat (e_total_ns e) = span_ns (e_span e)"
  by (auto simp: ring_entries_mem span_ns_def dest: ring_entry)

lemma kids_total_batch: "ring_ok a \<Longrightarrow> kids_total (by_id a) i = batch_kids_ns a i"
proof -
  assume r: "ring_ok a"
  have "sum_list (map (\<lambda>e. if P e then unat (e_total_ns e) else 0) es) =
      sum_list (map (span_ns \<circ> e_span) (filter P es))" if "set es \<subseteq> set (ring_entries a)" for es P
    using that by (induction es) (auto simp: ring_entry_total [OF r])
  then show ?thesis
    by (simp add: kids_total_def ring_sum_list [OF r] batch_kids_ns_def)
qed

lemma self_batch:
  assumes "agg_inv a" "e \<in> set (ring_entries a)"
  shows "unat (e_self_ns e) = batch_self_ns a e"
proof -
  note D = agg_invD [OF assms(1)]
  obtain i where i: "by_id a i = Some e" using assms(2) by (auto simp: ring_entries_mem [OF D(1)])
  then have "ws_id (e_span e) = i" using ring_entry [OF D(1)] by blast
  moreover have "e_self_ns e = sat_sub (e_total_ns e) (child_sum_for a i)"
    using D(5) i by (simp add: self_ok_def)
  moreover have "unat (child_sum_for a i) = batch_kids_ns a i"
    using D(4) i by (simp add: sums_ok_def kids_total_batch [OF D(1)])
  ultimately show ?thesis
    using ring_entry_total [OF D(1) assms(2)] by (simp add: unat_sat_sub batch_self_ns_def)
qed

lemma contribs_list:
  assumes "ring_ok a"
  shows "contribs (by_id a) k =
    mset (map (\<lambda>e. (e_total_ns e, e_self_ns e)) (filter (\<lambda>e. e_bucket e = k) (ring_entries a)))"
proof -
  have "sum_list (map (\<lambda>e. if P e then {#g e#} else {#}) es) = mset (map g (filter P es))" for P g es
    by (induction es) auto
  then show ?thesis by (simp add: contribs_def ring_sum_list [OF assms])
qed

lemma sum_list_ucast:
  fixes f :: "'e \<Rightarrow> u64"
  shows "sum_list (map (\<lambda>e. (ucast (f e) :: u128)) es) = of_nat (sum_list (map (\<lambda>e. unat (f e)) es))"
  by (induction es) (auto simp: of_nat_unat)

lemma Min_of_nat_map:
  fixes f :: "'e \<Rightarrow> u64"
  assumes "es \<noteq> []"
  shows "Min (f ` set es) = of_nat (Min ((\<lambda>e. unat (f e)) ` set es))"
    and "Max (f ` set es) = of_nat (Max ((\<lambda>e. unat (f e)) ` set es))"
proof -
  have m: "mono (unat :: u64 \<Rightarrow> nat)" by (simp add: mono_def word_le_nat_alt)
  have ne: "finite (f ` set es)" "f ` set es \<noteq> {}" using assms by simp_all
  show "Min (f ` set es) = of_nat (Min ((\<lambda>e. unat (f e)) ` set es))"
    using arg_cong [OF mono_Min_commute [OF m ne], of "of_nat :: nat \<Rightarrow> u64"]
    by (simp add: image_image)
  show "Max (f ` set es) = of_nat (Max ((\<lambda>e. unat (f e)) ` set es))"
    using arg_cong [OF mono_Max_commute [OF m ne], of "of_nat :: nat \<Rightarrow> u64"]
    by (simp add: image_image)
qed

lemma stats_batch:
  assumes inv: "agg_inv a" and b: "bucket_rep b (contribs (by_id a) k)" and ne: "contribs (by_id a) k \<noteq> {#}"
  shows "to_stack_stats b = batch_stats a k"
proof -
  note D = agg_invD [OF inv]
  define es where "es = filter (\<lambda>e. e_bucket e = k) (ring_entries a)"
  have C: "contribs (by_id a) k = mset (map (\<lambda>e. (e_total_ns e, e_self_ns e)) es)"
    by (simp add: contribs_list [OF D(1)] es_def)
  then have "es \<noteq> []" using ne by auto
  have sub: "set es \<subseteq> set (ring_entries a)" by (auto simp: es_def)
  have t: "map (\<lambda>e. unat (e_total_ns e)) es = map (span_ns \<circ> e_span) es"
    using sub ring_entry_total [OF D(1)] by auto
  have s: "map (\<lambda>e. unat (e_self_ns e)) es = map (batch_self_ns a) es"
    using sub self_batch [OF inv] by auto
  have fst: "image_mset fst (contribs (by_id a) k) = mset (map e_total_ns es)"
    and snd: "image_mset snd (contribs (by_id a) k) = mset (map e_self_ns es)"
    by (simp_all add: C image_mset.compositionality comp_def)
  have cnt: "counted (b_total_ms b) (mset (map e_total_ns es))" "counted (b_self_ms b) (mset (map e_self_ns es))"
    using b by (simp_all only: bucket_rep_def fst snd)
  have mm: "ms_min_max (b_total_ms b) = (Min (e_total_ns ` set es), Max (e_total_ns ` set es))"
    "ms_min_max (b_self_ms b) = (Min (e_self_ns ` set es), Max (e_self_ns ` set es))"
    using counted_min_max [OF cnt(1)] counted_min_max [OF cnt(2)] \<open>es \<noteq> []\<close> by simp_all
  have sums: "b_count b = of_nat (length es)"
    "b_total_sum b = sum_list (map (\<lambda>e. ucast (e_total_ns e)) es)"
    "b_self_sum b = sum_list (map (\<lambda>e. ucast (e_self_ns e)) es)"
    using b by (simp_all add: bucket_rep_def C image_mset.compositionality comp_def
        flip: sum_mset_sum_list)
  have sets: "(\<lambda>e. unat (e_total_ns e)) ` set es = set (map (span_ns \<circ> e_span) es)"
    "(\<lambda>e. unat (e_self_ns e)) ` set es = set (map (batch_self_ns a) es)"
    by (simp_all flip: t s)
  show ?thesis
    unfolding to_stack_stats_def batch_stats_def es_def [symmetric] Let_def mm prod.case
    by (simp add: sums sum_list_ucast t s Min_of_nat_map [OF \<open>es \<noteq> []\<close>] sets del: set_map)
qed

lemma map_insort: "map h (insort_key (\<lambda>x. f (h x)) x xs) = insort_key f (h x) (map h xs)"
  by (induction xs) auto

lemma map_sort: "map h (sort_key (\<lambda>x. f (h x)) xs) = sort_key f (map h xs)"
  by (induction xs) (auto simp: map_insort)

lemma sort_key_unique:
  assumes "distinct xs" "distinct ys" "set xs = set ys" "inj_on f (set xs)"
  shows "sort_key f xs = sort_key f ys"
proof -
  have "map f (sort_key f xs) = map f (sort_key f ys)"
  proof (rule sorted_distinct_set_unique)
    show "distinct (map f (sort_key f xs))" "distinct (map f (sort_key f ys))"
      using assms by (auto simp: distinct_map)
  qed (use assms in auto)
  then show ?thesis
    using assms by (auto simp: inj_on_map_eq_map)
qed

lemma bucket_key_inj: "inj_on (\<lambda>k :: bucket_key. (bk_stack k, bk_splits k)) A"
  by (auto intro: inj_onI)

lemma rows_batch:
  assumes "agg_inv a"
  shows "rows a = batch_rows a"
proof -
  note D = agg_invD [OF assms]
  let ?p = "\<lambda>k :: bucket_key. (bk_stack k, bk_splits k)" and ?h = "\<lambda>k. (k, batch_stats a k)"
  let ?K = "map fst (buckets a)" and ?E = "remdups (map e_bucket (ring_entries a))"
  have tab: "distinct ?K" "\<And>k. case map_of (buckets a) k of None \<Rightarrow> contribs (by_id a) k = {#}
      | Some s \<Rightarrow> contribs (by_id a) k \<noteq> {#} \<and> bucket_rep s (contribs (by_id a) k)"
    using D(6) by (auto simp: table_of_def table_ok_def)
  have "(k, to_stack_stats s) = ?h k" if "(k, s) \<in> set (buckets a)" for k s
    using that tab(2) [of k] stats_batch [OF assms, of s k] map_of_is_SomeI [OF tab(1) that] by simp
  then have "map (\<lambda>(k, s). (k, to_stack_stats s)) (buckets a) = map ?h ?K" by auto
  then have "rows a = sort_key (\<lambda>r. ?p (fst r)) (map ?h ?K)" by (simp only: rows_def)
  also have "\<dots> = map ?h (sort_key (\<lambda>k. ?p (fst (?h k))) ?K)" by (rule map_sort [symmetric])
  also have "sort_key (\<lambda>k. ?p (fst (?h k))) ?K = sort_key ?p ?K" by simp
  also have "\<dots> = sort_key ?p ?E"
  proof (rule sort_key_unique [OF tab(1) _ _ bucket_key_inj])
    have "k \<in> set ?K \<longleftrightarrow> contribs (by_id a) k \<noteq> {#}" for k
      using tab(2) [of k] map_of_eq_None_iff [of "buckets a" k] by (auto split: option.splits)
    then show "set ?K = set ?E"
      by (intro set_eqI) (auto simp: contribs_list [OF D(1)] filter_empty_conv simp del: set_map;
          auto)
  qed simp
  finally show ?thesis by (simp add: batch_rows_def)
qed

text \<open>C4. The rows shown are exactly those a recomputation from the spans in the ring gives: one per
  bucket in use, sorted by stack then splits, with the count, extremes and sums of total and self
  time. The incremental bookkeeping (child sums, counted multisets, evictions) never drifts.\<close>

theorem rows_recompute:
  assumes "agg_inv a"
  shows "rows a = batch_rows a"
  using assms by (rule rows_batch)

lemma rows_recompute_witness:
  "rows (sample_agg 2) = batch_rows (sample_agg 2) \<and> order (sample_agg 2) = [2, 3]"
proof -
  have "order (sample_agg 2) = [2, 3]" by code_simp
  with rows_recompute [OF sample_agg_inv, of 2] show ?thesis by simp
qed

section \<open>Averages\<close>

lemma sum_bounds:
  fixes xs :: "nat list"
  assumes "xs \<noteq> []"
  shows "length xs * Min (set xs) \<le> sum_list xs" "sum_list xs \<le> length xs * Max (set xs)"
proof -
  have "\<forall>x \<in> set xs. Min (set xs) \<le> x \<and> x \<le> Max (set xs)" by simp
  moreover have "(\<forall>x \<in> set ys. lo \<le> x \<and> x \<le> hi) \<Longrightarrow>
      length ys * lo \<le> sum_list ys \<and> sum_list ys \<le> length ys * hi" for lo hi and ys :: "nat list"
    by (induction ys) auto
  ultimately show "length xs * Min (set xs) \<le> sum_list xs" "sum_list xs \<le> length xs * Max (set xs)"
    by blast+
qed

text \<open>The division of the code, on the exact sum of a list of 64-bit values.\<close>

lemma avg_word:
  fixes xs :: "nat list"
  assumes "xs \<noteq> []" "length xs < 2 ^ 32" "\<forall>x \<in> set xs. x < 2 ^ 64"
  shows "unat (ucast ((of_nat (sum_list xs) :: u128) div ucast (of_nat (length xs) :: u64)) :: u64) =
      sum_list xs div length xs"
    and "Min (set xs) \<le> sum_list xs div length xs" "sum_list xs div length xs \<le> Max (set xs)"
proof -
  have l: "0 < length xs" using assms(1) by simp
  have "Max (set xs) < 2 ^ 64" using assms(1,3) by simp
  have "sum_list xs \<le> length xs * Max (set xs)" by (rule sum_bounds [OF assms(1)])
  also have "\<dots> < 2 ^ 32 * 2 ^ 64"
    using assms(2) \<open>Max (set xs) < 2 ^ 64\<close> by (intro mult_strict_mono) auto
  finally have sum: "sum_list xs < 2 ^ 128" by simp
  have len: "unat (ucast (of_nat (length xs) :: u64) :: u128) = length xs"
    using assms(2) by (simp add: unsigned_ucast_eq unat_of_nat take_bit_nat_eq_self)
  show lo: "Min (set xs) \<le> sum_list xs div length xs"
    using sum_bounds(1) [OF assms(1)] l by (simp add: less_eq_div_iff_mult_less_eq mult.commute)
  have "sum_list xs div length xs \<le> length xs * Max (set xs) div length xs"
    by (intro div_le_mono sum_bounds assms)
  then show hi: "sum_list xs div length xs \<le> Max (set xs)" using l by simp
  then have "sum_list xs div length xs < 2 ^ 64" using \<open>Max (set xs) < 2 ^ 64\<close> by linarith
  moreover have "unat ((of_nat (sum_list xs) :: u128) div ucast (of_nat (length xs) :: u64)) =
      sum_list xs div length xs"
    using sum by (simp add: unat_div len unat_of_nat)
  ultimately show "unat (ucast ((of_nat (sum_list xs) :: u128) div ucast (of_nat (length xs) :: u64)) :: u64) =
      sum_list xs div length xs"
    by (simp add: unsigned_ucast_eq take_bit_nat_eq_self)
qed

lemma sum_list_mono_map: "(\<And>e. e \<in> set es \<Longrightarrow> (f e :: nat) \<le> g e) \<Longrightarrow> sum_list (map f es) \<le> sum_list (map g es)"
  by (induction es) (auto simp: add_mono)

text \<open>In every row the count is positive, the sums are exact, the averages lie between the
  extremes, and the average self time is at most the average total time.\<close>

theorem row_averages:
  assumes "agg_inv a" "(k, st) \<in> set (rows a)"
  shows "0 < unat (st_count st) \<and>
    st_total_min_ns st \<le> total_avg_ns st \<and> total_avg_ns st \<le> st_total_max_ns st \<and>
    st_self_min_ns st \<le> self_avg_ns st \<and> self_avg_ns st \<le> st_self_max_ns st \<and>
    self_avg_ns st \<le> total_avg_ns st"
proof -
  note D = agg_invD [OF assms(1)]
  define es where "es = filter (\<lambda>e. e_bucket e = k) (ring_entries a)"
  define ts where "ts = map (span_ns \<circ> e_span) es"
  define ss where "ss = map (batch_self_ns a) es"
  have "(k, st) \<in> set (batch_rows a)" using assms rows_batch by simp
  then have st: "st = batch_stats a k" and "k \<in> e_bucket ` set (ring_entries a)"
    by (auto simp: batch_rows_def)
  then have ne: "es \<noteq> []" "ts \<noteq> []" "ss \<noteq> []" by (auto simp: es_def ts_def ss_def filter_empty_conv)
  have "length es \<le> length (order a)" by (simp add: es_def ring_entries_def length_filter_le [THEN order_trans])
  then have len: "length ts < 2 ^ 32" "length ss < 2 ^ 32" "length es < 2 ^ 32"
    using D(10) by (simp_all add: ts_def ss_def contrib_limit_def)
  have le: "batch_self_ns a e \<le> span_ns (e_span e)" for e by (simp add: batch_self_ns_def)
  have tb: "\<forall>x \<in> set ts. x < 2 ^ 64" and sb: "\<forall>x \<in> set ss. x < 2 ^ 64"
    using unsigned_less [where 'b = 64 and 'a = nat] le
    by (auto simp: ts_def ss_def span_ns_def intro: le_less_trans)
  note T = avg_word [OF ne(2) len(1) tb] and S = avg_word [OF ne(3) len(2) sb]
  have cnt: "st_count st = of_nat (length es)" "unat (of_nat (length es) :: u64) = length es"
    "length ts = length es" "length ss = length es"
    using len(3) by (simp_all add: st batch_stats_def Let_def es_def [symmetric] unat_of_nat ts_def ss_def)
  then have nz: "st_count st \<noteq> 0" using ne(1) by (auto simp flip: unat_0 simp: unat_eq_0)
  have ta: "unat (total_avg_ns st) = sum_list ts div length ts"
    using T(1) nz cnt(1,3)
    by (simp add: total_avg_ns_def) (simp add: st batch_stats_def Let_def es_def [symmetric] ts_def [symmetric])
  have sa: "unat (self_avg_ns st) = sum_list ss div length ss"
    using S(1) nz cnt(1,4)
    by (simp add: self_avg_ns_def) (simp add: st batch_stats_def Let_def es_def [symmetric] ss_def [symmetric])
  have st': "st_total_min_ns st = of_nat (Min (set ts))" "st_total_max_ns st = of_nat (Max (set ts))"
    "st_self_min_ns st = of_nat (Min (set ss))" "st_self_max_ns st = of_nat (Max (set ss))"
    by (simp_all add: st batch_stats_def Let_def es_def ts_def ss_def)
  have extremes: "unat (of_nat (Min (set xs)) :: u64) = Min (set xs)"
    "unat (of_nat (Max (set xs)) :: u64) = Max (set xs)" if "\<forall>x \<in> set xs. x < 2 ^ 64" "xs \<noteq> []" for xs
  proof -
    have "Min (set xs) \<in> set xs" "Max (set xs) \<in> set xs" using that(2) by simp_all
    with that(1) show "unat (of_nat (Min (set xs)) :: u64) = Min (set xs)"
      "unat (of_nat (Max (set xs)) :: u64) = Max (set xs)" by (auto intro!: of_nat_inverse)
  qed
  have mt: "unat (st_total_min_ns st) = Min (set ts)" "unat (st_total_max_ns st) = Max (set ts)"
    using extremes [OF tb ne(2)] by (simp_all only: st')
  have ms: "unat (st_self_min_ns st) = Min (set ss)" "unat (st_self_max_ns st) = Max (set ss)"
    using extremes [OF sb ne(3)] by (simp_all only: st')
  have "sum_list ss \<le> sum_list ts" using le by (auto simp: ts_def ss_def intro!: sum_list_mono_map)
  then have "sum_list ss div length ss \<le> sum_list ts div length ts"
    using cnt by (simp add: div_le_mono)
  then show ?thesis
    using T(2,3) S(2,3) ne(1) cnt by (simp add: word_le_nat_alt ta sa mt ms)
qed

lemma row_averages_witness:
  "\<exists>k st. (k, st) \<in> set (rows (sample_agg 2)) \<and> 0 < unat (st_count st) \<and>
    st_total_min_ns st \<le> total_avg_ns st \<and> total_avg_ns st \<le> st_total_max_ns st \<and>
    st_self_min_ns st \<le> self_avg_ns st \<and> self_avg_ns st \<le> st_self_max_ns st \<and>
    self_avg_ns st \<le> total_avg_ns st"
proof -
  have "rows (sample_agg 2) \<noteq> []" by code_simp
  then obtain k st where "(k, st) \<in> set (rows (sample_agg 2))" by (cases "rows (sample_agg 2)") auto
  with row_averages [OF sample_agg_inv this] show ?thesis by auto
qed

section \<open>A history budget of zero\<close>

text \<open>C38. An aggregator with a history budget of zero never returns from absorbing a span that can
  be placed: the loop that makes room finds the ring at its limit for ever.\<close>

theorem zero_budget_diverges:
  assumes "history_budget a = 0" "ws_closed_at_ns s \<noteq> None" "ws_parent_id s = None"
  shows "absorb s a = None"
proof -
  have "make_room a = None" using make_room_some_budget [of a] assms(1) by (cases "make_room a") auto
  then have "insert_resolved s k pin a = None" for k pin
    by (simp add: insert_resolved_def Let_def)
  then show ?thesis
    using assms by (simp add: absorb_def absorb_resolved.simps [of _ s] try_resolve_def)
qed

lemma zero_budget_diverges_witness:
  "history_budget (agg_new 0) = 0 \<and> absorb (mk_span 1 None ''a'' 0 10) (agg_new 0) = None"
  using zero_budget_diverges [of "agg_new 0" "mk_span 1 None ''a'' 0 10"]
  by (simp add: agg_new_def mk_span_def)

end
