(* ===== verification/AggSplits.thy ===== *)
theory AggSplits
  imports AggProps
begin

text \<open>
  Split values, changing the split keys, and snapshots of the aggregator.
\<close>

section \<open>Split values\<close>

lemma list_ex_key: "list_ex (\<lambda>p. fst p = k) out \<longleftrightarrow> map_of out k \<noteq> None"
  by (induction out) auto

lemma take_splits_spec:
  "distinct (map fst out) \<Longrightarrow>
    distinct (map fst (take_splits keys out fs)) \<and>
    map_of (take_splits keys out fs) k =
      (case map_of out k of Some v \<Rightarrow> Some v
       | None \<Rightarrow> if k \<in> keys then map_option to_string_value (map_of fs k) else None)"
proof (induction keys out fs rule: take_splits.induct)
  case (1 keys out)
  then show ?case by (auto split: option.split)
next
  case (2 keys out f v fs)
  show ?case
  proof (cases "f \<in> keys \<and> map_of out f = None")
    case True
    then have "f \<notin> fst ` set out" by (simp add: map_of_eq_None_iff)
    then have "distinct (map fst (out @ [(f, to_string_value v)]))" using 2(3) by auto
    moreover have "map_of (out @ [(f, to_string_value v)]) k =
        (case map_of out k of Some v \<Rightarrow> Some v | None \<Rightarrow> if k = f then Some (to_string_value v) else None)"
      by (auto simp: map_add_def split: option.split)
    ultimately show ?thesis
      using 2(1) True by (auto simp: list_ex_key split: option.split)
  next
    case False
    then show ?thesis using 2(2,3) by (auto simp: list_ex_key split: option.split)
  qed
qed

lemma inherit_splits_spec:
  "distinct (map fst out) \<Longrightarrow>
    distinct (map fst (inherit_splits out ps)) \<and>
    map_of (inherit_splits out ps) k = (case map_of out k of Some v \<Rightarrow> Some v | None \<Rightarrow> map_of ps k)"
proof (induction out ps rule: inherit_splits.induct)
  case (1 out)
  then show ?case by (auto split: option.split)
next
  case (2 out f v ps)
  show ?case
  proof (cases "map_of out f")
    case None
    then have "f \<notin> fst ` set out" by (simp add: map_of_eq_None_iff)
    then have "distinct (map fst (out @ [(f, v)]))" using 2(3) by auto
    moreover have "map_of (out @ [(f, v)]) k =
        (case map_of out k of Some v \<Rightarrow> Some v | None \<Rightarrow> if k = f then Some v else None)"
      by (auto simp: map_add_def split: option.split)
    ultimately show ?thesis
      using 2(1) None by (auto simp: list_ex_key split: option.split)
  next
    case (Some w)
    then show ?thesis using 2(2,3) by (auto simp: list_ex_key split: option.split)
  qed
qed

lemma map_of_sort_key: "distinct (map fst xs) \<Longrightarrow> map_of (sort_key fst xs) = map_of (xs :: ('k::linorder \<times> 'v) list)"
  by (subst map_of_inject_set) (auto simp: distinct_map)

definition splits_ok :: "(string \<times> string) list \<Rightarrow> bool" where
  "splits_ok xs \<longleftrightarrow> sorted (map fst xs) \<and> distinct (map fst xs)"

lemma splits_eqI:
  assumes "splits_ok xs" "splits_ok ys" "map_of xs = map_of ys"
  shows "xs = ys"
proof -
  have d: "distinct (map fst xs)" "distinct (map fst ys)" using assms by (simp_all add: splits_ok_def)
  then have "set xs = set ys" using map_of_inject_set [OF d] assms(3) by simp
  moreover from this have "inj_on fst (set xs \<union> set ys)" using d by (simp add: distinct_map)
  ultimately show ?thesis
    using assms by (intro map_sorted_distinct_set_unique [of fst]) (auto simp: splits_ok_def)
qed

lemma collect_splits_facts:
  "sorted (map fst (collect_splits s ps keys)) \<and> distinct (map fst (collect_splits s ps keys)) \<and>
   map_of (collect_splits s ps keys) k =
     (case (if k \<in> keys then map_option to_string_value (ws_field s k) else None) of
        Some v \<Rightarrow> Some v
      | None \<Rightarrow> (case ps of None \<Rightarrow> None | Some p \<Rightarrow> map_of p k))"
proof -
  define own where "own = take_splits keys [] (ws_fields s)"
  have own: "distinct (map fst own)"
    "map_of own k = (if k \<in> keys then map_option to_string_value (ws_field s k) else None)" for k
    using take_splits_spec [of "[]" keys "ws_fields s"] by (simp_all add: own_def ws_field_map_of)
  define xs where "xs = (case ps of None \<Rightarrow> own | Some p \<Rightarrow> inherit_splits own p)"
  have xs: "distinct (map fst xs)"
    "map_of xs k = (case map_of own k of Some v \<Rightarrow> Some v
      | None \<Rightarrow> (case ps of None \<Rightarrow> None | Some p \<Rightarrow> map_of p k))" for k
    using own(1) inherit_splits_spec [OF own(1)]
    by (cases ps; simp add: xs_def split: option.split)+
  have "collect_splits s ps keys = sort_key fst xs"
    by (cases ps) (simp_all add: collect_splits_def own_def xs_def Let_def)
  with xs show ?thesis by (simp add: own(2) map_of_sort_key distinct_map)
qed

lemmas collect_splits_map = conjunct2 [OF conjunct2 [OF collect_splits_facts]]

text \<open>The split values of a span: sorted by key, one per key; a selected field of the span itself
  wins, and otherwise the value is inherited from the parent.\<close>

theorem collect_splits_nearest:
  "sorted (map fst (collect_splits s ps keys)) \<and> distinct (map fst (collect_splits s ps keys)) \<and>
   map_of (collect_splits s ps keys) k =
     (case (if k \<in> keys then map_option to_string_value (ws_field s k) else None) of
        Some v \<Rightarrow> Some v
      | None \<Rightarrow> (case ps of None \<Rightarrow> None | Some p \<Rightarrow> map_of p k))"
  by (rule collect_splits_facts)

lemma collect_splits_ok: "splits_ok (collect_splits s ps keys)"
  using collect_splits_facts [of s ps keys] by (simp add: splits_ok_def)

text \<open>\<open>rooted n a i\<close>: the walk from \<open>i\<close> over at most \<open>n\<close> ring entries reaches a root.\<close>

fun rooted :: "nat \<Rightarrow> aggregator \<Rightarrow> u64 \<Rightarrow> bool" where
  "rooted 0 a i = False"
| "rooted (Suc n) a i =
     (case by_id a i of
        None \<Rightarrow> False
      | Some e \<Rightarrow> (case ws_parent_id (e_span e) of None \<Rightarrow> True | Some p \<Rightarrow> rooted n a p))"

lemma walk_splits_spec:
  "links_ok a \<Longrightarrow> rooted n a i \<Longrightarrow> by_id a i = Some e \<Longrightarrow> distinct (map fst out) \<Longrightarrow>
    distinct (map fst (walk_splits a (split_keys a) n (Some i) out)) \<and>
    map_of (walk_splits a (split_keys a) n (Some i) out) k =
      (case map_of out k of Some v \<Rightarrow> Some v | None \<Rightarrow> map_of (bk_splits (e_bucket e)) k) \<and>
    splits_ok (bk_splits (e_bucket e))"
proof (induction n arbitrary: i e out)
  case (Suc n)
  let ?keys = "split_keys a" and ?s = "e_span e"
  let ?out = "take_splits ?keys out (ws_fields ?s)"
  note out = take_splits_spec [OF Suc.prems(4), of ?keys "ws_fields ?s"]
  show ?case
  proof (cases "ws_parent_id ?s")
    case None
    then have "e_bucket e = resolve_root a ?s"
      using Suc.prems(1,3) by (simp add: links_ok_def)
    moreover have "walk_splits a ?keys n None ?out = ?out" by (cases n) simp_all
    ultimately show ?thesis
      using Suc.prems(3) None out collect_splits_map [of ?s None ?keys k]
      by (auto simp: resolve_root_def collect_splits_ok ws_field_map_of split: option.split)
  next
    case (Some p)
    then have "rooted n a p" using Suc.prems(2,3) by simp
    then obtain pe where pe: "by_id a p = Some pe" by (cases n) (auto split: option.splits)
    then have b: "e_bucket e = resolve_with_parent a ?s pe"
      using Suc.prems(1,3) Some by (simp add: links_ok_def)
    note IH = Suc.IH [OF Suc.prems(1) \<open>rooted n a p\<close> pe conjunct1 [OF out]]
    show ?thesis
      using Suc.prems(3) Some b IH out collect_splits_map [of ?s "Some (bk_splits (e_bucket pe))" ?keys k]
      by (simp add: resolve_with_parent_def collect_splits_ok ws_field_map_of split: option.split)
  qed
qed simp

text \<open>C19. The graph view's own walk up the ring (\<open>collect_splits_for\<close>, at most 65 entries), asked for
  the aggregator's split keys, finds exactly the split values of the span's bucket whenever the
  walk reaches a root.\<close>

theorem walk_agrees_with_bucket:
  assumes "agg_inv a" "rooted 65 a i" "by_id a i = Some e"
  shows "collect_splits_for a i (split_keys a) = bk_splits (e_bucket e)"
proof (rule splits_eqI)
  note W = walk_splits_spec [OF agg_invD(7) [OF assms(1)] assms(2,3), of "[]"]
  show "splits_ok (bk_splits (e_bucket e))" using W by simp
  show "splits_ok (collect_splits_for a i (split_keys a))"
    using W by (simp add: splits_ok_def collect_splits_for_def distinct_map)
  show "map_of (collect_splits_for a i (split_keys a)) = map_of (bk_splits (e_bucket e))"
    using W by (simp add: fun_eq_iff collect_splits_for_def map_of_sort_key)
qed

lemma walk_agrees_with_bucket_witness:
  "\<exists>e. by_id (sample_agg 3) 3 = Some e \<and>
     collect_splits_for (sample_agg 3) 3 (split_keys (sample_agg 3)) = bk_splits (e_bucket e)"
proof -
  have "by_id (sample_agg 3) 3 \<noteq> None" "rooted 65 (sample_agg 3) 3" by code_simp+
  then show ?thesis using walk_agrees_with_bucket [OF sample_agg_inv, of 3] by auto
qed

lemma collect_splits_nearest_witness:
  "collect_splits (mk_span 1 None ''a'' 0 10) (Some [(''k'', ''z''), (''q'', ''y'')]) {''k''} =
    [(''k'', ''a''), (''q'', ''y'')]"
  by code_simp

section \<open>Changing the split keys\<close>

text \<open>The spans a rebuild keeps: roots, and spans whose parent is kept.\<close>

fun keep_rooted :: "aggregator \<Rightarrow> u64 list \<Rightarrow> u64 list \<Rightarrow> u64 list" where
  "keep_rooted a kept [] = kept"
| "keep_rooted a kept (i # is) =
     (if (case ring_parent (by_id a) i of None \<Rightarrow> True | Some p \<Rightarrow> p \<in> set kept)
      then keep_rooted a (kept @ [i]) is else keep_rooted a kept is)"

lemma keep_rooted_snoc:
  "keep_rooted a kept (xs @ [i]) =
     (let k = keep_rooted a kept xs in
      if (case ring_parent (by_id a) i of None \<Rightarrow> True | Some p \<Rightarrow> p \<in> set k) then k @ [i] else k)"
  by (induction a kept xs rule: keep_rooted.induct) (simp_all add: Let_def)

lemma keep_rooted_subset: "set (keep_rooted a kept xs) \<subseteq> set kept \<union> set xs"
  by (induction a kept xs rule: keep_rooted.induct) auto

lemma keep_rooted_length: "length (keep_rooted a kept xs) \<le> length kept + length xs"
  by (induction a kept xs rule: keep_rooted.induct) auto

definition span_of :: "aggregator \<Rightarrow> u64 \<Rightarrow> wire_span" where
  "span_of a i = e_span (the (by_id a i))"

lemma ring_spans_eq: "ring_ok a \<Longrightarrow> ring_spans a = map (span_of a) (order a)"
proof -
  assume "ring_ok a"
  then have "\<forall>i \<in> set xs. by_id a i \<noteq> None" if "set xs \<subseteq> set (order a)" for xs
    using that by (auto simp: ring_ok_def)
  moreover have "\<forall>i \<in> set xs. by_id a i \<noteq> None \<Longrightarrow>
      List.map_filter (span_by_id a) xs = map (span_of a) xs" for xs
    by (induction xs) (auto simp: span_by_id_def span_of_def map_filter_simps)
  ultimately show ?thesis by (metis ring_spans_def subset_refl)
qed

text \<open>The state of the rebuild after the prefix \<open>xs\<close> of the old ring.\<close>

definition rebuilt :: "aggregator \<Rightarrow> string set \<Rightarrow> aggregator \<Rightarrow> u64 list \<Rightarrow> bool" where
  "rebuilt a keys c xs \<longleftrightarrow> agg_inv c \<and> order c = keep_rooted a [] xs \<and>
     (\<forall>i e. by_id c i = Some e \<longrightarrow> i \<in> set xs \<and> e_span e = span_of a i) \<and>
     set (bt_values (pending c)) \<subseteq> span_of a ` set xs \<and>
     held_ns c \<le> sum_list (map (span_ns \<circ> span_of a) xs) \<and>
     split_keys c = keys \<and> history_budget c = history_budget a \<and>
     (keep_rooted a [] xs = xs \<longrightarrow> pending c = [])"

lemma span_of_id: "ring_ok a \<Longrightarrow> i \<in> set (order a) \<Longrightarrow> ws_id (span_of a i) = i \<and>
    ws_closed_at_ns (span_of a i) \<noteq> None \<and> ring_parent (by_id a) i = ws_parent_id (span_of a i)"
  unfolding span_of_def ring_parent_def ring_ok_def by force

lemma ring_ns_order: "ring_ok a \<Longrightarrow> ring_ns (by_id a) = sum_list (map (span_ns \<circ> span_of a) (order a))"
proof -
  assume r: "ring_ok a"
  have "map (\<lambda>i. unat (e_total_ns (the (by_id a i)))) (order a) = map (span_ns \<circ> span_of a) (order a)"
    using r ring_entry [OF r] by (auto simp: span_of_def span_ns_def ring_ok_def)
  moreover have "distinct (order a)" "set (order a) = dom (by_id a)" using r by (auto simp: ring_ok_def)
  then have "ring_ns (by_id a) = sum_list (map (\<lambda>i. unat (e_total_ns (the (by_id a i)))) (order a))"
    by (simp add: ring_ns_def ring_sum_def sum_list_distinct_conv_sum_set)
  ultimately show ?thesis by (simp only:)
qed

lemma rebuilt_step:
  assumes inv: "agg_inv a" and pre: "order a = xs @ i # is" and R: "rebuilt a keys c xs"
  shows "\<exists>d ins'. absorb_resolved (c, ins) (span_of a i) = Some (d, ins') \<and> rebuilt a keys d (xs @ [i])"
proof -
  note D = agg_invD [OF inv]
  let ?s = "span_of a i"
  have i: "i \<in> set (order a)" "i \<notin> set xs" "i \<notin> set is"
    using D(1) pre by (auto simp: ring_ok_def)
  note sid = span_of_id [OF D(1) i(1)]
  have c: "agg_inv c" "order c = keep_rooted a [] xs" "split_keys c = keys" "history_budget c = history_budget a"
    "\<And>j e. by_id c j = Some e \<Longrightarrow> j \<in> set xs \<and> e_span e = span_of a j"
    "set (bt_values (pending c)) \<subseteq> span_of a ` set xs"
    "held_ns c \<le> sum_list (map (span_ns \<circ> span_of a) xs)"
    "keep_rooted a [] xs = xs \<Longrightarrow> pending c = []"
    using R by (auto simp: rebuilt_def)
  have sorted: "sorted_wrt (\<lambda>i j. ring_parent (by_id a) i \<noteq> Some j) (order a)"
    using D(1) by (simp add: ring_ok_def)
  have before: "ws_parent_id (span_of a x) \<noteq> Some i" if "x \<in> set xs" for x
    using sorted pre that span_of_id [OF D(1), of x] by (auto simp: sorted_wrt_append)
  have fresh: "fresh c (ws_id ?s)"
  proof -
    have "by_id c i = None" using c(5) i(2) by (cases "by_id c i") auto
    moreover have "i \<notin> set (pool_ids c)"
    proof
      assume "i \<in> set (pool_ids c)"
      then obtain x where "x \<in> set xs" "ws_id (span_of a x) = i" using c(6) by (auto simp: pool_ids_def)
      then show False using span_of_id [OF D(1), of x] pre i(2) by auto
    qed
    moreover have "ring_parent (by_id c) j \<noteq> Some i" for j
      using c(5) [of j] before by (cases "by_id c j") (auto simp: ring_parent_def)
    ultimately show ?thesis using sid by (simp add: fresh_def)
  qed
  have "sum_list (map (span_ns \<circ> span_of a) xs) + span_ns ?s \<le> ring_ns (by_id a)"
    by (simp add: ring_ns_order [OF D(1)] pre)
  then have held: "held_ns c + span_ns ?s < 2 ^ 64"
    using c(7) D(9) by (simp add: held_ns_def)
  have closed: "ws_closed_at_ns ?s \<noteq> None" using sid by simp
  have in_ring: "by_id c p \<noteq> None \<longleftrightarrow> p \<in> set (keep_rooted a [] xs)" for p
    using ring_dom [OF c(1)] c(2) by (auto simp: dom_def)
  show ?thesis
  proof (cases "try_resolve c ?s")
    case (Inl p)
    let ?d = "park_pending p ?s c"
    from try_resolve_Inl [OF Inl] have p: "ws_parent_id ?s = Some p" "by_id c p = None" by simp_all
    note park = park_pending_inv [OF c(1) p closed fresh held]
    have "p \<notin> set (keep_rooted a [] xs)" using in_ring [of p] p(2) by simp
    then have keep: "keep_rooted a [] (xs @ [i]) = keep_rooted a [] xs"
      using p(1) sid by (simp add: keep_rooted_snoc Let_def)
    moreover have "keep_rooted a [] xs \<noteq> xs @ [i]"
      using keep_rooted_length [of a "[]" xs] by auto
    moreover have "set (bt_values (pending ?d)) \<subseteq> span_of a ` set (xs @ [i])"
      using set_mset_mono [OF park(6)] c(6) by auto
    moreover have "held_ns ?d \<le> sum_list (map (span_ns \<circ> span_of a) (xs @ [i]))"
      using park(7) c(7) by simp
    ultimately have "rebuilt a keys ?d (xs @ [i])"
      using park c by (auto simp: rebuilt_def)
    moreover have "absorb_resolved (c, ins) ?s = Some (?d, ins)"
      by (simp add: absorb_resolved.simps [of _ ?s] Inl)
    ultimately show ?thesis by blast
  next
    case (Inr r)
    then obtain k pin where r: "try_resolve c ?s = Inr (k, pin)" by (cases r) auto
    obtain d ws where d: "insert_resolved ?s k pin c = Some (d, ws)" "agg_inv d"
      "order d = drop (Suc (length (order c)) - history_budget c) (order c) @ [ws_id ?s]"
      and entries: "\<forall>j e. by_id d j = Some e \<longrightarrow> j = ws_id ?s \<and> e_span e = ?s \<or>
        (\<exists>e'. by_id c j = Some e' \<and> e_span e' = e_span e)"
      and pend: "pending d = bt_remove (ws_id ?s) (pending c)"
      and ws: "ws = (case bt_get (pending c) (ws_id ?s) of None \<Rightarrow> [] | Some ws \<Rightarrow> ws)"
      and heldd: "held_ns d + sum_list (map span_ns ws) \<le> held_ns c + span_ns ?s"
      and same: "split_keys d = split_keys c" "history_budget d = history_budget c"
      using insert_resolved_inv [OF c(1) r fresh closed held] by blast
    have "length (order c) \<le> length xs" using c(2) keep_rooted_length [of a "[]" xs] by simp
    also have "length xs < history_budget c"
      using D(8) pre c(4) by (simp add: budget_ok_def)
    finally have ord: "order d = keep_rooted a [] xs @ [i]" using d(3) c(2) sid by simp
    have "bt_get (pending c) i = None"
    proof (cases "bt_get (pending c) i")
      case (Some us)
      then obtain u where "u \<in> set us" using agg_invD(2) [OF c(1)] by (cases us) (auto simp: pool_ok_def)
      note u = pool_get [OF c(1) Some this]
      then obtain x where "x \<in> set xs" "u = span_of a x" using c(6) by auto
      with u(1) before show ?thesis by blast
    qed
    then have none: "bt_get (pending c) (ws_id ?s) = None" using sid by simp
    have keep: "keep_rooted a [] (xs @ [i]) = keep_rooted a [] xs @ [i]"
    proof -
      have "p \<in> set (keep_rooted a [] xs)" if "ring_parent (by_id a) i = Some p" for p
        using try_resolve_Inr [OF r] that sid in_ring [of p] by (auto simp: placed_def)
      then show ?thesis by (simp add: keep_rooted_snoc Let_def split: option.split)
    qed
    have "rebuilt a keys d (xs @ [i])"
      unfolding rebuilt_def
    proof (intro conjI allI impI)
      show "j \<in> set (xs @ [i])" "e_span e = span_of a j" if "by_id d j = Some e" for j e
        using entries [rule_format, OF that] c(5) sid by fastforce+
      show "set (bt_values (pending d)) \<subseteq> span_of a ` set (xs @ [i])"
        using c(6) pend none by (auto simp: bt_remove_absent)
      show "held_ns d \<le> sum_list (map (span_ns \<circ> span_of a) (xs @ [i]))"
        using heldd c(7) by simp
      show "pending d = []" if "keep_rooted a [] (xs @ [i]) = xs @ [i]"
        using that keep c(8) pend by simp
    qed (use d(2) ord keep same c in simp_all)
    moreover have "absorb_resolved (c, ins) ?s = Some (d, ins @ [ws_id ?s])"
      using d(1) ws none by (simp add: absorb_resolved.simps [of _ ?s] r)
    ultimately show ?thesis by blast
  qed
qed

lemma rebuilt_run:
  assumes inv: "agg_inv a" and c: "rebuilt a keys c []"
  shows "xs @ is = order a \<Longrightarrow>
    \<exists>d ins. run_opt absorb_resolved (c, []) (map (span_of a) xs) = Some (d, ins) \<and> rebuilt a keys d xs"
proof (induction xs arbitrary: "is" rule: rev_induct)
  case Nil
  then show ?case using c by simp
next
  case (snoc i xs)
  then obtain d ins where d: "run_opt absorb_resolved (c, []) (map (span_of a) xs) = Some (d, ins)"
    "rebuilt a keys d xs"
    by (metis append.assoc)
  have "order a = xs @ i # is" using snoc.prems by simp
  from rebuilt_step [OF inv this d(2), of ins] d(1) show ?case
    by (auto simp: run_opt_append)
qed

lemma rebuilt_start:
  assumes inv: "agg_inv a" and b: "order b = []" "by_id b = Map.empty" "child_sum b = Map.empty"
    "buckets b = []" "pending b = []" "pending_len b = 0" "pending_cap b = pending_cap a"
    "split_keys b = keys" "history_budget b = history_budget a"
  shows "rebuilt a keys b []"
  using agg_invD(8) [OF inv]
  by (simp add: rebuilt_def agg_inv_def ring_ok_def pool_ok_def pool_ids_def ids_ok_def sums_ok_def
      self_ok_def table_of_def table_ok_def links_ok_def budget_ok_def held_ns_def ring_ns_def
      contribs_def ring_parent_def b)

text \<open>The pool of \<open>a\<close> fits any rebuilt ring of \<open>a\<close>.\<close>

lemma rebuilt_ring_ns:
  assumes inv: "agg_inv a" and R: "rebuilt a keys c (order a)"
  shows "ring_ns (by_id c) \<le> ring_ns (by_id a)"
proof -
  note D = agg_invD [OF inv]
  have c: "agg_inv c" "order c = keep_rooted a [] (order a)"
    "\<And>j e. by_id c j = Some e \<Longrightarrow> e_span e = span_of a j"
    using R by (auto simp: rebuilt_def)
  note C = agg_invD [OF c(1)]
  have "ring_ns (by_id c) = sum_list (map (span_ns \<circ> span_of c) (order c))"
    by (rule ring_ns_order [OF C(1)])
  also have "map (span_ns \<circ> span_of c) (order c) = map (span_ns \<circ> span_of a) (order c)"
  proof (rule map_cong [OF refl])
    fix x assume "x \<in> set (order c)"
    then have "x \<in> dom (by_id c)" using ring_dom [OF c(1)] by simp
    then obtain e where "by_id c x = Some e" by auto
    with c(3) [OF this] show "(span_ns \<circ> span_of c) x = (span_ns \<circ> span_of a) x"
      by (simp add: span_of_def)
  qed
  also have "sum_list (map (span_ns \<circ> span_of a) (order c)) \<le> sum_list (map (span_ns \<circ> span_of a) (order a))"
  proof -
    have "set (order c) \<subseteq> set (order a)" "distinct (order c)" "distinct (order a)"
      using c(2) keep_rooted_subset [of a "[]" "order a"] C(1) D(1) by (auto simp: ring_ok_def)
    then have "mset (order c) \<subseteq># mset (order a)"
      by (metis List.finite_set mset_set_set subset_imp_msubset_mset_set)
    then show ?thesis by (rule sum_list_mset_mono)
  qed
  finally show ?thesis by (simp add: ring_ns_order [OF D(1)])
qed

lemma rebuilt_restore:
  assumes inv: "agg_inv a" and R: "rebuilt a keys c (order a)"
  shows "agg_inv (c\<lparr>pending := pending a, pending_len := pending_len a\<rparr>)"
proof -
  note D = agg_invD [OF inv]
  have c: "agg_inv c" "order c = keep_rooted a [] (order a)" "history_budget c = history_budget a"
    "\<And>j e. by_id c j = Some e \<Longrightarrow> j \<in> set (order a) \<and> e_span e = span_of a j"
    using R by (auto simp: rebuilt_def)
  note C = agg_invD [OF c(1)]
  let ?b = "c\<lparr>pending := pending a, pending_len := pending_len a\<rparr>"
  have none: "by_id c i = None" if "by_id a i = None" for i
    using c(4) [of i] that ring_dom [OF inv] by (cases "by_id c i") auto
  have par: "ring_parent (by_id c) j = Some p \<Longrightarrow> ring_parent (by_id a) j = Some p" for j p
  proof -
    assume "ring_parent (by_id c) j = Some p"
    then obtain e where "by_id c j = Some e" "ws_parent_id (e_span e) = Some p"
      by (auto simp: ring_parent_def split: option.splits)
    then show ?thesis using c(4) [of j e] span_of_id [OF D(1), of j] by simp
  qed
  have "pending_cap c = pending_cap a" using C(8) D(8) c(3) by (simp add: budget_ok_def)
  then have "pool_ok ?b" using D(2) none by (auto simp: pool_ok_def)
  moreover have "ids_ok ?b" using D(3) none par by (fastforce simp: ids_ok_def pool_ids_def)
  moreover have "held_ns ?b < 2 ^ 64"
    using rebuilt_ring_ns [OF inv R] D(9) by (simp add: held_ns_def)
  moreover have "ring_ok ?b" by (rule ring_ok_strip [OF C(1)]) simp_all
  moreover have "links_ok ?b" by (rule links_ok_strip [OF C(7)]) simp_all
  moreover have "sums_ok ?b" "self_ok ?b" "table_of ?b" "budget_ok ?b"
    using C(4,5,6,8) by (simp_all add: sums_ok_def self_ok_def table_of_def budget_ok_def child_sum_for_def)
  ultimately show ?thesis by (simp add: agg_inv_def)
qed

lemma rebuild_buckets_spec:
  assumes "agg_inv a"
  shows "\<exists>c d. rebuild_buckets (a\<lparr>split_keys := keys\<rparr>) = Some d \<and> rebuilt a keys c (order a) \<and>
    d = c\<lparr>pending := pending a, pending_len := pending_len a\<rparr>"
proof -
  let ?b = "a\<lparr>split_keys := keys, buckets := [], child_sum := Map.empty, order := [], by_id := Map.empty,
    pending := [], pending_len := 0\<rparr>"
  have "rebuilt a keys ?b []" by (rule rebuilt_start [OF assms]) simp_all
  from rebuilt_run [OF assms this, of "order a" "[]"] obtain c ins where
    c: "run_opt absorb_resolved (?b, []) (map (span_of a) (order a)) = Some (c, ins)" "rebuilt a keys c (order a)"
    by auto
  have "span_by_id (a\<lparr>split_keys := keys\<rparr>) = span_by_id a" by (simp add: span_by_id_def fun_eq_iff)
  then have "ring_spans (a\<lparr>split_keys := keys\<rparr>) = ring_spans a" by (simp add: ring_spans_def)
  then have "ring_spans (a\<lparr>split_keys := keys\<rparr>) = map (span_of a) (order a)"
    by (simp add: ring_spans_eq [OF agg_invD(1) [OF assms]])
  with c show ?thesis by (auto simp: rebuild_buckets_def)
qed

text \<open>Changing the split keys forgets spans and learns none.\<close>

lemma span_of_ring: "agg_inv a \<Longrightarrow> i \<in> set (order a) \<Longrightarrow> \<exists>e. by_id a i = Some e \<and> span_of a i = e_span e"
  using ring_dom [of a] by (cases "by_id a i") (auto simp: span_of_def)

lemma split_keys_forgets:
  assumes inv: "agg_inv a" and d: "set_split_keys keys a = Some d"
  shows "agg_inv d" "held_set d \<subseteq> held_set a" "known_ids d \<subseteq> known_ids a" "held_ns d \<le> held_ns a"
proof -
  have "agg_inv d \<and> held_set d \<subseteq> held_set a \<and> known_ids d \<subseteq> known_ids a \<and> held_ns d \<le> held_ns a"
  proof (cases "keys = split_keys a")
    case True
    with d inv show ?thesis by (simp add: set_split_keys_def)
  next
    case False
    with d rebuild_buckets_spec [OF inv, of keys] obtain c where R: "rebuilt a keys c (order a)"
      and dc: "d = c\<lparr>pending := pending a, pending_len := pending_len a\<rparr>"
      by (auto simp: set_split_keys_def)
    have c: "agg_inv c" "order c = keep_rooted a [] (order a)"
        "\<And>j e. by_id c j = Some e \<Longrightarrow> j \<in> set (order a) \<and> e_span e = span_of a j"
      using R by (auto simp: rebuilt_def)
    have spans: "ring_set d \<subseteq> ring_set a"
      unfolding ring_set_def dc using c(3) span_of_ring [OF inv] by fastforce
    then have "ring_parents d \<subseteq> ring_parents a" by (auto simp: ring_parents_def)
    moreover have "dom (by_id d) \<subseteq> dom (by_id a)"
      using c(3) ring_dom [OF inv] by (auto simp: dc)
    moreover have "pool_ids d = pool_ids a" "pending d = pending a" by (simp_all add: dc pool_ids_def)
    moreover have "held_ns d \<le> held_ns a"
      using rebuilt_ring_ns [OF inv R] by (simp add: held_ns_def dc)
    ultimately show ?thesis
      using spans rebuilt_restore [OF inv R] by (auto simp: dc [symmetric] held_set_def known_ids_def)
  qed
  then show "agg_inv d" "held_set d \<subseteq> held_set a" "known_ids d \<subseteq> known_ids a" "held_ns d \<le> held_ns a"
    by simp_all
qed

text \<open>Changing the split keys always returns and keeps the invariant, the pool and the order of
  the ring, but it keeps only the spans whose ancestors are still in the ring up to a root: a span
  whose parent was evicted is lost.\<close>

theorem set_split_keys_keeps_rooted:
  assumes "agg_inv a" "keys \<noteq> split_keys a"
  shows "\<exists>d. set_split_keys keys a = Some d \<and> agg_inv d \<and> split_keys d = keys \<and>
    pending d = pending a \<and> order d = keep_rooted a [] (order a) \<and>
    (\<forall>i \<in> set (order d). span_by_id d i = span_by_id a i)"
proof -
  obtain c d where d: "rebuild_buckets (a\<lparr>split_keys := keys\<rparr>) = Some d" "rebuilt a keys c (order a)"
    "d = c\<lparr>pending := pending a, pending_len := pending_len a\<rparr>"
    using rebuild_buckets_spec [OF assms(1)] by blast
  have inv: "agg_inv d" using rebuilt_restore [OF assms(1) d(2)] d(3) by simp
  have "span_by_id d i = span_by_id a i" if "i \<in> set (order d)" for i
  proof -
    have "i \<in> dom (by_id d)" using ring_dom [OF inv] that by simp
    then obtain e where e: "by_id d i = Some e" by auto
    then have "i \<in> set (order a) \<and> e_span e = span_of a i" using d(2,3) by (auto simp: rebuilt_def)
    moreover from this have "by_id a i \<noteq> None" using ring_dom [OF assms(1)] by auto
    ultimately show ?thesis using e by (auto simp: span_by_id_def span_of_def)
  qed
  then show ?thesis
    using assms(2) d inv by (auto simp: set_split_keys_def rebuilt_def)
qed

text \<open>The loss is real: after an eviction, toggling a split key empties the table.\<close>

lemma set_split_keys_keeps_rooted_witness:
  "order (sample_agg 2) = [2, 3] \<and> keep_rooted (sample_agg 2) [] [2, 3] = [] \<and>
   (\<exists>d. set_split_keys {''k''} (sample_agg 2) = Some d \<and> agg_inv d \<and> order d = [] \<and> rows d = [])"
proof -
  have ord: "order (sample_agg 2) = [2, 3]" and keep: "keep_rooted (sample_agg 2) [] [2, 3] = []"
    by code_simp+
  have "split_keys (sample_agg 2) = {}" by code_simp
  then have "{''k''} \<noteq> split_keys (sample_agg 2)" by simp
  from set_split_keys_keeps_rooted [OF sample_agg_inv this] obtain d where
    d: "set_split_keys {''k''} (sample_agg 2) = Some d" "agg_inv d" "order d = []"
    using ord keep by auto
  moreover have "rows d = []" using rows_batch [OF d(2)] d(3) by (simp add: batch_rows_def ring_entries_def)
  ultimately show ?thesis using ord keep by blast
qed

text \<open>The ring is closed under parents: no ancestor of a ring span was evicted.\<close>

definition parents_in_ring :: "aggregator \<Rightarrow> bool" where
  "parents_in_ring a \<longleftrightarrow> list_all (\<lambda>i. case ws_parent_id (span_of a i) of None \<Rightarrow> True
     | Some p \<Rightarrow> by_id a p \<noteq> None) (order a)"

lemma parent_before:
  assumes inv: "agg_inv a" and closed: "parents_in_ring a" and pre: "order a = xs @ i # is"
    and p: "ws_parent_id (span_of a i) = Some p"
  shows "p \<in> set xs"
proof -
  note D = agg_invD(1) [OF inv]
  have i: "i \<in> set (order a)" using pre by simp
  have "by_id a p \<noteq> None" using closed p i by (auto simp: parents_in_ring_def list_all_iff)
  then have "p \<in> set (order a)" using ring_dom [OF inv] by auto
  moreover have rp: "ring_parent (by_id a) i = Some p" using span_of_id [OF D i] p by simp
  then have "p \<noteq> i" "p \<notin> set is" using D pre by (auto simp: ring_ok_def sorted_wrt_append)
  ultimately show ?thesis using pre by simp
qed

lemma keep_rooted_all:
  assumes inv: "agg_inv a" and closed: "parents_in_ring a"
  shows "xs @ is = order a \<Longrightarrow> keep_rooted a [] xs = xs"
proof (induction xs arbitrary: "is" rule: rev_induct)
  case (snoc i xs)
  then have keep: "keep_rooted a [] xs = xs" by (metis append.assoc)
  have pre: "order a = xs @ i # is" using snoc.prems by simp
  then have "ring_parent (by_id a) i = ws_parent_id (span_of a i)"
    using span_of_id [OF agg_invD(1) [OF inv], of i] by simp
  then show ?case
    using parent_before [OF inv closed pre]
    by (simp add: keep_rooted_snoc keep Let_def split: option.split)
qed simp

text \<open>As long as no ancestor of a ring span was evicted, changing the split keys loses nothing:
  ring, spans and pool are unchanged.\<close>

theorem set_split_keys_lossless:
  assumes "agg_inv a" "parents_in_ring a"
  shows "\<exists>d. set_split_keys keys a = Some d \<and> agg_inv d \<and> split_keys d = keys \<and>
    pending d = pending a \<and> order d = order a \<and>
    (\<forall>i \<in> set (order a). span_by_id d i = span_by_id a i)"
proof (cases "keys = split_keys a")
  case True
  then show ?thesis using assms by (simp add: set_split_keys_def)
next
  case False
  obtain c d where d: "rebuild_buckets (a\<lparr>split_keys := keys\<rparr>) = Some d" "rebuilt a keys c (order a)"
    "d = c\<lparr>pending := pending a, pending_len := pending_len a\<rparr>"
    using rebuild_buckets_spec [OF assms(1)] by blast
  have inv: "agg_inv d" using rebuilt_restore [OF assms(1) d(2)] d(3) by simp
  have ord: "order d = order a"
    using d(2,3) keep_rooted_all [OF assms, of "order a" "[]"] by (simp add: rebuilt_def)
  have "span_by_id d i = span_by_id a i" if "i \<in> set (order a)" for i
  proof -
    have "i \<in> dom (by_id d)" "i \<in> dom (by_id a)"
      using ring_dom [OF inv] ring_dom [OF assms(1)] that ord by simp_all
    then obtain e e' where "by_id d i = Some e" "by_id a i = Some e'" by auto
    with d(2,3) show ?thesis by (auto simp: rebuilt_def span_by_id_def span_of_def)
  qed
  then show ?thesis
    using False d inv ord by (auto simp: set_split_keys_def rebuilt_def)
qed

lemma set_split_keys_lossless_witness:
  "parents_in_ring (sample_agg 3) \<and>
   (\<exists>d. set_split_keys {''k''} (sample_agg 3) = Some d \<and> agg_inv d \<and> order d = order (sample_agg 3))"
proof -
  have "parents_in_ring (sample_agg 3)" by code_simp
  with set_split_keys_lossless [OF sample_agg_inv this, of "{''k''}"] show ?thesis by auto
qed

section \<open>Snapshots\<close>

lemma buckets_agree:
  assumes a: "agg_inv a" "parents_in_ring a" and b: "agg_inv b" "order b = order a" "split_keys b = split_keys a"
    and spans: "\<And>i. i \<in> set (order a) \<Longrightarrow> span_of b i = span_of a i"
  shows "xs @ is = order a \<Longrightarrow> i \<in> set xs \<Longrightarrow> e_bucket (the (by_id b i)) = e_bucket (the (by_id a i))"
proof (induction xs arbitrary: i "is" rule: rev_induct)
  case (snoc j xs)
  have IH: "i \<in> set xs \<Longrightarrow> e_bucket (the (by_id b i)) = e_bucket (the (by_id a i))" for i
    using snoc.IH [of "j # is" i] snoc.prems(1) by simp
  have pre: "order a = xs @ j # is" using snoc.prems(1) by simp
  have "j \<in> dom (by_id a)" "j \<in> dom (by_id b)"
    using ring_dom [OF a(1)] ring_dom [OF b(1)] b(2) pre by simp_all
  then obtain ea eb where e: "by_id a j = Some ea" "by_id b j = Some eb" by auto
  have s: "e_span eb = e_span ea" "e_span ea = span_of a j" using spans [of j] pre e by (simp_all add: span_of_def)
  have "e_bucket eb = e_bucket ea"
  proof (cases "ws_parent_id (e_span ea)")
    case None
    then show ?thesis
      using agg_invD(7) [OF a(1)] agg_invD(7) [OF b(1)] e s b(3)
      by (simp add: links_ok_def resolve_root_def)
  next
    case (Some p)
    then have "p \<in> set xs" using parent_before [OF a pre] s by simp
    moreover from this have "p \<in> dom (by_id a)" "p \<in> dom (by_id b)"
      using ring_dom [OF a(1)] ring_dom [OF b(1)] b(2) pre by simp_all
    ultimately obtain pa pb where p: "by_id a p = Some pa" "by_id b p = Some pb" "e_bucket pb = e_bucket pa"
      using IH [of p] by auto
    have "e_bucket ea = resolve_with_parent a (e_span ea) pa" "e_bucket eb = resolve_with_parent b (e_span ea) pb"
      using agg_invD(7) [OF a(1)] agg_invD(7) [OF b(1)] e s p Some by (simp_all add: links_ok_def)
    then show ?thesis using resolve_cong [OF b(3) p(3)] by simp
  qed
  with IH snoc.prems(2) e show ?case by auto
qed simp

lemma batch_rows_agree:
  assumes "order b = order a" "\<And>i. i \<in> set (order a) \<Longrightarrow> e_span (the (by_id b i)) = e_span (the (by_id a i)) \<and>
      e_bucket (the (by_id b i)) = e_bucket (the (by_id a i))"
  shows "batch_rows b = batch_rows a"
proof -
  have pairs: "map (\<lambda>e. (e_span e, e_bucket e)) (ring_entries b) = map (\<lambda>e. (e_span e, e_bucket e)) (ring_entries a)"
    using assms by (simp add: ring_entries_def)
  have sel: "map (\<lambda>e. h (e_span e, e_bucket e)) (filter (\<lambda>e. P (e_span e, e_bucket e)) (ring_entries b)) =
      map (\<lambda>e. h (e_span e, e_bucket e)) (filter (\<lambda>e. P (e_span e, e_bucket e)) (ring_entries a))"
    for h :: "wire_span \<times> bucket_key \<Rightarrow> nat" and P
    using arg_cong [OF pairs, of "\<lambda>xs. map h (filter P xs)"] by (simp add: filter_map comp_def)
  have kids: "batch_kids_ns b = batch_kids_ns a"
    using sel [of "\<lambda>x. span_ns (fst x)" "\<lambda>x. ws_parent_id (fst x) = Some _"]
    by (simp add: batch_kids_ns_def fun_eq_iff comp_def)
  have self: "batch_self_ns b = batch_self_ns a" by (simp add: batch_self_ns_def kids fun_eq_iff)
  have "batch_stats b = batch_stats a"
  proof
    fix k
    have t: "map (span_ns \<circ> e_span) (filter (\<lambda>e. e_bucket e = k) (ring_entries b)) =
        map (span_ns \<circ> e_span) (filter (\<lambda>e. e_bucket e = k) (ring_entries a))"
      using sel [of "\<lambda>x. span_ns (fst x)" "\<lambda>x. snd x = k"] by (simp add: comp_def)
    have s: "map (batch_self_ns a) (filter (\<lambda>e. e_bucket e = k) (ring_entries b)) =
        map (batch_self_ns a) (filter (\<lambda>e. e_bucket e = k) (ring_entries a))"
      using sel [of "\<lambda>x. span_ns (fst x) - batch_kids_ns a (ws_id (fst x))" "\<lambda>x. snd x = k"]
      by (simp add: batch_self_ns_def [abs_def])
    show "batch_stats b k = batch_stats a k"
      using arg_cong [OF t, of length, unfolded length_map]
      unfolding batch_stats_def Let_def self t s by (simp only:)
  qed
  moreover have "map e_bucket (ring_entries b) = map e_bucket (ring_entries a)"
    using assms by (simp add: ring_entries_def)
  ultimately show ?thesis by (simp add: batch_rows_def)
qed

lemma bt_insert_last: "\<forall>k \<in> set (bt_keys m). k < p \<Longrightarrow> bt_insert p v m = m @ [(p, v)]"
  by (induction m) auto

lemma bt_insert_last_again: "\<forall>k \<in> set (bt_keys m). k < p \<Longrightarrow> bt_insert p v (m @ [(p, u)]) = m @ [(p, v)]"
  by (induction m) auto

lemma shrink_noop: "len \<le> cap \<Longrightarrow> shrink_pending m len cap = (m, len)"
  by (cases m) auto

lemma bt_get_last: "\<forall>k \<in> set (bt_keys m). k < (p :: _ :: linorder) \<Longrightarrow> bt_get m p = None \<and> bt_get (m @ [(p, u)]) p = Some u"
  by (induction m) auto

lemma park_list:
  assumes "\<forall>k \<in> set (bt_keys m). k < p" "pending_len c + length ws \<le> pending_cap c"
    and "pending c = (if us = [] then m else m @ [(p, us)])"
  shows "fold (park_pending p) ws c =
    (if us @ ws = [] then c else c\<lparr>pending := m @ [(p, us @ ws)], pending_len := pending_len c + length ws\<rparr>)"
  using assms(2,3)
proof (induction ws arbitrary: c us)
  case (Cons w ws)
  have "bt_push p w (pending c) = m @ [(p, us @ [w])]"
    using bt_get_last [OF assms(1), of us] Cons.prems(2)
    by (simp add: bt_push_def bt_insert_last [OF assms(1)] bt_insert_last_again [OF assms(1)])
  then have step: "park_pending p w c = c\<lparr>pending := m @ [(p, us @ [w])], pending_len := pending_len c + 1\<rparr>"
    using Cons.prems(1) by (simp add: park_pending_def shrink_noop)
  show ?case
    using Cons.IH [of "park_pending p w c" "us @ [w]"] Cons.prems(1) by (simp add: step)
qed simp

lemma park_table:
  assumes "bt_ok (m @ n)" "\<forall>x \<in> set n. snd x \<noteq> []" "pending_len c + bt_total n \<le> pending_cap c" "pending c = m"
  shows "fold (\<lambda>(p, ws) a. fold (park_pending p) ws a) n c =
    c\<lparr>pending := m @ n, pending_len := pending_len c + bt_total n\<rparr>"
  using assms
proof (induction n arbitrary: m c)
  case (Cons x n)
  obtain p ws where x: "x = (p, ws)" by (cases x)
  have "\<forall>k \<in> set (bt_keys m). k < p" using Cons.prems(1) x by (auto simp: bt_ok_def sorted_wrt_append)
  then have "fold (park_pending p) ws c = c\<lparr>pending := m @ [(p, ws)], pending_len := pending_len c + length ws\<rparr>"
    using park_list [of m p c ws "[]"] Cons.prems x by simp
  then show ?case
    using Cons.IH [of "m @ [x]" "fold (park_pending p) ws c"] Cons.prems x by simp
qed simp

text \<open>C18. Saving and loading an aggregator whose ring spans still have their ancestors restores the
  ring, its spans, the pool, the split keys and every row.\<close>

theorem snapshot_roundtrip:
  assumes "agg_inv a" "parents_in_ring a"
  shows "\<exists>b. from_snapshot (to_snapshot a) = Some b \<and> agg_inv b \<and> order b = order a \<and>
    (\<forall>i \<in> set (order a). span_by_id b i = span_by_id a i) \<and>
    pending b = pending a \<and> pending_len b = pending_len a \<and> split_keys b = split_keys a \<and> rows b = rows a"
proof -
  note D = agg_invD [OF assms(1)]
  let ?s = "(agg_new (history_budget a))\<lparr>split_keys := split_keys a\<rparr>"
  have start: "rebuilt a (split_keys a) ?s []"
    using D(8) by (intro rebuilt_start [OF assms(1)]) (simp_all add: agg_new_def budget_ok_def)
  have run: "\<exists>c. run_opt absorb_step ?s (map (span_of a) xs) = Some c \<and> rebuilt a (split_keys a) c xs"
    if "xs @ is = order a" for xs "is"
    using that
  proof (induction xs arbitrary: "is" rule: rev_induct)
    case Nil
    then show ?case using start by simp
  next
    case (snoc i xs)
    then obtain c where c: "run_opt absorb_step ?s (map (span_of a) xs) = Some c" "rebuilt a (split_keys a) c xs"
      by (metis append.assoc)
    have pre: "order a = xs @ i # is" using snoc.prems by simp
    have closed: "ws_closed_at_ns (span_of a i) \<noteq> None" using span_of_id [OF D(1), of i] pre by simp
    obtain d ins where "absorb_resolved (c, []) (span_of a i) = Some (d, ins)" "rebuilt a (split_keys a) d (xs @ [i])"
      using rebuilt_step [OF assms(1) pre c(2), of "[]"] by blast
    then have "absorb_step c (span_of a i) = Some d"
      using closed by (auto simp: absorb_step_def absorb_def)
    with c(1) \<open>rebuilt a (split_keys a) d (xs @ [i])\<close> show ?case by (simp add: run_opt_append)
  qed
  obtain c where c: "run_opt absorb_step ?s (map (span_of a) (order a)) = Some c"
    "rebuilt a (split_keys a) c (order a)"
    using run [of "order a" "[]"] by auto
  have keep: "keep_rooted a [] (order a) = order a" using keep_rooted_all [OF assms, of _ "[]"] by simp
  have pc: "pending c = []" "order c = order a" "agg_inv c" "split_keys c = split_keys a"
    "history_budget c = history_budget a"
    using c(2) keep by (simp_all add: rebuilt_def)
  have pool: "bt_ok (pending a)" "pending_len a = bt_total (pending a)" "bt_total (pending a) \<le> pending_cap c"
    using D(2,8) agg_invD(8) [OF pc(3)] pc(5) by (auto simp: pool_ok_def budget_ok_def)
  have ne: "\<forall>x \<in> set (pending a). snd x \<noteq> []"
    using D(2) bt_ok_distinct [OF pool(1)] by (force simp: pool_ok_def)
  let ?b = "c\<lparr>pending := pending a, pending_len := pending_len a\<rparr>"
  have "pending_len c = 0" using agg_invD(2) [OF pc(3)] pc(1) by (simp add: pool_ok_def)
  then have "fold (\<lambda>(p, ws) a. fold (park_pending p) ws a) (pending a) c = ?b"
    using park_table [of "[]" "pending a" c] pool ne pc(1) by simp
  then have load: "from_snapshot (to_snapshot a) = Some ?b"
    using c(1) by (simp add: from_snapshot_def to_snapshot_def ring_spans_eq [OF D(1)])
  have inv: "agg_inv ?b" by (rule rebuilt_restore [OF assms(1) c(2)])
  have spans: "i \<in> set (order a) \<Longrightarrow> \<exists>e e'. by_id c i = Some e \<and> by_id a i = Some e' \<and> e_span e = e_span e'" for i
  proof -
    assume "i \<in> set (order a)"
    then have "i \<in> dom (by_id c)" "i \<in> dom (by_id a)"
      using ring_dom [OF pc(3)] ring_dom [OF assms(1)] pc(2) by simp_all
    then obtain e e' where e: "by_id c i = Some e" "by_id a i = Some e'" by auto
    moreover have "e_span e = span_of a i" using c(2) e(1) by (simp add: rebuilt_def)
    ultimately show ?thesis by (auto simp: span_of_def)
  qed
  have "batch_rows ?b = batch_rows a"
  proof (rule batch_rows_agree)
    fix i assume i: "i \<in> set (order a)"
    have "e_bucket (the (by_id ?b i)) = e_bucket (the (by_id a i))"
    proof (rule buckets_agree [OF assms inv _ _ _ _ i, of "[]"])
      show "span_of ?b j = span_of a j" if "j \<in> set (order a)" for j
        using spans [OF that] by (auto simp: span_of_def)
    qed (use pc in simp_all)
    with spans [OF i] show "e_span (the (by_id ?b i)) = e_span (the (by_id a i)) \<and>
        e_bucket (the (by_id ?b i)) = e_bucket (the (by_id a i))"
      by auto
  qed (use pc in simp)
  then have "rows ?b = rows a" using rows_batch [OF inv] rows_batch [OF assms(1)] by simp
  moreover have "\<forall>i \<in> set (order a). span_by_id ?b i = span_by_id a i"
    using spans by (auto simp: span_by_id_def dest!: spans)
  ultimately show ?thesis using load inv pc by auto
qed

lemma snapshot_roundtrip_witness:
  "parents_in_ring (sample_agg 3) \<and>
   (\<exists>b. from_snapshot (to_snapshot (sample_agg 3)) = Some b \<and> rows b = rows (sample_agg 3) \<and>
      rows b \<noteq> [])"
proof -
  have "parents_in_ring (sample_agg 3)" "rows (sample_agg 3) \<noteq> []" by code_simp+
  with snapshot_roundtrip [OF sample_agg_inv this(1)] show ?thesis by auto
qed

end
