(* ===== verification/CachePredicate.thy ===== *)
theory CachePredicate
  imports Protocol
begin

text \<open>
  The filters of the span cache (\<open>tracing-cache/src/predicate.rs\<close>): the trait
  \<open>EnabledPredicate\<close> as the interface \<open>enabled_predicate\<close>, the level filter and the chance filter
  that wraps another one. Callsite metadata and span attributes of the \<open>tracing\<close> crate are
  records; the shared atomics are the arguments that hold the current setting; the random word a
  root span draws is an argument.
\<close>

section \<open>Metadata and attributes\<close>

record metadata =
  md_name :: string
  md_target :: string
  md_level :: level

datatype span_parent = Contextual | Root | Explicit u64

datatype interest = Never | Sometimes | Always

section \<open>Level filter\<close>

definition filter_to_u8 :: "level_filter \<Rightarrow> u8" where
  "filter_to_u8 f =
     (if f = OFF then 0
      else if f = AtMost ERROR then 1
      else if f = AtMost WARN then 2
      else if f = AtMost INFO then 3
      else if f = AtMost DEBUG then 4
      else 5)"

definition u8_to_filter :: "u8 \<Rightarrow> level_filter" where
  "u8_to_filter n =
     (if n = 0 then OFF
      else if n = 1 then AtMost ERROR
      else if n = 2 then AtMost WARN
      else if n = 3 then AtMost INFO
      else if n = 4 then AtMost DEBUG
      else AtMost TRACE)"

text \<open>The predicate's state is the byte in the atomic. \<open>level_handle_set\<close> also rebuilds the callsite
  interest cache of \<open>tracing\<close>, which keeps no state of this program.\<close>

definition level_with_filter :: "level_filter \<Rightarrow> u8" where
  "level_with_filter f = filter_to_u8 f"

definition level_new :: "level \<Rightarrow> u8" where
  "level_new l = level_with_filter (AtMost l)"

definition level_handle_set :: "level_filter \<Rightarrow> u8 \<Rightarrow> u8" where
  "level_handle_set f _ = filter_to_u8 f"

definition level_handle_get :: "u8 \<Rightarrow> level_filter" where
  "level_handle_get b = u8_to_filter b"

definition level_max_hint :: "u8 \<Rightarrow> level_filter option" where
  "level_max_hint b = Some (u8_to_filter b)"

definition level_callsite :: "u8 \<Rightarrow> metadata \<Rightarrow> interest" where
  "level_callsite b md =
     (let f = u8_to_filter b
      in if f = OFF then Never else if AtMost (md_level md) \<le> f then Always else Never)"

definition level_enabled :: "u8 \<Rightarrow> metadata \<Rightarrow> bool" where
  "level_enabled b md =
     (let f = u8_to_filter b in if f = OFF then False else AtMost (md_level md) \<le> f)"

definition level_new_span :: "u8 \<Rightarrow> span_parent \<Rightarrow> metadata \<Rightarrow> u64 \<Rightarrow> bool" where
  "level_new_span b parent md _ = level_enabled b md"

lemma u8_roundtrip [simp]: "u8_to_filter (filter_to_u8 f) = f"
proof (cases f)
  case (AtMost l)
  then show ?thesis by (cases l) (simp_all add: filter_to_u8_def u8_to_filter_def)
qed (simp add: filter_to_u8_def u8_to_filter_def)

section \<open>Chance filter\<close>

definition clamp_pct :: "f64 \<Rightarrow> f64" where
  "clamp_pct pct = (if f64_is_nan pct then Fin 0 else f64_clamp (Fin 0) (Fin 100) pct)"

definition chance_new :: "f64 \<Rightarrow> f64" where
  "chance_new pct = clamp_pct pct"

definition chance_handle_set :: "f64 \<Rightarrow> f64 \<Rightarrow> f64" where
  "chance_handle_set pct _ = clamp_pct pct"

definition chance_handle_get :: "f64 \<Rightarrow> f64" where
  "chance_handle_get bits = bits"

definition u64_max :: u64 where
  "u64_max = - 1"

definition chance_roll :: "u64 \<Rightarrow> f64" where
  "chance_roll r = f64_mul (f64_div (f64_of_u64 r) (f64_add (f64_of_u64 u64_max) (Fin 1))) (Fin 100)"

text \<open>\<open>new_span_enabled\<close> over an inner predicate; \<open>r\<close> is the word \<open>rand::random\<close> returns.\<close>

definition chance_new_span ::
  "(span_parent \<Rightarrow> metadata \<Rightarrow> u64 \<Rightarrow> bool) \<Rightarrow> f64 \<Rightarrow> span_parent \<Rightarrow> metadata \<Rightarrow> u64 \<Rightarrow> bool" where
  "chance_new_span inner pct parent md r =
     (if parent = Root \<and> f64_le pct (Fin 0) then False
      else if parent = Root \<and> f64_lt pct (Fin 100) \<and> f64_le pct (chance_roll r) then False
      else inner parent md r)"

definition chance_max_hint :: "level_filter option \<Rightarrow> level_filter option" where
  "chance_max_hint inner = inner"

definition chance_callsite :: "(metadata \<Rightarrow> interest) \<Rightarrow> metadata \<Rightarrow> interest" where
  "chance_callsite inner md = inner md"

definition chance_enabled :: "(metadata \<Rightarrow> bool) \<Rightarrow> metadata \<Rightarrow> bool" where
  "chance_enabled inner md = inner md"

section \<open>The interface\<close>

text \<open>What the subscriber, and \<open>tracing\<close>'s callsite cache, rely on.\<close>

locale enabled_predicate =
  fixes hint :: "level_filter option"
    and callsite :: "metadata \<Rightarrow> interest"
    and enabled :: "metadata \<Rightarrow> bool"
    and new_span :: "span_parent \<Rightarrow> metadata \<Rightarrow> u64 \<Rightarrow> bool"
  assumes never_off: "callsite md = Never \<Longrightarrow> \<not> enabled md"
    and always_on: "callsite md = Always \<Longrightarrow> enabled md"
    and span_enabled: "new_span p md r \<Longrightarrow> enabled md"
    and hint_bound: "hint = Some h \<Longrightarrow> enabled md \<Longrightarrow> AtMost (md_level md) \<le> h"
begin

text \<open>\<open>tracing\<close> skips a callsite whose cached interest is \<open>Never\<close> and asks \<open>enabled\<close> only for
  \<open>Sometimes\<close>: caching never changes the answer.\<close>

definition observed :: "metadata \<Rightarrow> bool" where
  "observed md = (case callsite md of Never \<Rightarrow> False | Always \<Rightarrow> True | Sometimes \<Rightarrow> enabled md)"

lemma observed_iff: "observed md = enabled md"
  using never_off always_on by (cases "callsite md") (auto simp: observed_def)

lemma span_within_hint: "hint = Some h \<Longrightarrow> new_span p md r \<Longrightarrow> AtMost (md_level md) \<le> h"
  using span_enabled hint_bound by blast

lemma span_not_never: "new_span p md r \<Longrightarrow> callsite md \<noteq> Never"
  using span_enabled never_off by blast

end

text \<open>Wrapping any such predicate in the chance filter gives such a predicate.\<close>

lemma chance_is_predicate:
  "enabled_predicate hint callsite enabled new_span \<Longrightarrow>
   enabled_predicate (chance_max_hint hint) (chance_callsite callsite) (chance_enabled enabled)
     (chance_new_span new_span pct)"
  unfolding enabled_predicate_def
  by (simp add: chance_max_hint_def chance_callsite_def chance_enabled_def chance_new_span_def)
    metis

interpretation level_pred: enabled_predicate "level_max_hint b" "level_callsite b" "level_enabled b"
    "level_new_span b" for b
  by unfold_locales
    (auto simp: level_max_hint_def level_callsite_def level_enabled_def level_new_span_def Let_def
      split: if_splits)

interpretation chance_pred: enabled_predicate "chance_max_hint (level_max_hint b)"
    "chance_callsite (level_callsite b)" "chance_enabled (level_enabled b)"
    "chance_new_span (level_new_span b) pct" for b pct
  by (rule chance_is_predicate) (rule level_pred.enabled_predicate_axioms)

section \<open>Properties\<close>

lemma clamp_pct_bounds: "f64_le (Fin 0) (clamp_pct x) \<and> f64_le (clamp_pct x) (Fin 100)"
proof -
  have le: "f64_le (Fin 0) (Fin 100)" by code_simp
  then show ?thesis
    using f64_clamp_bounds [of x "Fin 0" "Fin 100"]
    by (auto simp: clamp_pct_def f64_is_nan_def f64_le_refl)
qed

lemma clamp_pct_inside: "f64_le (Fin 0) x \<Longrightarrow> f64_le x (Fin 100) \<Longrightarrow> clamp_pct x = x"
  by (auto simp: clamp_pct_def f64_is_nan_def f64_clamp_inside)

text \<open>After a level is set through any handle, the handle reads it back, it is the published
  hint, and a callsite is cached as \<open>Always\<close> exactly when its level is at or below it and as
  \<open>Never\<close> otherwise, in agreement with \<open>enabled\<close>.\<close>

theorem level_filter_exact:
  "level_handle_get (level_handle_set f b) = f \<and>
   level_max_hint (level_handle_set f b) = Some f \<and>
   level_callsite (level_handle_set f b) md = (if AtMost (md_level md) \<le> f then Always else Never) \<and>
   level_enabled (level_handle_set f b) md = (AtMost (md_level md) \<le> f)"
proof -
  have "\<not> AtMost l \<le> OFF" for l by (cases l) (simp_all add: level_order)
  then show ?thesis
    by (auto simp: level_handle_get_def level_handle_set_def level_max_hint_def level_callsite_def
        level_enabled_def Let_def)
qed

text \<open>The chance filter decides root spans only, never passes one at 0 percent or below, leaves
  everything to the inner filter at 100, and with the same random word a root that passes at one
  percentage passes at every higher one.\<close>

theorem chance_gate:
  assumes "f64_le p q" "chance_new_span inner p parent md r"
  shows "chance_new_span inner q parent md r \<and> inner parent md r \<and>
    (parent = Root \<longrightarrow> \<not> f64_le p (Fin 0)) \<and>
    chance_new_span inner (Fin 100) parent md r = inner parent md r"
proof (cases "parent = Root")
  case False
  then show ?thesis using assms(2) by (simp add: chance_new_span_def)
next
  case True
  with assms(2) have p: "\<not> f64_le p (Fin 0)" "\<not> (f64_lt p (Fin 100) \<and> f64_le p (chance_roll r))"
    "inner parent md r"
    by (auto simp: chance_new_span_def split: if_splits)
  have "\<not> f64_le q (Fin 0)" using p(1) f64_le_trans [OF assms(1)] by blast
  moreover have "\<not> (f64_lt q (Fin 100) \<and> f64_le q (chance_roll r))"
    using p(2) f64_le_trans [OF assms(1)] f64_le_lt_trans [OF assms(1)] by blast
  moreover have "\<not> f64_le (Fin 100) (Fin 0)" by (simp add: f64_le_def f64_lt_def f64_eq_def f64_is_finite_def)
  ultimately show ?thesis using True p by (simp add: chance_new_span_def)
qed

lemma chance_gate_witness:
  "chance_new_span (\<lambda>_ _ _. True) (Fin 30) Root \<lparr>md_name = ''a'', md_target = ''t'', md_level = INFO\<rparr> 4611686018427387904 \<and>
   chance_new_span (\<lambda>_ _ _. True) (Fin 70) Root \<lparr>md_name = ''a'', md_target = ''t'', md_level = INFO\<rparr> 4611686018427387904 \<and>
   \<not> chance_new_span (\<lambda>_ _ _. True) (Fin 20) Root \<lparr>md_name = ''a'', md_target = ''t'', md_level = INFO\<rparr> 4611686018427387904"
proof -
  have "f64_le (Fin 30) (Fin 70)"
    "chance_new_span (\<lambda>_ _ _. True) (Fin 30) Root \<lparr>md_name = ''a'', md_target = ''t'', md_level = INFO\<rparr> 4611686018427387904"
    "\<not> chance_new_span (\<lambda>_ _ _. True) (Fin 20) Root \<lparr>md_name = ''a'', md_target = ''t'', md_level = INFO\<rparr> 4611686018427387904"
    by code_simp+
  with chance_gate [OF this(1,2)] show ?thesis by simp
qed

text \<open>The percentage a handle stores is always within 0 and 100, and a roll can be exactly 100:
  the largest random word rounds up to the whole range.\<close>

theorem chance_range:
  "f64_le (Fin 0) (chance_handle_get (chance_handle_set x b)) \<and>
   f64_le (chance_handle_get (chance_handle_set x b)) (Fin 100) \<and>
   chance_roll u64_max = Fin 100"
proof -
  have "chance_roll u64_max = Fin 100" by code_simp
  then show ?thesis using clamp_pct_bounds [of x] by (simp add: chance_handle_get_def chance_handle_set_def)
qed

end
