(* ===== verification/IdEncoding.thy ===== *)
theory IdEncoding
  imports Prelude
begin

text \<open>
  The cache's configuration, the packing of \<open>(shard, slab index)\<close> into a tracing id, and the
  allocation of \<open>actual_id\<close>s (\<open>tracing-cache/src/id_encoding.rs\<close>, \<open>config.rs\<close>,
  \<open>thread_state.rs\<close> and the constructor and helpers of \<open>cache.rs\<close>). A \<open>usize\<close> is a natural
  number; casting it to \<open>u64\<close> is \<open>of_nat\<close>.
\<close>

section \<open>Configuration\<close>

definition DISABLED :: u64 where
  "DISABLED = 1"

definition SLAB_OFFSET :: u64 where
  "SLAB_OFFSET = 2"

definition ID_BATCH :: u64 where
  "ID_BATCH = 1024"

definition DEFAULT_LANE_COUNT :: usize where
  "DEFAULT_LANE_COUNT = 16"

record cache_config =
  cfg_lane_count :: usize
  cfg_pending_batch :: usize
  cfg_driver_batch :: usize
  cfg_driver_interval_ns :: u64
  cfg_channel_capacity :: u64

definition config_default :: cache_config where
  "config_default = \<lparr>cfg_lane_count = DEFAULT_LANE_COUNT, cfg_pending_batch = 8,
     cfg_driver_batch = 600, cfg_driver_interval_ns = 1000000000, cfg_channel_capacity = 65536\<rparr>"

text \<open>\<open>usize::next_power_of_two\<close>: doubling from 1 until \<open>n\<close> is reached.\<close>

function pow2_from :: "nat \<Rightarrow> nat \<Rightarrow> nat" where
  "pow2_from p n = (if p < n \<and> 0 < p then pow2_from (2 * p) n else p)"
  by pat_completeness auto
termination
  by (relation "measure (\<lambda>(p, n). n - p)") auto

declare pow2_from.simps [simp del]

definition next_power_of_two :: "nat \<Rightarrow> nat" where
  "next_power_of_two n = pow2_from 1 n"

text \<open>\<open>usize::trailing_zeros\<close> (64 on zero).\<close>

function trailing_zeros :: "nat \<Rightarrow> nat" where
  "trailing_zeros n = (if n = 0 then 64 else if odd n then 0 else Suc (trailing_zeros (n div 2)))"
  by pat_completeness auto
termination
  by (relation "measure id") (auto elim: evenE)

declare trailing_zeros.simps [simp del]

definition clamp_nat :: "nat \<Rightarrow> nat \<Rightarrow> nat \<Rightarrow> nat" where
  "clamp_nat lo hi n = (if n < lo then lo else if n > hi then hi else n)"

text \<open>\<open>usize::div_ceil\<close>\<close>

definition div_ceil :: "nat \<Rightarrow> nat \<Rightarrow> nat" where
  "div_ceil a b = (if a mod b > 0 then a div b + 1 else a div b)"

definition normal_lane_count :: "usize \<Rightarrow> usize" where
  "normal_lane_count n = next_power_of_two (clamp_nat 1 256 n)"

record id_layout =
  shard_mask :: u64
  shard_shift :: nat

definition layout_of :: "usize \<Rightarrow> id_layout" where
  "layout_of lane_count =
     \<lparr>shard_mask = of_nat lane_count - 1, shard_shift = 64 - max (trailing_zeros lane_count) 1\<rparr>"

section \<open>Tracing ids\<close>

definition encode_tracing_id :: "id_layout \<Rightarrow> usize \<Rightarrow> usize \<Rightarrow> u64" where
  "encode_tracing_id l shard slab_idx =
     (push_bit (shard_shift l) (of_nat shard)) OR (of_nat slab_idx + SLAB_OFFSET)"

definition decode_tracing_id :: "id_layout \<Rightarrow> u64 \<Rightarrow> (usize \<times> usize) option" where
  "decode_tracing_id l i =
     (if i = DISABLED then None
      else let slab_mask = push_bit (shard_shift l) 1 - 1;
               raw = i AND slab_mask
           in if raw < SLAB_OFFSET then None
              else Some (unat (drop_bit (shard_shift l) i AND shard_mask l), unat (raw - SLAB_OFFSET)))"

lemma pow2_from_spec:
  "0 < p \<Longrightarrow> n \<le> pow2_from p n \<and> p \<le> pow2_from p n \<and> (\<exists>k. pow2_from p n = p * 2 ^ k) \<and>
     (p < n \<longrightarrow> pow2_from p n < 2 * n)"
proof (induction p n rule: pow2_from.induct)
  case (1 p n)
  show ?case
  proof (cases "p < n")
    case True
    then have "0 < 2 * p" using 1(2) by simp
    note IH = 1(1) [OF conjI [OF True 1(2)] this]
    have eq: "pow2_from p n = pow2_from (2 * p) n" using True 1(2) by (simp add: pow2_from.simps [of p])
    obtain k where "pow2_from (2 * p) n = 2 * p * 2 ^ k" using IH by blast
    then have "pow2_from p n = p * 2 ^ Suc k" using eq by simp
    moreover have "pow2_from p n < 2 * n"
    proof (cases "2 * p < n")
      case False
      then have "pow2_from (2 * p) n = 2 * p" by (simp add: pow2_from.simps [of "2 * p"])
      then show ?thesis using eq True by simp
    qed (use IH eq in simp)
    ultimately show ?thesis using IH eq True by (intro conjI) (auto intro: exI [of _ "Suc k"])
  next
    case False
    then have "pow2_from p n = p" by (simp add: pow2_from.simps [of p])
    with False show ?thesis by (auto intro: exI [of _ 0])
  qed
qed

lemma next_power_of_two_spec:
  "n \<le> next_power_of_two n \<and> (\<exists>k. next_power_of_two n = 2 ^ k) \<and> (1 < n \<longrightarrow> next_power_of_two n < 2 * n)"
  using pow2_from_spec [of 1 n] by (simp add: next_power_of_two_def)

lemma trailing_zeros_pow2: "trailing_zeros (2 ^ k) = k"
  by (induction k) (simp_all add: trailing_zeros.simps [of "Suc 0"] trailing_zeros.simps [of "2 * 2 ^ _"])

text \<open>The shapes the constructor produces: a power of two between 1 and 256.\<close>

lemma normal_lane_count_pow2: "\<exists>k \<le> 8. normal_lane_count n = 2 ^ k"
proof -
  let ?c = "clamp_nat 1 256 n"
  have c: "1 \<le> ?c" "?c \<le> 256" by (simp_all add: clamp_nat_def)
  obtain k where k: "normal_lane_count n = 2 ^ k"
    using next_power_of_two_spec [of ?c] by (auto simp: normal_lane_count_def)
  have "(2::nat) ^ k < 2 ^ 9"
  proof (cases "1 < ?c")
    case True
    then have "2 ^ k < 2 * ?c" using next_power_of_two_spec [of ?c] k by (simp add: normal_lane_count_def)
    then show ?thesis using c by simp
  next
    case False
    then have "?c = 1" using c by simp
    then show ?thesis using k by (simp add: normal_lane_count_def next_power_of_two_def pow2_from.simps)
  qed
  then have "k < 9" by (metis nat_power_less_imp_less zero_less_numeral)
  with k show ?thesis by (intro exI [of _ k]) simp
qed

definition layout_ok :: "id_layout \<Rightarrow> usize \<Rightarrow> bool" where
  "layout_ok l lanes \<longleftrightarrow> (\<exists>k \<le> 8. lanes = 2 ^ k \<and> shard_mask l = mask k \<and> shard_shift l = 64 - max k 1)"

lemma layout_of_ok: "layout_ok (layout_of (normal_lane_count n)) (normal_lane_count n)"
proof -
  obtain k where k: "k \<le> 8" "normal_lane_count n = 2 ^ k" using normal_lane_count_pow2 by blast
  then show ?thesis
    by (auto simp: layout_ok_def layout_of_def trailing_zeros_pow2 mask_eq_exp_minus_1 intro!: exI [of _ k])
qed

text \<open>The indices a lane can hold: the slab's keys fit under the shard bits.\<close>

definition slot_fits :: "id_layout \<Rightarrow> usize \<Rightarrow> bool" where
  "slot_fits l slab_idx \<longleftrightarrow> slab_idx + 2 < 2 ^ shard_shift l"

lemma take_small_word: "unat (w :: u64) < 2 ^ n \<Longrightarrow> take_bit n w = w"
  by (metis take_bit_nat_eq_self unsigned_take_bit_eq word_unat_eq_iff)

lemma drop_small_word: "unat (w :: u64) < 2 ^ n \<Longrightarrow> drop_bit n w = 0"
proof -
  assume "unat w < 2 ^ n"
  then have "drop_bit n (unat w) = 0" by (simp add: drop_bit_eq_div)
  then show ?thesis by (simp add: word_unat_eq_iff unat_drop_bit_eq)
qed

lemma encode_parts:
  assumes l: "layout_ok l lanes" and "shard < lanes" "slot_fits l slab_idx"
  shows "encode_tracing_id l shard slab_idx AND (push_bit (shard_shift l) 1 - 1) = of_nat (slab_idx + 2)"
    and "drop_bit (shard_shift l) (encode_tracing_id l shard slab_idx) AND shard_mask l = of_nat shard"
    and "unat (of_nat (slab_idx + 2) :: u64) = slab_idx + 2"
    and "unat (of_nat shard :: u64) = shard"
proof -
  from l obtain k where k: "k \<le> 8" "lanes = 2 ^ k" "shard_mask l = mask k" "shard_shift l = 64 - max k 1"
    by (auto simp: layout_ok_def)
  let ?s = "shard_shift l" and ?w = "of_nat (slab_idx + 2) :: u64" and ?a = "of_nat shard :: u64"
  have s: "?s < 64" "k + ?s \<le> 64" using k by simp_all
  have "slab_idx + 2 < 2 ^ 64"
    using assms(3) power_increasing [of ?s 64 "2::nat"] s by (simp add: slot_fits_def)
  then show w: "unat ?w = slab_idx + 2" by (intro of_nat_inverse) simp_all
  have "(2::nat) ^ k \<le> 2 ^ 8" using k(1) by (intro power_increasing) simp_all
  then have "shard < 2 ^ 64" using assms(2) k(2) by simp
  then show a: "unat ?a = shard" by (simp add: unat_of_nat)
  have ws: "unat ?w < 2 ^ ?s" using assms(3) w by (simp add: slot_fits_def)
  have enc: "encode_tracing_id l shard slab_idx = push_bit ?s ?a OR ?w"
    by (simp add: encode_tracing_id_def SLAB_OFFSET_def add.commute)
  have m: "push_bit ?s 1 - 1 = (mask ?s :: u64)" by (simp add: mask_eq_exp_minus_1)
  show "encode_tracing_id l shard slab_idx AND (push_bit ?s 1 - 1) = ?w"
    unfolding enc m take_bit_eq_mask [symmetric] take_bit_or take_small_word [OF ws]
    by (simp add: take_bit_push_bit)
  have ak: "unat ?a < 2 ^ k" using a assms(2) k(2) by simp
  have "drop_bit ?s (push_bit ?s ?a) = ?a"
  proof -
    have "bit ?a n \<Longrightarrow> n < k" for n
      using take_small_word [OF ak] by (metis bit_take_bit_iff)
    then show ?thesis
      using s by (intro bit_word_eqI) (auto simp: bit_drop_bit_eq bit_push_bit_iff; fastforce)
  qed
  then have "drop_bit ?s (encode_tracing_id l shard slab_idx) = ?a"
    unfolding enc drop_bit_or drop_small_word [OF ws] by simp
  then show "drop_bit ?s (encode_tracing_id l shard slab_idx) AND shard_mask l = ?a"
    unfolding k(3) take_bit_eq_mask [symmetric] by (simp add: take_small_word [OF ak])
qed

lemma encode_decode_aux:
  assumes "layout_ok l lanes" "shard < lanes" "slot_fits l slab_idx"
  shows "decode_tracing_id l (encode_tracing_id l shard slab_idx) = Some (shard, slab_idx) \<and>
    encode_tracing_id l shard slab_idx \<noteq> DISABLED \<and> encode_tracing_id l shard slab_idx \<noteq> 0"
proof -
  note P = encode_parts [OF assms]
  let ?i = "encode_tracing_id l shard slab_idx" and ?m = "push_bit (shard_shift l) 1 - 1 :: u64"
  let ?w = "of_nat (slab_idx + 2) :: u64"
  have ge: "\<not> ?w < SLAB_OFFSET" using P(3) by (simp add: word_less_nat_alt SLAB_OFFSET_def)
  have "?i \<noteq> 0"
  proof
    assume "?i = 0"
    then have "?w = 0" using P(1) by simp
    then show False using P(3) by (metis add_is_0 unat_0 zero_neq_numeral)
  qed
  moreover have "?i \<noteq> 1"
  proof
    assume "?i = 1"
    then have "?w = 1 AND ?m" using P(1) by simp
    then have "unat ?w \<le> 1" by (metis and.commute unat_1 word_and_le1 word_le_nat_alt)
    then show False using P(3) by simp
  qed
  moreover have "unat (?w - SLAB_OFFSET) = slab_idx"
  proof -
    have "unat (?w - SLAB_OFFSET) = unat ?w - unat SLAB_OFFSET"
      using ge by (intro unat_sub) (simp add: not_less)
    then show ?thesis unfolding P(3) by (simp add: SLAB_OFFSET_def)
  qed
  ultimately show ?thesis
    unfolding decode_tracing_id_def Let_def P(1) P(2) P(4) using ge by (simp add: DISABLED_def)
qed

text \<open>C24. Round trip of tracing ids: for every lane count the constructor can produce, decoding an
  encoded address gives the address back, and an encoded id is never the reserved id \<open>DISABLED\<close>
  nor 0.\<close>

theorem encode_decode:
  assumes "layout_ok l lanes" "shard < lanes" "slot_fits l slab_idx"
  shows "decode_tracing_id l (encode_tracing_id l shard slab_idx) = Some (shard, slab_idx) \<and>
    encode_tracing_id l shard slab_idx \<noteq> DISABLED \<and> encode_tracing_id l shard slab_idx \<noteq> 0"
  by (rule encode_decode_aux [OF assms])

lemma encode_decode_witness:
  "decode_tracing_id (layout_of (normal_lane_count 200)) (encode_tracing_id (layout_of (normal_lane_count 200)) 255 7) = Some (255, 7)
   \<and> normal_lane_count 200 = 256"
proof -
  have n: "normal_lane_count 200 = 256" by code_simp
  then have "slot_fits (layout_of (normal_lane_count 200)) 7"
    by (simp add: slot_fits_def layout_of_def trailing_zeros_pow2 [of 8, simplified])
  then show ?thesis
    using encode_decode [OF layout_of_ok, of 255 200 7] n by simp
qed

section \<open>Allocation of actual ids\<close>

text \<open>One call on a thread whose cursor is \<open>cursor\<close>: the id, the new cursor and the new shared
  high-water mark. \<open>fetch_add\<close> is atomic, so a run of the program is a sequence of such calls.\<close>

definition allocate_actual_id :: "u64 \<Rightarrow> u64 \<Rightarrow> u64 \<times> u64 \<times> u64" where
  "allocate_actual_id cursor high_water =
     (if cursor AND (ID_BATCH - 1) \<noteq> 0 then (cursor, cursor + 1, high_water)
      else (high_water, high_water + 1, high_water + ID_BATCH))"

text \<open>Threads calling in the order of \<open>ts\<close>: the ids handed out.\<close>

fun allocate_run :: "(nat \<Rightarrow> u64) \<Rightarrow> u64 \<Rightarrow> nat list \<Rightarrow> u64 list" where
  "allocate_run cursors hw [] = []"
| "allocate_run cursors hw (t # ts) =
     (let (i, c, hw') = allocate_actual_id (cursors t) hw
      in i # allocate_run (cursors(t := c)) hw' ts)"

lemma batch_boundary: "cursor AND (ID_BATCH - 1) = 0 \<longleftrightarrow> unat cursor mod 1024 = 0"
proof -
  have "(1023 :: u64) = mask 10" by (simp add: mask_eq_exp_minus_1)
  then have "cursor AND (ID_BATCH - 1) = take_bit 10 cursor"
    by (simp add: ID_BATCH_def take_bit_eq_mask)
  moreover have "unat (take_bit 10 cursor) = unat cursor mod 1024"
    unfolding unsigned_take_bit_eq by (simp add: take_bit_eq_mod)
  ultimately show ?thesis by (simp add: word_unat_eq_iff)
qed

text \<open>The reservations: a cursor off a batch boundary owns the rest of its batch; batches are below
  the high-water mark and owned by one thread.\<close>

definition reserved :: "(nat \<Rightarrow> u64) \<Rightarrow> u64 \<Rightarrow> u64 set \<Rightarrow> bool" where
  "reserved cursors hw used \<longleftrightarrow> unat hw mod 1024 = 0 \<and> 1024 \<le> unat hw \<and>
     (\<forall>u \<in> used. 1024 \<le> unat u \<and> unat u < unat hw) \<and>
     (\<forall>t. unat (cursors t) mod 1024 \<noteq> 0 \<longrightarrow>
        1024 \<le> unat (cursors t) \<and> unat (cursors t) < unat hw \<and>
        (\<forall>u \<in> used. unat u div 1024 = unat (cursors t) div 1024 \<longrightarrow> unat u < unat (cursors t)) \<and>
        (\<forall>t'. t' \<noteq> t \<and> unat (cursors t') mod 1024 \<noteq> 0 \<longrightarrow>
           unat (cursors t') div 1024 \<noteq> unat (cursors t) div 1024))"

lemma reserved_blocks:
  "reserved cursors hw used \<Longrightarrow> unat (cursors t) mod 1024 \<noteq> 0 \<Longrightarrow> unat (cursors t') mod 1024 \<noteq> 0 \<Longrightarrow>
     t' \<noteq> t \<Longrightarrow> unat (cursors t') div 1024 \<noteq> unat (cursors t) div 1024"
  unfolding reserved_def by blast

lemma reserved_hit:
  assumes R: "reserved cursors hw used" and off: "unat (cursors t) mod 1024 \<noteq> 0"
  shows "cursors t \<notin> used" "reserved (cursors(t := cursors t + 1)) hw (insert (cursors t) used)"
proof -
  let ?c = "cursors t"
  have c: "1024 \<le> unat ?c" "unat ?c < unat hw"
    "\<And>u. u \<in> used \<Longrightarrow> unat u div 1024 = unat ?c div 1024 \<Longrightarrow> unat u < unat ?c"
    "\<And>t'. t' \<noteq> t \<Longrightarrow> unat (cursors t') mod 1024 \<noteq> 0 \<Longrightarrow> unat (cursors t') div 1024 \<noteq> unat ?c div 1024"
    using R off by (auto simp: reserved_def)
  have hw: "unat hw < 2 ^ 64" using unsigned_less [of hw] by simp
  have suc: "unat (?c + 1) = Suc (unat ?c)" using c(2) hw by (simp add: unat_add_small)
  show "?c \<notin> used" using c(3) [of ?c] by auto
  have mod: "unat hw mod 1024 = 0" using R by (simp add: reserved_def)
  have blk: "Suc (unat ?c) mod 1024 \<noteq> 0 \<Longrightarrow> Suc (unat ?c) div 1024 = unat ?c div 1024"
    by (simp add: div_Suc)
  have lt: "Suc (unat ?c) < unat hw" if "Suc (unat ?c) mod 1024 \<noteq> 0"
    using that c(2) mod by (cases "Suc (unat ?c) = unat hw") auto
  show "reserved (cursors(t := ?c + 1)) hw (insert ?c used)"
    unfolding reserved_def
  proof (intro conjI allI impI ballI; (elim conjE)?)
    fix t1 assume t1: "unat ((cursors(t := ?c + 1)) t1) mod 1024 \<noteq> 0"
    {
      show "1024 \<le> unat ((cursors(t := ?c + 1)) t1)" "unat ((cursors(t := ?c + 1)) t1) < unat hw"
        using t1 c suc lt R by (auto simp: reserved_def split: if_splits)
    next
      fix u assume u: "u \<in> insert ?c used" "unat u div 1024 = unat ((cursors(t := ?c + 1)) t1) div 1024"
      show "unat u < unat ((cursors(t := ?c + 1)) t1)"
      proof (cases "t1 = t")
        case True
        then have "unat u div 1024 = unat ?c div 1024" using u(2) t1 suc blk by simp
        then show ?thesis using True u(1) c(3) suc by (auto intro: less_SucI)
      next
        case False
        then have "u \<noteq> ?c" using u(2) t1 c(4) [of t1] by auto
        then show ?thesis using u t1 False R by (auto simp: reserved_def)
      qed
    next
      fix t2 assume t2: "t2 \<noteq> t1" "unat ((cursors(t := ?c + 1)) t2) mod 1024 \<noteq> 0"
      have nb: "unat ((cursors(t := ?c + 1)) t') div 1024 = unat (cursors t') div 1024 \<and>
          unat (cursors t') mod 1024 \<noteq> 0" if "unat ((cursors(t := ?c + 1)) t') mod 1024 \<noteq> 0" for t'
        using that suc blk off by (cases "t' = t") simp_all
      show "unat ((cursors(t := ?c + 1)) t2) div 1024 \<noteq> unat ((cursors(t := ?c + 1)) t1) div 1024"
        using nb [OF t1] nb [OF t2(2)] reserved_blocks [OF R, of t1 t2] t2(1) by metis
    }
  qed (use R c in \<open>auto simp: reserved_def\<close>)
qed

lemma reserved_refill:
  assumes R: "reserved cursors hw used" and room: "unat hw + 1024 < 2 ^ 64"
  shows "hw \<notin> used" "reserved (cursors(t := hw + 1)) (hw + ID_BATCH) (insert hw used)"
proof -
  have suc: "unat (hw + 1) = Suc (unat hw)" "unat (hw + ID_BATCH) = unat hw + 1024"
    using room by (simp_all add: unat_add_small ID_BATCH_def)
  have mod: "unat hw mod 1024 = 0" "1024 \<le> unat hw" using R by (simp_all add: reserved_def)
  then have blk: "Suc (unat hw) div 1024 = unat hw div 1024" by (simp add: div_Suc mod_Suc)
  have below: "unat x < unat hw \<Longrightarrow> unat x div 1024 < unat hw div 1024" for x :: u64
    using mod(1) by (metis div_less_mono mod_0_imp_dvd zero_less_numeral dvd_div_mult_self less_mult_imp_div_less)
  show "hw \<notin> used" using R by (auto simp: reserved_def)
  show "reserved (cursors(t := hw + 1)) (hw + ID_BATCH) (insert hw used)"
    unfolding reserved_def
  proof (intro conjI allI impI ballI; (elim conjE)?)
    fix t1 assume t1: "unat ((cursors(t := hw + 1)) t1) mod 1024 \<noteq> 0"
    {
      have "t1 \<noteq> t \<Longrightarrow> 1024 \<le> unat (cursors t1) \<and> unat (cursors t1) < unat hw"
        using t1 R by (simp add: reserved_def)
      then show "1024 \<le> unat ((cursors(t := hw + 1)) t1)"
        "unat ((cursors(t := hw + 1)) t1) < unat (hw + ID_BATCH)"
        using suc mod(2) by (cases "t1 = t"; simp)+
    next
      fix u assume u: "u \<in> insert hw used" "unat u div 1024 = unat ((cursors(t := hw + 1)) t1) div 1024"
      show "unat u < unat ((cursors(t := hw + 1)) t1)"
      proof (cases "t1 = t")
        case True
        then show ?thesis using u R suc by (auto simp: reserved_def)
      next
        case False
        then have "unat (cursors t1) < unat hw" using t1 R by (auto simp: reserved_def)
        then have "u \<noteq> hw" using u(2) False below by fastforce
        then show ?thesis using u t1 False R by (auto simp: reserved_def)
      qed
    next
      fix t2 assume t2: "t2 \<noteq> t1" "unat ((cursors(t := hw + 1)) t2) mod 1024 \<noteq> 0"
      have "t' \<noteq> t \<Longrightarrow> unat ((cursors(t := hw + 1)) t') mod 1024 \<noteq> 0 \<Longrightarrow>
          unat (cursors t') div 1024 < unat hw div 1024" for t'
        using R below by (auto simp: reserved_def)
      note lt = this
      consider "t1 = t" "t2 \<noteq> t" | "t2 = t" "t1 \<noteq> t" | "t1 \<noteq> t" "t2 \<noteq> t" using t2(1) by blast
      then show "unat ((cursors(t := hw + 1)) t2) div 1024 \<noteq> unat ((cursors(t := hw + 1)) t1) div 1024"
      proof cases
        case 1
        with lt [OF 1(2) t2(2)] suc blk show ?thesis by simp
      next
        case 2
        with lt [OF 2(2) t1] suc blk show ?thesis by simp
      next
        case 3
        with t1 t2 reserved_blocks [OF R, of t1 t2] show ?thesis by simp
      qed
    }
  qed (use R suc mod in \<open>auto simp: reserved_def\<close>)
qed

lemma allocate_run_distinct:
  "reserved cursors hw used \<Longrightarrow> unat hw + 1024 * length ts < 2 ^ 64 \<Longrightarrow>
     distinct (allocate_run cursors hw ts) \<and> set (allocate_run cursors hw ts) \<inter> used = {} \<and>
     (\<forall>i \<in> set (allocate_run cursors hw ts). 1024 \<le> unat i)"
proof (induction ts arbitrary: cursors hw used)
  case (Cons t ts)
  have ge: "1024 \<le> unat hw" using Cons.prems by (simp add: reserved_def)
  show ?case
  proof (cases "unat (cursors t) mod 1024 = 0")
    case True
    then have step: "allocate_actual_id (cursors t) hw = (hw, hw + 1, hw + ID_BATCH)"
      using batch_boundary [of "cursors t"] by (simp add: allocate_actual_id_def)
    have room: "unat hw + 1024 < 2 ^ 64" using Cons.prems(2) by simp
    then have "unat (hw + ID_BATCH) = unat hw + 1024" by (simp add: unat_add_small ID_BATCH_def)
    then have small: "unat (hw + ID_BATCH) + 1024 * length ts < 2 ^ 64" using Cons.prems(2) by simp
    define rest where "rest = allocate_run (cursors(t := hw + 1)) (hw + ID_BATCH) ts"
    from Cons.IH [OF reserved_refill(2) [OF Cons.prems(1) room, of t] small, folded rest_def]
    have "distinct rest" "set rest \<inter> insert hw used = {}" "\<forall>i \<in> set rest. 1024 \<le> unat i"
      by blast+
    moreover have "allocate_run cursors hw (t # ts) = hw # rest" by (simp add: step rest_def)
    ultimately show ?thesis using reserved_refill(1) [OF Cons.prems(1) room] ge by auto
  next
    case False
    then have step: "allocate_actual_id (cursors t) hw = (cursors t, cursors t + 1, hw)"
      using batch_boundary [of "cursors t"] by (simp add: allocate_actual_id_def)
    have "1024 \<le> unat (cursors t)" using Cons.prems(1) False by (simp add: reserved_def)
    have small: "unat hw + 1024 * length ts < 2 ^ 64" using Cons.prems(2) by simp
    define rest where "rest = allocate_run (cursors(t := cursors t + 1)) hw ts"
    from Cons.IH [OF reserved_hit(2) [OF Cons.prems(1) False] small, folded rest_def]
    have "distinct rest" "set rest \<inter> insert (cursors t) used = {}" "\<forall>i \<in> set rest. 1024 \<le> unat i"
      by blast+
    moreover have "allocate_run cursors hw (t # ts) = cursors t # rest" by (simp add: step rest_def)
    ultimately show ?thesis
      using reserved_hit(1) [OF Cons.prems(1) False] \<open>1024 \<le> unat (cursors t)\<close> by auto
  qed
qed simp

text \<open>C25. The ids handed out by any interleaving of threads, from fresh cursors and the constructor's
  high-water mark, are pairwise distinct and never 0, as long as the 64-bit space is not used up.\<close>

theorem actual_ids_unique:
  assumes "1024 * (length ts + 1) < 2 ^ 64"
  shows "distinct (allocate_run (\<lambda>_. 0) ID_BATCH ts) \<and> 0 \<notin> set (allocate_run (\<lambda>_. 0) ID_BATCH ts)"
proof -
  have "reserved (\<lambda>_. 0) ID_BATCH {}" by (simp add: reserved_def ID_BATCH_def)
  from allocate_run_distinct [OF this, of ts] assms show ?thesis by (auto simp: ID_BATCH_def)
qed

lemma actual_ids_unique_witness:
  "allocate_run (\<lambda>_. 0) ID_BATCH [0, 1, 0, 2, 1] = [1024, 2048, 1025, 3072, 2049] \<and>
   distinct (allocate_run (\<lambda>_. 0) ID_BATCH [0, 1, 0, 2, 1])"
proof -
  have "allocate_run (\<lambda>_. 0) ID_BATCH [0, 1, 0, 2, 1] = [1024, 2048, 1025, 3072, 2049]" by code_simp
  then show ?thesis using actual_ids_unique [of "[0, 1, 0, 2, 1]"] by simp
qed

end
