(* ===== verification/Records.thy ===== *)
theory Records
  imports CachePredicate IdEncoding
begin

text \<open>
  What the cache records (\<open>tracing-cache/src/record.rs\<close>) and the pool that recycles event records
  (\<open>object_pool.rs\<close>). An \<open>Instant\<close> is a number of nanoseconds since the process started. The
  \<open>Debug\<close> and error texts that \<open>record_debug\<close> and \<open>record_error\<close> receive arrive printed. Whether a
  \<open>try_lock\<close> succeeds is an argument.
\<close>

type_synonym instant = nat

section \<open>Fields\<close>

datatype field_value =
    FU64 u64
  | FI64 u64
  | FF64 f64
  | FBool bool
  | FStr string
  | FSmallString string
  | FSharedString string
  | FString string

fun to_display_string :: "field_value \<Rightarrow> string" where
  "to_display_string (FU64 v) = show_uint (uint v)"
| "to_display_string (FI64 v) = show_int (sint v)"
| "to_display_string (FF64 v) = show_f64 v"
| "to_display_string (FBool v) = show_bool v"
| "to_display_string (FStr s) = s"
| "to_display_string (FSmallString s) = s"
| "to_display_string (FSharedString s) = s"
| "to_display_string (FString s) = s"

fun field_contains :: "field_value \<Rightarrow> string \<Rightarrow> bool" where
  "field_contains (FStr s) needle = str_contains s needle"
| "field_contains (FSmallString s) needle = str_contains s needle"
| "field_contains (FSharedString s) needle = str_contains s needle"
| "field_contains (FString s) needle = str_contains s needle"
| "field_contains v needle = str_contains (to_display_string v) needle"

type_synonym field_list = "(string \<times> field_value) list"

definition field_get :: "field_list \<Rightarrow> string \<Rightarrow> field_value option" where
  "field_get flds name = map_option snd (find (\<lambda>p. fst p = name) flds)"

text \<open>\<open>FieldVisitor::set\<close>: replace the first entry of that name or append.\<close>

fun visitor_set :: "string \<Rightarrow> field_value \<Rightarrow> field_list \<Rightarrow> field_list" where
  "visitor_set name v [] = [(name, v)]"
| "visitor_set name v ((k, w) # fs) =
     (if k = name then (k, v) # fs else (k, w) # visitor_set name v fs)"

text \<open>What \<open>tracing\<close> hands to a visitor, by the method that takes it.\<close>

datatype visited =
    VDebug string
  | VStr string
  | VI64 u64
  | VU64 u64
  | VBool bool
  | VF64 f64
  | VError string

fun visit_value :: "visited \<Rightarrow> field_value" where
  "visit_value (VDebug printed) = FSmallString printed"
| "visit_value (VStr s) = FSmallString s"
| "visit_value (VI64 v) = FI64 v"
| "visit_value (VU64 v) = FU64 v"
| "visit_value (VBool v) = FBool v"
| "visit_value (VF64 v) = FF64 v"
| "visit_value (VError printed) = FSmallString printed"

fun visit_all :: "(string \<times> visited) list \<Rightarrow> field_list \<Rightarrow> field_list" where
  "visit_all [] flds = flds"
| "visit_all ((name, v) # vs) flds = visit_all vs (visitor_set name (visit_value v) flds)"

section \<open>Events and spans\<close>

record event_record =
  er_metadata :: "metadata option"
  er_fields :: field_list
  er_recorded_at :: "instant option"

definition event_default :: event_record where
  "event_default = \<lparr>er_metadata = None, er_fields = [], er_recorded_at = None\<rparr>"

definition event_reset :: "event_record \<Rightarrow> event_record" where
  "event_reset r = r\<lparr>er_metadata := None, er_fields := [], er_recorded_at := None\<rparr>"

definition empty_metadata :: metadata where
  "empty_metadata = \<lparr>md_name = ''unfilled'', md_target = ''tracing_cache::record'', md_level = TRACE\<rparr>"

definition event_metadata :: "event_record \<Rightarrow> metadata" where
  "event_metadata r = (case er_metadata r of None \<Rightarrow> empty_metadata | Some md \<Rightarrow> md)"

text \<open>\<open>unfilled\<close> is the instant the lazy stand-in captured.\<close>

definition event_recorded_at :: "instant \<Rightarrow> event_record \<Rightarrow> instant" where
  "event_recorded_at unfilled r = (case er_recorded_at r of None \<Rightarrow> unfilled | Some t \<Rightarrow> t)"

text \<open>A \<open>ReuseRef\<close>: the value and the shard of the pool it goes back to.\<close>

record 'a reuse_ref =
  rr_value :: 'a
  rr_shard :: usize

record span_record =
  sr_id :: u64
  sr_parent_id :: "u64 option"
  sr_metadata :: metadata
  sr_fields :: field_list
  sr_events :: "event_record reuse_ref list"
  sr_opened_at :: instant
  sr_closed_at :: "instant option"

definition sr_field :: "span_record \<Rightarrow> string \<Rightarrow> field_value option" where
  "sr_field s name = field_get (sr_fields s) name"

section \<open>The object pool\<close>

record 'a pool =
  pl_items :: "'a list"
  pl_capacity :: usize

definition pool_new :: "usize \<Rightarrow> 'a pool" where
  "pool_new capacity = \<lparr>pl_items = [], pl_capacity = capacity\<rparr>"

definition try_take :: "'a \<Rightarrow> bool \<Rightarrow> 'a pool \<Rightarrow> 'a \<times> 'a pool" where
  "try_take dflt locked p =
     (if locked \<and> pl_items p \<noteq> [] then (last (pl_items p), p\<lparr>pl_items := butlast (pl_items p)\<rparr>)
      else (dflt, p))"

definition try_return :: "bool \<Rightarrow> 'a \<Rightarrow> 'a pool \<Rightarrow> 'a pool" where
  "try_return locked v p =
     (if locked \<and> length (pl_items p) < pl_capacity p then p\<lparr>pl_items := pl_items p @ [v]\<rparr> else p)"

record 'a object_pool =
  op_shards :: "'a pool list"
  op_mask :: u64

definition object_pool_new :: "usize \<Rightarrow> usize \<Rightarrow> 'a object_pool" where
  "object_pool_new shard_count per_shard =
     (let n = next_power_of_two (max shard_count 1)
      in \<lparr>op_shards = replicate n (pool_new per_shard), op_mask = of_nat n - 1\<rparr>)"

definition acquire :: "'a \<Rightarrow> u64 \<Rightarrow> bool \<Rightarrow> 'a object_pool \<Rightarrow> 'a reuse_ref \<times> 'a object_pool" where
  "acquire dflt key locked op =
     (let i = unat (key AND op_mask op);
          (v, p) = try_take dflt locked (op_shards op ! i)
      in (\<lparr>rr_value = v, rr_shard = i\<rparr>, op\<lparr>op_shards := (op_shards op)[i := p]\<rparr>))"

definition ref_clone :: "'a reuse_ref \<Rightarrow> 'a reuse_ref" where
  "ref_clone r = \<lparr>rr_value = rr_value r, rr_shard = rr_shard r\<rparr>"

definition ref_drop :: "('a \<Rightarrow> 'a) \<Rightarrow> bool \<Rightarrow> 'a reuse_ref \<Rightarrow> 'a object_pool \<Rightarrow> 'a object_pool" where
  "ref_drop reset locked r op =
     op\<lparr>op_shards := (op_shards op)
        [rr_shard r := try_return locked (reset (rr_value r)) (op_shards op ! rr_shard r)]\<rparr>"

text \<open>The interface \<open>Resettable + Default\<close>: a reset value is the default value. On it rests that
  recycling cannot be observed.\<close>

definition shard_clean :: "'a \<Rightarrow> 'a pool \<Rightarrow> bool" where
  "shard_clean dflt p \<longleftrightarrow> list_all (\<lambda>v. v = dflt) (pl_items p) \<and> length (pl_items p) \<le> pl_capacity p"

definition pool_clean :: "'a \<Rightarrow> 'a object_pool \<Rightarrow> bool" where
  "pool_clean dflt op \<longleftrightarrow> (\<exists>k. length (op_shards op) = 2 ^ k \<and> k < 64 \<and> op_mask op = mask k) \<and>
     list_all (shard_clean dflt) (op_shards op)"

lemma list_all_update: "list_all P xs \<Longrightarrow> (i < length xs \<Longrightarrow> P y) \<Longrightarrow> list_all P (xs[i := y])"
  by (cases "i < length xs") (auto simp: list_all_length nth_list_update)

lemma try_take_clean: "shard_clean dflt p \<Longrightarrow> try_take dflt locked p = (v, q) \<Longrightarrow> v = dflt \<and> shard_clean dflt q"
  using in_set_butlastD [of _ "pl_items p"]
  by (fastforce simp: shard_clean_def try_take_def list_all_iff split: if_splits)

lemma try_return_clean: "shard_clean dflt p \<Longrightarrow> shard_clean dflt (try_return locked dflt p)"
  by (simp add: shard_clean_def try_return_def)

locale resettable =
  fixes reset :: "'a \<Rightarrow> 'a"
    and dflt :: 'a
  assumes reset_default: "reset x = dflt"
begin

lemma acquire_default:
  assumes "pool_clean dflt op"
  shows "rr_value (fst (acquire dflt key locked op)) = dflt"
    and "pool_clean dflt (snd (acquire dflt key locked op))"
    and "rr_shard (fst (acquire dflt key locked op)) < length (op_shards op)"
    and "length (op_shards (snd (acquire dflt key locked op))) = length (op_shards op)"
proof -
  obtain k where k: "length (op_shards op) = 2 ^ k" "k < 64" "op_mask op = mask k"
    using assms by (auto simp: pool_clean_def)
  let ?i = "unat (key AND op_mask op)"
  have i: "?i < length (op_shards op)"
    using k(2) by (simp add: k take_bit_eq_mask [symmetric] unsigned_take_bit_eq)
  let ?p = "op_shards op ! ?i"
  have p: "shard_clean dflt ?p" using assms i by (simp add: pool_clean_def list_all_length)
  obtain v q where t: "try_take dflt locked ?p = (v, q)" by fastforce
  note c = try_take_clean [OF p t]
  show "rr_value (fst (acquire dflt key locked op)) = dflt"
    using c t by (simp add: acquire_def Let_def)
  show "pool_clean dflt (snd (acquire dflt key locked op))"
    using assms c t by (simp add: pool_clean_def acquire_def Let_def list_all_update)
  show "rr_shard (fst (acquire dflt key locked op)) < length (op_shards op)"
    using i by (simp add: acquire_def Let_def split: prod.split)
  show "length (op_shards (snd (acquire dflt key locked op))) = length (op_shards op)"
    by (simp add: acquire_def Let_def split: prod.split)
qed

lemma drop_clean: "pool_clean dflt op \<Longrightarrow> pool_clean dflt (ref_drop reset locked r op)"
  by (auto simp: pool_clean_def ref_drop_def reset_default intro!: list_all_update try_return_clean)
    (simp add: list_all_length)

end

interpretation event_pool: resettable event_reset event_default
  by unfold_locales (simp add: event_reset_def event_default_def)

lemma object_pool_new_clean:
  assumes "n \<le> 2 ^ 62"
  shows "pool_clean dflt (object_pool_new n per_shard)"
proof -
  obtain k where k: "next_power_of_two (max n 1) = 2 ^ k" using next_power_of_two_spec by blast
  have "(2::nat) ^ k < 2 ^ 63"
  proof (cases "1 < max n 1")
    case True
    then have "2 ^ k < 2 * max n 1" using next_power_of_two_spec [of "max n 1"] k by simp
    then show ?thesis using assms by simp
  next
    case False
    then have "max n 1 = 1" by simp
    with k show ?thesis by (simp add: next_power_of_two_def pow2_from.simps)
  qed
  then have "k < 63" by (metis nat_power_less_imp_less zero_less_numeral)
  then show ?thesis
    using k by (auto simp: pool_clean_def shard_clean_def object_pool_new_def Let_def list_all_iff pool_new_def
        mask_eq_exp_minus_1 intro!: exI [of _ k])
qed

section \<open>Properties\<close>

text \<open>A program using the pool: acquire, or drop some reference, in any order, with any lock luck.\<close>

datatype pool_op = Acquire u64 bool | Release bool "event_record reuse_ref"

fun pool_run :: "event_record object_pool \<Rightarrow> pool_op list \<Rightarrow> event_record list" where
  "pool_run op [] = []"
| "pool_run op (Acquire key locked # xs) =
     (let (r, op') = acquire event_default key locked op in rr_value r # pool_run op' xs)"
| "pool_run op (Release locked r # xs) = pool_run (ref_drop event_reset locked r op) xs"

text \<open>Recycling event records is invisible: whatever was written into them, however locks
  contend, every record ever acquired from the pool is empty.\<close>

theorem pool_transparent:
  assumes "n \<le> 2 ^ 62" "r \<in> set (pool_run (object_pool_new n per_shard) xs)"
  shows "r = event_default"
proof -
  have "pool_clean event_default op \<Longrightarrow> \<forall>r \<in> set (pool_run op xs). r = event_default" for op
  proof (induction op xs rule: pool_run.induct)
    case (2 op key locked xs)
    obtain r' op' where a: "acquire event_default key locked op = (r', op')" by fastforce
    have "rr_value r' = event_default" "pool_clean event_default op'"
      using event_pool.acquire_default(1,2) [OF 2(2), of key locked] by (simp_all add: a)
    with 2(1) [OF a [symmetric] refl] show ?case by (simp add: a)
  qed (auto intro: event_pool.drop_clean)
  from bspec [OF this [OF object_pool_new_clean [OF assms(1)]] assms(2)] show ?thesis .
qed

lemma pool_transparent_witness:
  "pool_run (object_pool_new 3 2)
      [Acquire 5 True,
       Release True \<lparr>rr_value = \<lparr>er_metadata = None, er_fields = [(''a'', FBool True)], er_recorded_at = Some 7\<rparr>, rr_shard = 1\<rparr>,
       Acquire 1 True] ! 1 = event_default"
  (is "pool_run ?op ?xs ! 1 = _")
proof -
  have "length (pool_run ?op ?xs) = 2" by code_simp
  then have "1 < length (pool_run ?op ?xs)" by (simp only: one_less_numeral_iff semiring_norm)
  then have "pool_run ?op ?xs ! 1 \<in> set (pool_run ?op ?xs)" by (rule nth_mem)
  then show ?thesis by (rule pool_transparent [rotated]) simp
qed

lemma field_get_map_of: "field_get fs = map_of fs"
  by (simp add: field_get_def find_map_of fun_eq_iff)

lemma visitor_set_map: "map_of (visitor_set name v fs) = (map_of fs)(name \<mapsto> v)"
  by (induction name v fs rule: visitor_set.induct) (auto simp: fun_eq_iff)

lemma visitor_set_keys:
  "map fst (visitor_set name v fs) = (if name \<in> fst ` set fs then map fst fs else map fst fs @ [name])"
  by (induction name v fs rule: visitor_set.induct) auto

lemma visitor_set_distinct: "distinct (map fst fs) \<Longrightarrow> distinct (map fst (visitor_set name v fs))"
  by (simp only: visitor_set_keys) (auto simp: distinct_map)

lemma visit_all_distinct: "distinct (map fst fs) \<Longrightarrow> distinct (map fst (visit_all vs fs))"
  by (induction vs arbitrary: fs) (auto simp: visitor_set_distinct)

lemma visit_all_lookup:
  "field_get (visit_all vs fs) name =
     (case map_of (rev vs) name of Some v \<Rightarrow> Some (visit_value v) | None \<Rightarrow> field_get fs name)"
  unfolding field_get_map_of
proof (induction vs arbitrary: fs)
  case (Cons x vs)
  then show ?case by (cases x) (auto simp: visitor_set_map map_add_def split: option.split)
qed simp

text \<open>Recording fields behaves like inserting into a map: names stay unique and a lookup returns
  the last value recorded under the name, or the earlier value if there is none.\<close>

theorem visit_last_wins:
  "distinct (map fst (visit_all vs [])) \<and>
   field_get (visit_all vs fs) name =
     (case map_of (rev vs) name of Some v \<Rightarrow> Some (visit_value v) | None \<Rightarrow> field_get fs name)"
  by (simp add: visit_all_lookup visit_all_distinct)

end
