(* ===== verification/Cache.thy ===== *)
theory Cache
  imports Records
begin

text \<open>
  The span cache (\<open>tracing-cache/src/cache.rs\<close>, \<open>thread_state.rs\<close>): open spans in sharded slabs
  with a sidecar of actual ids, a span stack and two pending buffers per thread, and the channels to
  the driver. A method of the subscriber is a function on the view of the calling thread: the shared
  cache, the thread's own state and the global counter of thread keys. Each method is one atomic
  step; its locks and atomics are taken one at a time and never across a call of another method.

  What the code does not decide is an argument: the key the \<open>slab\<close> crate picks for an insertion
  (\<open>slot\<close>), whether a channel accepts a batch (\<open>send_outcome\<close>), the clock, the random word, the luck
  of \<open>try_lock\<close>. A panic (an index out of range) is None. Logging has no effect. The cached sender
  clones of a thread only say which channel to send to.
\<close>

section \<open>State\<close>

record stacked_span =
  ss_tracing_id :: u64
  ss_actual_id :: u64

record event_message =
  em_parent_actual_id :: u64
  em_record :: "event_record reuse_ref"

record shard_lane =
  ln_slab :: "(usize, span_record) btree"
  ln_actual_ids :: "u64 list"

record span_cache =
  sc_in_flight :: "shard_lane list"
  sc_id_high_water :: u64
  sc_shard_capacity :: usize
  sc_span_channel :: "span_record list"
  sc_event_channel :: "event_message list"
  sc_pending_batch :: usize
  sc_layout :: id_layout
  sc_event_pool :: "event_record object_pool"

record thread_state =
  th_stack :: "stacked_span list"
  th_pending_span :: "span_record list"
  th_pending_event :: "event_message list"
  th_shard_key :: u64
  th_id_cursor :: u64

definition thread_new :: thread_state where
  "thread_new = \<lparr>th_stack = [], th_pending_span = [], th_pending_event = [],
     th_shard_key = u64_max, th_id_cursor = 0\<rparr>"

record view =
  vw_cache :: span_cache
  vw_thread :: thread_state
  vw_next_key :: u64

definition cache_new :: "usize \<Rightarrow> cache_config \<Rightarrow> span_cache" where
  "cache_new capacity config =
     (let lane_count = normal_lane_count (cfg_lane_count config);
          shard_capacity = div_ceil capacity lane_count
      in \<lparr>sc_in_flight = replicate lane_count
            \<lparr>ln_slab = [], ln_actual_ids = replicate shard_capacity 0\<rparr>,
          sc_id_high_water = ID_BATCH,
          sc_shard_capacity = shard_capacity,
          sc_span_channel = [], sc_event_channel = [],
          sc_pending_batch = cfg_pending_batch config,
          sc_layout = layout_of lane_count,
          sc_event_pool = object_pool_new lane_count 256\<rparr>)"

section \<open>Thread-local helpers\<close>

definition stack_top :: "view \<Rightarrow> stacked_span option" where
  "stack_top v = (if th_stack (vw_thread v) = [] then None else Some (last (th_stack (vw_thread v))))"

definition stack_push :: "stacked_span \<Rightarrow> view \<Rightarrow> view" where
  "stack_push e v = v\<lparr>vw_thread := (vw_thread v)\<lparr>th_stack := th_stack (vw_thread v) @ [e]\<rparr>\<rparr>"

definition stack_pop :: "view \<Rightarrow> view" where
  "stack_pop v = v\<lparr>vw_thread := (vw_thread v)\<lparr>th_stack := butlast (th_stack (vw_thread v))\<rparr>\<rparr>"

definition pending_push_span :: "span_record \<Rightarrow> view \<Rightarrow> view \<times> usize" where
  "pending_push_span r v =
     (let p = th_pending_span (vw_thread v) @ [r]
      in (v\<lparr>vw_thread := (vw_thread v)\<lparr>th_pending_span := p\<rparr>\<rparr>, length p))"

definition pending_push_event :: "event_message \<Rightarrow> view \<Rightarrow> view \<times> usize" where
  "pending_push_event m v =
     (let p = th_pending_event (vw_thread v) @ [m]
      in (v\<lparr>vw_thread := (vw_thread v)\<lparr>th_pending_event := p\<rparr>\<rparr>, length p))"

definition ensure_thread_shard_key :: "view \<Rightarrow> u64 \<times> view" where
  "ensure_thread_shard_key v =
     (if th_shard_key (vw_thread v) = u64_max
      then (vw_next_key v, v\<lparr>vw_thread := (vw_thread v)\<lparr>th_shard_key := vw_next_key v\<rparr>,
                             vw_next_key := vw_next_key v + 1\<rparr>)
      else (th_shard_key (vw_thread v), v))"

section \<open>Cache helpers\<close>

definition lane_count :: "span_cache \<Rightarrow> usize" where
  "lane_count c = length (sc_in_flight c)"

definition pick_shard :: "view \<Rightarrow> usize \<times> view" where
  "pick_shard v =
     (let (key, v) = ensure_thread_shard_key v
      in (unat (key AND shard_mask (sc_layout (vw_cache v))), v))"

definition next_actual_id :: "view \<Rightarrow> u64 \<times> view" where
  "next_actual_id v =
     (let (i, cursor, hw) = allocate_actual_id (th_id_cursor (vw_thread v)) (sc_id_high_water (vw_cache v))
      in (i, v\<lparr>vw_thread := (vw_thread v)\<lparr>th_id_cursor := cursor\<rparr>,
               vw_cache := (vw_cache v)\<lparr>sc_id_high_water := hw\<rparr>\<rparr>))"

definition load_actual_id :: "span_cache \<Rightarrow> usize \<Rightarrow> usize \<Rightarrow> u64 option" where
  "load_actual_id c shard slab_idx =
     (if shard < length (sc_in_flight c) \<and> slab_idx < length (ln_actual_ids (sc_in_flight c ! shard))
      then Some (ln_actual_ids (sc_in_flight c ! shard) ! slab_idx) else None)"

text \<open>\<open>actual_id_for\<close>: None is the panic, Some None an id that addresses nothing.\<close>

definition actual_id_for :: "span_cache \<Rightarrow> u64 \<Rightarrow> u64 option option" where
  "actual_id_for c tracing_id =
     (case decode_tracing_id (sc_layout c) tracing_id of
        None \<Rightarrow> Some None
      | Some (shard, slab_idx) \<Rightarrow> map_option Some (load_actual_id c shard slab_idx))"

fun drop_refs :: "bool list \<Rightarrow> event_record reuse_ref list \<Rightarrow> event_record object_pool \<Rightarrow> event_record object_pool" where
  "drop_refs luck [] op = op"
| "drop_refs luck (r # rs) op =
     drop_refs (tl luck) rs (ref_drop event_reset (luck \<noteq> [] \<and> hd luck) r op)"

section \<open>Flushing\<close>

definition send_events :: "send_outcome \<Rightarrow> bool list \<Rightarrow> view \<Rightarrow> view" where
  "send_events outcome luck v =
     (let c = vw_cache v; es = th_pending_event (vw_thread v);
          v = v\<lparr>vw_thread := (vw_thread v)\<lparr>th_pending_event := []\<rparr>\<rparr>
      in if es = [] then v
         else case outcome of
                SendOk \<Rightarrow> v\<lparr>vw_cache := c\<lparr>sc_event_channel := sc_event_channel c @ es\<rparr>\<rparr>
              | _ \<Rightarrow> v\<lparr>vw_cache := c\<lparr>sc_event_pool := drop_refs luck (map em_record es) (sc_event_pool c)\<rparr>\<rparr>)"

definition send_spans :: "send_outcome \<Rightarrow> view \<Rightarrow> view" where
  "send_spans outcome v =
     (let c = vw_cache v; ss = th_pending_span (vw_thread v);
          v = v\<lparr>vw_thread := (vw_thread v)\<lparr>th_pending_span := []\<rparr>\<rparr>
      in if ss = [] then v
         else case outcome of
                SendOk \<Rightarrow> v\<lparr>vw_cache := c\<lparr>sc_span_channel := sc_span_channel c @ ss\<rparr>\<rparr>
              | _ \<Rightarrow> v)"

definition flush_pending :: "send_outcome \<Rightarrow> send_outcome \<Rightarrow> bool list \<Rightarrow> view \<Rightarrow> view" where
  "flush_pending ev_out sp_out luck v = send_spans sp_out (send_events ev_out luck v)"

section \<open>The subscriber\<close>

definition sub_max_level_hint :: "level_filter option \<Rightarrow> level_filter option" where
  "sub_max_level_hint hint = hint"

definition register_callsite :: "(metadata \<Rightarrow> interest) \<Rightarrow> metadata \<Rightarrow> interest" where
  "register_callsite callsite md = callsite md"

definition sub_enabled :: "(metadata \<Rightarrow> bool) \<Rightarrow> metadata \<Rightarrow> view \<Rightarrow> bool" where
  "sub_enabled pred md v =
     (case stack_top v of
        Some s \<Rightarrow> if ss_tracing_id s = DISABLED then False else pred md
      | None \<Rightarrow> pred md)"

definition event_enabled :: "(metadata \<Rightarrow> bool) \<Rightarrow> metadata \<Rightarrow> bool" where
  "event_enabled pred md = pred md"

text \<open>Step A of \<open>new_span\<close>: the parent's actual id; \<open>Some None\<close> disables the span.\<close>

definition resolve_parent :: "span_parent \<Rightarrow> view \<Rightarrow> u64 option option option" where
  "resolve_parent parent v =
     (case parent of
        Contextual \<Rightarrow>
          (case stack_top v of
             None \<Rightarrow> Some None
           | Some tp \<Rightarrow> if ss_tracing_id tp = DISABLED then Some None
                          else Some (Some (Some (ss_actual_id tp))))
      | Root \<Rightarrow> (if stack_top v \<noteq> None then Some None else Some (Some None))
      | Explicit i \<Rightarrow>
          (case decode_tracing_id (sc_layout (vw_cache v)) i of
             None \<Rightarrow> Some None
           | Some (shard, slab_idx) \<Rightarrow>
               map_option (\<lambda>a. Some (Some a)) (load_actual_id (vw_cache v) shard slab_idx)))"

text \<open>Step D: the capacity check, the insertion, the sidecar and the id. \<open>Some None\<close> is a full
  shard.\<close>

definition insert_record :: "((usize, span_record) btree \<Rightarrow> usize) \<Rightarrow> usize \<Rightarrow> span_record \<Rightarrow> span_cache
    \<Rightarrow> (u64 \<times> span_cache) option option" where
  "insert_record slot shard r c =
     (if shard \<ge> length (sc_in_flight c) then None
      else let lane = sc_in_flight c ! shard in
        if length (ln_slab lane) \<ge> sc_shard_capacity c then Some None
        else let k = slot (ln_slab lane) in
          if k \<ge> length (ln_actual_ids lane) then None
          else Some (Some (encode_tracing_id (sc_layout c) shard k,
                 c\<lparr>sc_in_flight := (sc_in_flight c)
                     [shard := \<lparr>ln_slab = bt_insert k r (ln_slab lane),
                                ln_actual_ids = (ln_actual_ids lane)[k := sr_id r]\<rparr>]\<rparr>)))"

record attributes =
  at_parent :: span_parent
  at_metadata :: metadata
  at_values :: "(string \<times> visited) list"

definition new_span :: "(span_parent \<Rightarrow> metadata \<Rightarrow> u64 \<Rightarrow> bool) \<Rightarrow> ((usize, span_record) btree \<Rightarrow> usize)
    \<Rightarrow> attributes \<Rightarrow> u64 \<Rightarrow> instant \<Rightarrow> view \<Rightarrow> (u64 \<times> view) option" where
  "new_span pred slot attrs rnd now v =
     (case resolve_parent (at_parent attrs) v of
        None \<Rightarrow> None
      | Some None \<Rightarrow> Some (DISABLED, v)
      | Some (Some parent_actual_id) \<Rightarrow>
          (if \<not> pred (at_parent attrs) (at_metadata attrs) rnd then Some (DISABLED, v)
           else
             let (actual_id, v) = next_actual_id v;
                 r = \<lparr>sr_id = actual_id, sr_parent_id = parent_actual_id,
                      sr_metadata = at_metadata attrs, sr_fields = visit_all (at_values attrs) [],
                      sr_events = [], sr_opened_at = now, sr_closed_at = None\<rparr>;
                 (shard, v) = pick_shard v
             in case insert_record slot shard r (vw_cache v) of
                  None \<Rightarrow> None
                | Some None \<Rightarrow> Some (DISABLED, v)
                | Some (Some (tracing_id, c)) \<Rightarrow> Some (tracing_id, v\<lparr>vw_cache := c\<rparr>)))"

definition record_fields :: "u64 \<Rightarrow> (string \<times> visited) list \<Rightarrow> view \<Rightarrow> view option" where
  "record_fields i values v =
     (let c = vw_cache v in
      case decode_tracing_id (sc_layout c) i of
        None \<Rightarrow> Some v
      | Some (shard, slab_idx) \<Rightarrow>
          (if shard \<ge> length (sc_in_flight c) then None
           else let lane = sc_in_flight c ! shard in
             case bt_get (ln_slab lane) slab_idx of
               None \<Rightarrow> Some v
             | Some r \<Rightarrow> Some (v\<lparr>vw_cache := c\<lparr>sc_in_flight := (sc_in_flight c)
                 [shard := lane\<lparr>ln_slab := bt_insert slab_idx
                    (r\<lparr>sr_fields := visit_all values (sr_fields r)\<rparr>) (ln_slab lane)\<rparr>]\<rparr>\<rparr>)))"

text \<open>The parent of an event: \<open>Some None\<close> drops the event.\<close>

definition event_parent :: "u64 option \<Rightarrow> view \<Rightarrow> u64 option option" where
  "event_parent parent v =
     (case parent of
        Some tracing_id \<Rightarrow>
          (if tracing_id = DISABLED then Some None
           else case decode_tracing_id (sc_layout (vw_cache v)) tracing_id of
                  None \<Rightarrow> Some None
                | Some (shard, slab_idx) \<Rightarrow> map_option Some (load_actual_id (vw_cache v) shard slab_idx))
      | None \<Rightarrow>
          (case stack_top v of
             None \<Rightarrow> Some None
           | Some tp \<Rightarrow> if ss_tracing_id tp = DISABLED then Some None else Some (Some (ss_actual_id tp))))"

definition record_event :: "u64 option \<Rightarrow> metadata \<Rightarrow> (string \<times> visited) list \<Rightarrow> instant \<Rightarrow> bool
    \<Rightarrow> send_outcome \<Rightarrow> send_outcome \<Rightarrow> bool list \<Rightarrow> view \<Rightarrow> view option" where
  "record_event parent md values now locked ev_out sp_out luck v =
     (case event_parent parent v of
        None \<Rightarrow> None
      | Some None \<Rightarrow> Some v
      | Some (Some parent_actual_id) \<Rightarrow>
          (let (key, v) = ensure_thread_shard_key v;
               (r, op) = acquire event_default key locked (sc_event_pool (vw_cache v));
               v = v\<lparr>vw_cache := (vw_cache v)\<lparr>sc_event_pool := op\<rparr>\<rparr>;
               r = r\<lparr>rr_value := (rr_value r)\<lparr>er_metadata := Some md, er_recorded_at := Some now,
                       er_fields := visit_all values []\<rparr>\<rparr>;
               (v, n) = pending_push_event \<lparr>em_parent_actual_id = parent_actual_id, em_record = r\<rparr> v
           in Some (if n \<ge> sc_pending_batch (vw_cache v) then flush_pending ev_out sp_out luck v else v)))"

definition enter :: "u64 \<Rightarrow> view \<Rightarrow> view option" where
  "enter tracing_id v =
     (case decode_tracing_id (sc_layout (vw_cache v)) tracing_id of
        None \<Rightarrow> Some (stack_push \<lparr>ss_tracing_id = tracing_id, ss_actual_id = 0\<rparr> v)
      | Some (shard, slab_idx) \<Rightarrow>
          map_option (\<lambda>a. stack_push \<lparr>ss_tracing_id = tracing_id, ss_actual_id = a\<rparr> v)
            (load_actual_id (vw_cache v) shard slab_idx))"

definition exit_span :: "u64 \<Rightarrow> view \<Rightarrow> view" where
  "exit_span _ v = stack_pop v"

definition try_close :: "u64 \<Rightarrow> instant \<Rightarrow> send_outcome \<Rightarrow> send_outcome \<Rightarrow> bool list \<Rightarrow> view
    \<Rightarrow> (bool \<times> view) option" where
  "try_close i now ev_out sp_out luck v =
     (let c = vw_cache v in
      case decode_tracing_id (sc_layout c) i of
        None \<Rightarrow> Some (False, v)
      | Some (shard, slab_idx) \<Rightarrow>
          (if shard \<ge> length (sc_in_flight c) then None
           else let lane = sc_in_flight c ! shard in
             case bt_get (ln_slab lane) slab_idx of
               None \<Rightarrow> Some (False, v)
             | Some r \<Rightarrow>
                 (let v = v\<lparr>vw_cache := c\<lparr>sc_in_flight := (sc_in_flight c)
                              [shard := lane\<lparr>ln_slab := bt_remove slab_idx (ln_slab lane)\<rparr>]\<rparr>\<rparr>;
                      (v, n) = pending_push_span (r\<lparr>sr_closed_at := Some now\<rparr>) v
                  in Some (True, if n \<ge> sc_pending_batch (vw_cache v)
                                 then flush_pending ev_out sp_out luck v else v))))"

end
