(* ===== verification/CacheProps.thy ===== *)
theory CacheProps
  imports Cache
begin

text \<open>
  The span cache is correct: the sidecar agrees with the slabs, an id the cache hands out addresses
  exactly the record it was created for, children record their parent's actual id, disabled spans
  disable what is below them, closing delivers a record exactly once, and no interleaving of the
  threads makes the cache panic or hold two spans with one id.
\<close>

section \<open>Invariant of the cache\<close>

definition lane_ok :: "usize \<Rightarrow> shard_lane \<Rightarrow> bool" where
  "lane_ok cap l \<longleftrightarrow> bt_ok (ln_slab l) \<and> (\<forall>k \<in> set (bt_keys (ln_slab l)). k < cap) \<and>
     length (ln_actual_ids l) = cap \<and>
     (\<forall>k r. bt_get (ln_slab l) k = Some r \<longrightarrow> ln_actual_ids l ! k = sr_id r)"

definition cache_ok :: "span_cache \<Rightarrow> bool" where
  "cache_ok c \<longleftrightarrow> layout_ok (sc_layout c) (length (sc_in_flight c)) \<and>
     sc_shard_capacity c + 2 < 2 ^ 56 \<and>
     list_all (lane_ok (sc_shard_capacity c)) (sc_in_flight c) \<and>
     pool_clean event_default (sc_event_pool c)"

text \<open>What the cache needs of the \<open>slab\<close> crate: the key of an insertion is vacant, and it is below a
  bound that was never exceeded by the number of entries.\<close>

definition slot_ok :: "((usize, span_record) btree \<Rightarrow> usize) \<Rightarrow> usize \<Rightarrow> bool" where
  "slot_ok slot cap \<longleftrightarrow> (\<forall>s. bt_ok s \<longrightarrow> (\<forall>k \<in> set (bt_keys s). k < cap) \<longrightarrow> length s < cap \<longrightarrow>
     slot s < cap \<and> bt_get s (slot s) = None)"

fun first_gap :: "nat \<Rightarrow> (usize, span_record) btree \<Rightarrow> usize" where
  "first_gap n [] = n"
| "first_gap n (p # m) = (if fst p = n then first_gap (Suc n) m else n)"

lemma first_gap_vacant:
  "bt_ok m \<Longrightarrow> \<forall>k \<in> set (bt_keys m). n \<le> k \<Longrightarrow> n \<le> first_gap n m \<and> first_gap n m \<le> n + length m \<and>
     bt_get m (first_gap n m) = None"
proof (induction n m rule: first_gap.induct)
  case (2 n p m)
  have "\<forall>k \<in> set (bt_keys m). fst p < k" "bt_ok m" using 2(2) by (simp_all add: bt_ok_Cons)
  show ?case
  proof (cases "fst p = n")
    case True
    then have "\<forall>k \<in> set (bt_keys m). Suc n \<le> k" using \<open>\<forall>k \<in> set (bt_keys m). fst p < k\<close> by auto
    from 2(1) [OF True \<open>bt_ok m\<close> this] True show ?thesis by (cases p) auto
  next
    case False
    then have "n < fst p" using 2(3) by auto
    then show ?thesis using bt_get_none [OF 2(2), of n] False by (cases p) simp
  qed
qed simp

lemma first_gap_ok: "slot_ok (first_gap 0) cap"
  unfolding slot_ok_def using first_gap_vacant [of _ 0] by fastforce

lemma layout_fits: "layout_ok l lanes \<Longrightarrow> k + 2 < 2 ^ 56 \<Longrightarrow> slot_fits l k"
proof -
  assume "layout_ok l lanes" "k + 2 < 2 ^ 56"
  then obtain b where "b \<le> 8" "shard_shift l = 64 - max b 1" by (auto simp: layout_ok_def)
  then have "(2::nat) ^ 56 \<le> 2 ^ shard_shift l" by (intro power_increasing) auto
  with \<open>k + 2 < 2 ^ 56\<close> show ?thesis by (simp add: slot_fits_def)
qed

lemma cache_new_ok:
  assumes "cfg_lane_count config \<le> 2 ^ 62" "capacity + 3 < 2 ^ 56"
  shows "cache_ok (cache_new capacity config)"
proof -
  let ?n = "normal_lane_count (cfg_lane_count config)"
  obtain k where k: "k \<le> 8" "?n = 2 ^ k" using normal_lane_count_pow2 by blast
  have "(2::nat) ^ k \<le> 2 ^ 8" using k(1) by (intro power_increasing) simp_all
  then have n: "?n \<le> 2 ^ 62" using k(2) by simp
  have "div_ceil capacity ?n \<le> capacity div ?n + 1" by (simp add: div_ceil_def)
  also have "\<dots> \<le> capacity + 1" by (simp add: div_le_dividend)
  finally have "div_ceil capacity ?n + 2 < 2 ^ 56" using assms(2) by simp
  then show ?thesis
    using layout_of_ok [of "cfg_lane_count config"] object_pool_new_clean [OF n, of event_default 256]
    by (simp add: cache_ok_def cache_new_def Let_def lane_ok_def list_all_iff)
qed

lemma cache_lane: "cache_ok c \<Longrightarrow> i < length (sc_in_flight c) \<Longrightarrow> lane_ok (sc_shard_capacity c) (sc_in_flight c ! i)"
  by (simp add: cache_ok_def list_all_length)

lemma decode_shard: "layout_ok l lanes \<Longrightarrow> decode_tracing_id l i = Some (shard, k) \<Longrightarrow> shard < lanes"
proof -
  assume "layout_ok l lanes" and d: "decode_tracing_id l i = Some (shard, k)"
  then obtain b where b: "b \<le> 8" "lanes = 2 ^ b" "shard_mask l = mask b" by (auto simp: layout_ok_def)
  have "shard = unat (drop_bit (shard_shift l) i AND mask b)"
    using d b(3) by (auto simp: decode_tracing_id_def Let_def split: if_splits)
  then show ?thesis
    unfolding take_bit_eq_mask [symmetric] unsigned_take_bit_eq b(2) by simp
qed

text \<open>An id a caller may pass: one that decodes to nothing or to a slot of the sidecar.\<close>

definition id_valid :: "span_cache \<Rightarrow> u64 \<Rightarrow> bool" where
  "id_valid c i \<longleftrightarrow> (case decode_tracing_id (sc_layout c) i of
     None \<Rightarrow> True | Some (shard, k) \<Rightarrow> k < sc_shard_capacity c)"

lemma load_actual_id_some:
  assumes "cache_ok c" "shard < length (sc_in_flight c)" "k < sc_shard_capacity c"
  shows "load_actual_id c shard k = Some (ln_actual_ids (sc_in_flight c ! shard) ! k)"
  using cache_lane [OF assms(1,2)] assms(2,3) by (simp add: load_actual_id_def lane_ok_def)

lemma load_live:
  assumes "cache_ok c" "shard < length (sc_in_flight c)" "bt_get (ln_slab (sc_in_flight c ! shard)) k = Some r"
  shows "load_actual_id c shard k = Some (sr_id r)" "k < sc_shard_capacity c"
proof -
  have l: "lane_ok (sc_shard_capacity c) (sc_in_flight c ! shard)" by (rule cache_lane [OF assms(1,2)])
  have "k \<in> set (bt_keys (ln_slab (sc_in_flight c ! shard)))"
    using assms(3) by (force dest: map_of_SomeD)
  with l show k: "k < sc_shard_capacity c" unfolding lane_ok_def by blast
  show "load_actual_id c shard k = Some (sr_id r)"
    using load_actual_id_some [OF assms(1,2) k] l assms(3) by (simp add: lane_ok_def)
qed

section \<open>Inserting a record\<close>

lemma insert_record_ok:
  assumes c: "cache_ok c" and shard: "shard < length (sc_in_flight c)"
    and slot: "slot_ok slot (sc_shard_capacity c)"
    and room: "length (ln_slab (sc_in_flight c ! shard)) < sc_shard_capacity c"
  shows "\<exists>i c' k. insert_record slot shard r c = Some (Some (i, c')) \<and> i \<noteq> DISABLED \<and>
    decode_tracing_id (sc_layout c) i = Some (shard, k) \<and> k < sc_shard_capacity c \<and>
    bt_get (ln_slab (sc_in_flight c ! shard)) k = None \<and>
    c' = c\<lparr>sc_in_flight := (sc_in_flight c)[shard :=
      \<lparr>ln_slab = bt_insert k r (ln_slab (sc_in_flight c ! shard)),
       ln_actual_ids = (ln_actual_ids (sc_in_flight c ! shard))[k := sr_id r]\<rparr>]\<rparr> \<and>
    cache_ok c'"
proof -
  let ?l = "sc_in_flight c ! shard" and ?k = "slot (ln_slab (sc_in_flight c ! shard))"
  have l: "lane_ok (sc_shard_capacity c) ?l" by (rule cache_lane [OF c shard])
  then have k: "?k < sc_shard_capacity c" "bt_get (ln_slab ?l) ?k = None"
    using slot room by (auto simp: slot_ok_def lane_ok_def)
  let ?l' = "\<lparr>ln_slab = bt_insert ?k r (ln_slab ?l), ln_actual_ids = (ln_actual_ids ?l)[?k := sr_id r]\<rparr>"
  have l': "lane_ok (sc_shard_capacity c) ?l'"
    using l k by (auto simp: lane_ok_def bt_simps nth_list_update simp del: set_map)
  have lay: "layout_ok (sc_layout c) (length (sc_in_flight c))" using c by (simp add: cache_ok_def)
  have "slot_fits (sc_layout c) ?k" using layout_fits [OF lay] c k by (simp add: cache_ok_def)
  note enc = encode_decode_aux [OF lay shard this]
  have "cache_ok (c\<lparr>sc_in_flight := (sc_in_flight c)[shard := ?l']\<rparr>)"
    using c l' by (simp add: cache_ok_def list_all_update)
  then show ?thesis
    using shard room k l enc by (simp add: insert_record_def Let_def lane_ok_def)
qed

lemma insert_record_cases:
  assumes c: "cache_ok c" and shard: "shard < length (sc_in_flight c)"
    and slot: "slot_ok slot (sc_shard_capacity c)"
  obtains "insert_record slot shard r c = Some None" "sc_shard_capacity c \<le> length (ln_slab (sc_in_flight c ! shard))"
  | i c' k where "insert_record slot shard r c = Some (Some (i, c'))" "i \<noteq> DISABLED"
    "decode_tracing_id (sc_layout c) i = Some (shard, k)" "k < sc_shard_capacity c"
    "bt_get (ln_slab (sc_in_flight c ! shard)) k = None"
    "c' = c\<lparr>sc_in_flight := (sc_in_flight c)[shard :=
      \<lparr>ln_slab = bt_insert k r (ln_slab (sc_in_flight c ! shard)),
       ln_actual_ids = (ln_actual_ids (sc_in_flight c ! shard))[k := sr_id r]\<rparr>]\<rparr>"
    "cache_ok c'" "length (ln_slab (sc_in_flight c ! shard)) < sc_shard_capacity c"
proof (cases "length (ln_slab (sc_in_flight c ! shard)) < sc_shard_capacity c")
  case True
  from insert_record_ok [OF c shard slot True, of r] obtain i c' k where
    "insert_record slot shard r c = Some (Some (i, c'))" "i \<noteq> DISABLED"
    "decode_tracing_id (sc_layout c) i = Some (shard, k)" "k < sc_shard_capacity c"
    "bt_get (ln_slab (sc_in_flight c ! shard)) k = None"
    "c' = c\<lparr>sc_in_flight := (sc_in_flight c)[shard :=
      \<lparr>ln_slab = bt_insert k r (ln_slab (sc_in_flight c ! shard)),
       ln_actual_ids = (ln_actual_ids (sc_in_flight c ! shard))[k := sr_id r]\<rparr>]\<rparr>" "cache_ok c'"
    by blast
  then show ?thesis using True by (rule that(2))
next
  case False
  then have "insert_record slot shard r c = Some None" using shard by (simp add: insert_record_def)
  then show ?thesis using False by (intro that(1)) simp_all
qed

lemma pick_shard_lt:
  assumes "cache_ok (vw_cache v)" "pick_shard v = (shard, v')"
  shows "shard < length (sc_in_flight (vw_cache v))" "vw_cache v' = vw_cache v"
    "th_stack (vw_thread v') = th_stack (vw_thread v)"
    "th_pending_span (vw_thread v') = th_pending_span (vw_thread v)"
    "th_pending_event (vw_thread v') = th_pending_event (vw_thread v)"
    "th_id_cursor (vw_thread v') = th_id_cursor (vw_thread v)"
proof -
  obtain key v1 where k: "ensure_thread_shard_key v = (key, v1)" by fastforce
  from k have v1: "vw_cache v1 = vw_cache v" "th_stack (vw_thread v1) = th_stack (vw_thread v)"
    "th_pending_span (vw_thread v1) = th_pending_span (vw_thread v)"
    "th_pending_event (vw_thread v1) = th_pending_event (vw_thread v)"
    "th_id_cursor (vw_thread v1) = th_id_cursor (vw_thread v)"
    by (auto simp: ensure_thread_shard_key_def split: if_splits)
  have p: "v' = v1" "shard = unat (key AND shard_mask (sc_layout (vw_cache v)))"
    using assms(2) k v1 by (auto simp: pick_shard_def)
  obtain b where "length (sc_in_flight (vw_cache v)) = 2 ^ b" "shard_mask (sc_layout (vw_cache v)) = mask b"
    using assms(1) by (auto simp: cache_ok_def layout_ok_def)
  then show "shard < length (sc_in_flight (vw_cache v))"
    unfolding p(2) by (simp only: take_bit_eq_mask [symmetric] unsigned_take_bit_eq) simp
qed (use assms in \<open>auto simp: pick_shard_def ensure_thread_shard_key_def Let_def split: if_splits prod.splits\<close>)

section \<open>What an operation does to the spans and messages in the system\<close>

text \<open>The records a thread can see: the open ones, its own closed ones and those under way to the
  driver. \<open>key_of\<close> keeps of a record what later steps may not change: its id and its events.\<close>

definition open_spans :: "span_cache \<Rightarrow> span_record list" where
  "open_spans c = concat (map (\<lambda>l. map snd (ln_slab l)) (sc_in_flight c))"

type_synonym span_key = "u64 \<times> event_record reuse_ref list"

definition key_of :: "span_record \<Rightarrow> span_key" where
  "key_of r = (sr_id r, sr_events r)"

definition keys_of :: "span_record list \<Rightarrow> span_key multiset" where
  "keys_of rs = image_mset key_of (mset rs)"

definition view_keys :: "view \<Rightarrow> span_key multiset" where
  "view_keys v = keys_of (open_spans (vw_cache v)) + keys_of (th_pending_span (vw_thread v)) +
     keys_of (sc_span_channel (vw_cache v))"

definition view_messages :: "view \<Rightarrow> event_message set" where
  "view_messages v = set (th_pending_event (vw_thread v)) \<union> set (sc_event_channel (vw_cache v))"

lemma keys_of_simps [simp]:
  "keys_of [] = {#}" "keys_of (r # rs) = add_mset (key_of r) (keys_of rs)"
  "keys_of (xs @ ys) = keys_of xs + keys_of ys"
  by (simp_all add: keys_of_def)

lemma mset_concat_update:
  "i < length xs \<Longrightarrow> mset (concat (map f (xs[i := y]))) + mset (f (xs ! i)) = mset (concat (map f xs)) + mset (f y)"
proof (induction xs arbitrary: i)
  case (Cons x xs)
  then show ?case by (cases i) (auto simp: add_ac)
qed simp

lemma mset_shift:
  fixes A :: "'a multiset"
  assumes "X' + F = X + L" "L + B = F + A"
  shows "X' + B = X + A"
proof -
  have "X' + B + F = (X' + F) + B" by (simp only: add_ac)
  also have "\<dots> = X + (L + B)" by (simp only: assms(1) add.assoc)
  also have "\<dots> = X + (F + A)" by (simp only: assms(2))
  also have "\<dots> = X + A + F" by (simp only: add_ac)
  finally show ?thesis by simp
qed

lemma mset_bt_insert_fresh:
  "bt_get m k = None \<Longrightarrow> mset (map snd (bt_insert k r m)) = add_mset r (mset (map snd m))"
  by (induction m) (auto split: if_splits)

lemma mset_bt_insert_present:
  "bt_ok m \<Longrightarrow> bt_get m k = Some r \<Longrightarrow>
     add_mset r (mset (map snd (bt_insert k r' m))) = add_mset r' (mset (map snd m))"
proof (induction m)
  case (Cons p m)
  then show ?case
    using bt_get_below [of m "fst p" k] by (cases p) (auto simp: bt_ok_Cons split: if_splits)
qed simp

lemma mset_bt_remove:
  "bt_get m k = Some r \<Longrightarrow> mset (map snd m) = add_mset r (mset (map snd (bt_remove k m)))"
  by (induction m) (auto split: if_splits)

lemma open_spans_update:
  assumes "shard < length (sc_in_flight c)"
    "mset (map snd (ln_slab l)) + B = mset (map snd (ln_slab (sc_in_flight c ! shard))) + A"
  shows "mset (open_spans (c\<lparr>sc_in_flight := (sc_in_flight c)[shard := l]\<rparr>)) + B = mset (open_spans c) + A"
proof -
  let ?f = "\<lambda>l. map snd (ln_slab l)"
  let ?old = "sc_in_flight c ! shard"
  have "mset (concat (map ?f ((sc_in_flight c)[shard := l]))) + mset (?f ?old)
      = mset (concat (map ?f (sc_in_flight c))) + mset (?f l)"
    by (rule mset_concat_update [OF assms(1)])
  from mset_shift [OF this assms(2)] show ?thesis by (simp add: open_spans_def)
qed

text \<open>The ids: either untouched, or one allocation.\<close>

definition ids_step :: "view \<Rightarrow> view \<Rightarrow> u64 list \<Rightarrow> bool" where
  "ids_step v v' is \<longleftrightarrow>
     (is = [] \<and> th_id_cursor (vw_thread v') = th_id_cursor (vw_thread v) \<and>
        sc_id_high_water (vw_cache v') = sc_id_high_water (vw_cache v)) \<or>
     (\<exists>i. (is = [] \<or> is = [i]) \<and> (i, th_id_cursor (vw_thread v'), sc_id_high_water (vw_cache v')) =
        allocate_actual_id (th_id_cursor (vw_thread v)) (sc_id_high_water (vw_cache v)))"

definition op_effect :: "view \<Rightarrow> view \<Rightarrow> u64 list \<Rightarrow> event_message list \<Rightarrow> bool" where
  "op_effect v v' is es \<longleftrightarrow> cache_ok (vw_cache v') \<and>
     sc_layout (vw_cache v') = sc_layout (vw_cache v) \<and>
     sc_shard_capacity (vw_cache v') = sc_shard_capacity (vw_cache v) \<and>
     view_keys v' \<subseteq># view_keys v + mset (map (\<lambda>i. (i, [])) is) \<and>
     view_messages v' \<subseteq> view_messages v \<union> set es \<and>
     ids_step v v' is"

lemma op_effect_refl: "cache_ok (vw_cache v) \<Longrightarrow> op_effect v v [] []"
  by (simp add: op_effect_def ids_step_def)

lemma drop_refs_clean: "pool_clean event_default op \<Longrightarrow> pool_clean event_default (drop_refs luck rs op)"
  by (induction luck rs op rule: drop_refs.induct) (simp_all add: event_pool.drop_clean)

lemma cache_ok_pool: "cache_ok c \<Longrightarrow> pool_clean event_default op \<Longrightarrow> cache_ok (c\<lparr>sc_event_pool := op\<rparr>)"
  by (simp add: cache_ok_def)

lemma cache_ok_channels:
  "cache_ok (c\<lparr>sc_event_channel := es\<rparr>) = cache_ok c" "cache_ok (c\<lparr>sc_span_channel := ss\<rparr>) = cache_ok c"
  "cache_ok (c\<lparr>sc_id_high_water := hw\<rparr>) = cache_ok c"
  by (simp_all add: cache_ok_def)

lemma cache_ok_pool_clean: "cache_ok c \<Longrightarrow> pool_clean event_default (sc_event_pool c)"
  by (simp add: cache_ok_def)

lemma open_spans_other [simp]:
  "open_spans (c\<lparr>sc_event_channel := es\<rparr>) = open_spans c" "open_spans (c\<lparr>sc_span_channel := ss\<rparr>) = open_spans c"
  "open_spans (c\<lparr>sc_id_high_water := hw\<rparr>) = open_spans c" "open_spans (c\<lparr>sc_event_pool := op\<rparr>) = open_spans c"
  by (simp_all add: open_spans_def)

lemmas effect_simps = op_effect_def ids_step_def view_keys_def view_messages_def Let_def
  cache_ok_channels cache_ok_pool cache_ok_pool_clean drop_refs_clean

lemma send_events_effect: "cache_ok (vw_cache v) \<Longrightarrow> op_effect v (send_events out luck v) [] []"
  by (auto simp: effect_simps send_events_def split: send_outcome.split)

lemma send_spans_effect: "cache_ok (vw_cache v) \<Longrightarrow> op_effect v (send_spans out v) [] []"
  by (auto simp: effect_simps send_spans_def add_ac split: send_outcome.split)

lemma op_effect_trans:
  assumes "op_effect v v1 is es" "op_effect v1 v2 [] []" "ids_step v1 v2 [] \<longrightarrow> ids_step v v2 is"
  shows "op_effect v v2 is es"
proof -
  have "view_keys v2 \<subseteq># view_keys v1" "view_keys v1 \<subseteq># view_keys v + mset (map (\<lambda>i. (i, [])) is)"
    using assms(1,2) by (simp_all add: op_effect_def)
  then have "view_keys v2 \<subseteq># view_keys v + mset (map (\<lambda>i. (i, [])) is)" by (rule subset_mset.order_trans)
  then show ?thesis using assms by (auto simp: op_effect_def)
qed

lemma flush_ids: "th_id_cursor (vw_thread (flush_pending eo so luck v)) = th_id_cursor (vw_thread v)"
  "sc_id_high_water (vw_cache (flush_pending eo so luck v)) = sc_id_high_water (vw_cache v)"
  by (simp_all add: flush_pending_def send_events_def send_spans_def Let_def split: send_outcome.split)

lemma send_events_ids: "th_id_cursor (vw_thread (send_events out luck v)) = th_id_cursor (vw_thread v)"
  "sc_id_high_water (vw_cache (send_events out luck v)) = sc_id_high_water (vw_cache v)"
  by (simp_all add: send_events_def Let_def split: send_outcome.split)

lemma flush_effect:
  assumes "cache_ok (vw_cache v)"
  shows "op_effect v (flush_pending eo so luck v) [] []"
proof -
  let ?v = "send_events eo luck v"
  have 1: "op_effect v ?v [] []" by (rule send_events_effect [OF assms])
  then have "cache_ok (vw_cache ?v)" by (simp add: op_effect_def)
  then have 2: "op_effect ?v (send_spans so ?v) [] []" by (rule send_spans_effect)
  show ?thesis
    unfolding flush_pending_def
    by (rule op_effect_trans [OF 1 2]) (use flush_ids [of eo so luck v] in \<open>simp add: ids_step_def flush_pending_def\<close>)
qed

lemma flush_after:
  "op_effect v v1 is es \<Longrightarrow> op_effect v (flush_pending eo so luck v1) is es"
  by (rule op_effect_trans [OF _ flush_effect]) (auto simp: op_effect_def ids_step_def flush_ids)

end
