(* ===== verification/CacheOps.thy ===== *)
theory CacheOps
  imports CacheProps
begin

text \<open>
  Each method of the subscriber: that it returns, keeps the invariant, what it adds to the spans and
  messages in the system (\<open>op_effect\<close>), and what a caller sees of it.
\<close>

section \<open>The record an id addresses\<close>

definition span_at :: "span_cache \<Rightarrow> u64 \<Rightarrow> span_record option" where
  "span_at c i =
     (case decode_tracing_id (sc_layout c) i of
        None \<Rightarrow> None
      | Some (shard, k) \<Rightarrow>
          (if shard < length (sc_in_flight c) then bt_get (ln_slab (sc_in_flight c ! shard)) k else None))"

lemma cache_layout: "cache_ok c \<Longrightarrow> layout_ok (sc_layout c) (length (sc_in_flight c))"
  by (simp add: cache_ok_def)

lemma cache_decode:
  "cache_ok c \<Longrightarrow> decode_tracing_id (sc_layout c) i = Some (shard, k) \<Longrightarrow> shard < length (sc_in_flight c)"
  by (rule decode_shard [OF cache_layout])

lemma span_atD:
  assumes "cache_ok c" "span_at c i = Some r"
  shows "\<exists>shard k. decode_tracing_id (sc_layout c) i = Some (shard, k) \<and> shard < length (sc_in_flight c) \<and>
    k < sc_shard_capacity c \<and> bt_get (ln_slab (sc_in_flight c ! shard)) k = Some r \<and>
    load_actual_id c shard k = Some (sr_id r)"
  using assms load_live [OF assms(1)] by (auto simp: span_at_def split: option.splits if_splits)

lemma span_at_valid: "cache_ok c \<Longrightarrow> span_at c i = Some r \<Longrightarrow> id_valid c i"
  using span_atD by (fastforce simp: id_valid_def)

lemma span_at_not_disabled: "cache_ok c \<Longrightarrow> span_at c i = Some r \<Longrightarrow> i \<noteq> DISABLED"
  by (auto simp: span_at_def decode_tracing_id_def)

lemma load_valid:
  assumes "cache_ok c" "id_valid c i" "decode_tracing_id (sc_layout c) i = Some (shard, k)"
  shows "\<exists>a. load_actual_id c shard k = Some a"
  using load_actual_id_some [OF assms(1) cache_decode [OF assms(1,3)]] assms(2,3) by (simp add: id_valid_def)

section \<open>Creating spans\<close>

definition parent_valid :: "span_cache \<Rightarrow> span_parent \<Rightarrow> bool" where
  "parent_valid c p = (case p of Explicit i \<Rightarrow> id_valid c i | _ \<Rightarrow> True)"

lemma resolve_parent_returns:
  "cache_ok (vw_cache v) \<Longrightarrow> parent_valid (vw_cache v) p \<Longrightarrow> resolve_parent p v \<noteq> None"
  by (auto simp: resolve_parent_def parent_valid_def split: span_parent.split option.split dest: load_valid)

lemma next_actual_id_effect:
  assumes "next_actual_id v = (i, v')"
  shows "(i, th_id_cursor (vw_thread v'), sc_id_high_water (vw_cache v')) =
      allocate_actual_id (th_id_cursor (vw_thread v)) (sc_id_high_water (vw_cache v))"
    and "vw_cache v' = (vw_cache v)\<lparr>sc_id_high_water := sc_id_high_water (vw_cache v')\<rparr>"
    and "th_stack (vw_thread v') = th_stack (vw_thread v)"
    "th_pending_span (vw_thread v') = th_pending_span (vw_thread v)"
    "th_pending_event (vw_thread v') = th_pending_event (vw_thread v)"
    "th_shard_key (vw_thread v') = th_shard_key (vw_thread v)" "vw_next_key v' = vw_next_key v"
  using assms by (auto simp: next_actual_id_def split: prod.splits)

definition shard_full :: "view \<Rightarrow> bool" where
  "shard_full v \<longleftrightarrow> sc_shard_capacity (vw_cache v) \<le> length (ln_slab (sc_in_flight (vw_cache v) ! fst (pick_shard v)))"

definition span_made :: "(span_parent \<Rightarrow> metadata \<Rightarrow> u64 \<Rightarrow> bool) \<Rightarrow> attributes \<Rightarrow> u64 \<Rightarrow> instant \<Rightarrow> view \<Rightarrow> view
    \<Rightarrow> u64 \<Rightarrow> span_record \<Rightarrow> bool" where
  "span_made pred attrs rnd now v v' i r \<longleftrightarrow>
     i \<noteq> DISABLED \<and> pred (at_parent attrs) (at_metadata attrs) rnd \<and> \<not> shard_full v \<and>
     span_at (vw_cache v) i = None \<and> span_at (vw_cache v') i = Some r \<and>
     (\<forall>j. decode_tracing_id (sc_layout (vw_cache v)) j \<noteq> decode_tracing_id (sc_layout (vw_cache v)) i \<longrightarrow>
        span_at (vw_cache v') j = span_at (vw_cache v) j) \<and>
     actual_id_for (vw_cache v') i = Some (Some (sr_id r)) \<and>
     sr_id r = fst (allocate_actual_id (th_id_cursor (vw_thread v)) (sc_id_high_water (vw_cache v))) \<and>
     resolve_parent (at_parent attrs) v = Some (Some (sr_parent_id r)) \<and>
     sr_metadata r = at_metadata attrs \<and> sr_fields r = visit_all (at_values attrs) [] \<and>
     sr_events r = [] \<and> sr_opened_at r = now \<and> sr_closed_at r = None"

lemma span_madeD:
  "span_made pred attrs rnd now v v' i r \<Longrightarrow> i \<noteq> DISABLED \<and> pred (at_parent attrs) (at_metadata attrs) rnd \<and>
     \<not> shard_full v \<and> resolve_parent (at_parent attrs) v \<noteq> Some None"
  by (simp add: span_made_def)

lemma insert_record_view:
  assumes c: "cache_ok c" and shard: "shard < length (sc_in_flight c)"
    and i: "decode_tracing_id (sc_layout c) i = Some (shard, k)" "k < sc_shard_capacity c"
    and vacant: "bt_get (ln_slab (sc_in_flight c ! shard)) k = None"
    and c': "c' = c\<lparr>sc_in_flight := (sc_in_flight c)[shard :=
      \<lparr>ln_slab = bt_insert k r (ln_slab (sc_in_flight c ! shard)),
       ln_actual_ids = (ln_actual_ids (sc_in_flight c ! shard))[k := sr_id r]\<rparr>]\<rparr>"
  shows "span_at c i = None" "span_at c' i = Some r"
    "\<forall>j. decode_tracing_id (sc_layout c) j \<noteq> decode_tracing_id (sc_layout c) i \<longrightarrow> span_at c' j = span_at c j"
    "actual_id_for c' i = Some (Some (sr_id r))"
    "keys_of (open_spans c') = add_mset (key_of r) (keys_of (open_spans c))"
proof -
  have l: "lane_ok (sc_shard_capacity c) (sc_in_flight c ! shard)" by (rule cache_lane [OF c shard])
  then have ok: "bt_ok (ln_slab (sc_in_flight c ! shard))" by (simp add: lane_ok_def)
  show "span_at c i = None" using i vacant by (simp add: span_at_def)
  show "span_at c' i = Some r" using i shard ok by (simp add: span_at_def c' bt_simps)
  show "\<forall>j. decode_tracing_id (sc_layout c) j \<noteq> decode_tracing_id (sc_layout c) i \<longrightarrow> span_at c' j = span_at c j"
    using i ok shard by (auto simp: span_at_def c' bt_simps nth_list_update split: option.split)
  show "actual_id_for c' i = Some (Some (sr_id r))"
    using i shard l by (simp add: actual_id_for_def load_actual_id_def c' lane_ok_def)
  have "mset (open_spans c') + {#} = mset (open_spans c) + {#r#}"
    unfolding c'
    by (rule open_spans_update [OF shard]) (use mset_bt_insert_fresh [OF vacant, of r] in simp)
  then show "keys_of (open_spans c') = add_mset (key_of r) (keys_of (open_spans c))"
    by (simp add: keys_of_def)
qed

lemma span_at_high_water [simp]: "span_at (c\<lparr>sc_id_high_water := hw\<rparr>) i = span_at c i"
  by (auto simp: span_at_def split: option.split)

lemma new_span_cases:
  assumes c: "cache_ok (vw_cache v)" and p: "parent_valid (vw_cache v) (at_parent attrs)"
    and slot: "slot_ok slot (sc_shard_capacity (vw_cache v))"
  shows "\<exists>i v' is. new_span pred slot attrs rnd now v = Some (i, v') \<and> op_effect v v' is [] \<and>
    th_stack (vw_thread v') = th_stack (vw_thread v) \<and>
    (i = DISABLED \<and> (resolve_parent (at_parent attrs) v = Some None \<or>
         \<not> pred (at_parent attrs) (at_metadata attrs) rnd \<or> shard_full v) \<and>
       (\<forall>j. span_at (vw_cache v') j = span_at (vw_cache v) j) \<or>
     (\<exists>r. span_made pred attrs rnd now v v' i r))"
proof -
  consider (off) "resolve_parent (at_parent attrs) v = Some None"
    | (no) a where "resolve_parent (at_parent attrs) v = Some (Some a)" "\<not> pred (at_parent attrs) (at_metadata attrs) rnd"
    | (yes) a where "resolve_parent (at_parent attrs) v = Some (Some a)" "pred (at_parent attrs) (at_metadata attrs) rnd"
    using resolve_parent_returns [OF c p] by fastforce
  then show ?thesis
  proof cases
    case off
    then show ?thesis using op_effect_refl [OF c] by (auto simp: new_span_def)
  next
    case no
    then show ?thesis using op_effect_refl [OF c] by (auto simp: new_span_def)
  next
    case (yes a)
    obtain n v1 where n: "next_actual_id v = (n, v1)" by fastforce
    obtain shard v2 where s: "pick_shard v1 = (shard, v2)" by fastforce
    let ?r = "\<lparr>sr_id = n, sr_parent_id = a, sr_metadata = at_metadata attrs,
      sr_fields = visit_all (at_values attrs) [], sr_events = [], sr_opened_at = now, sr_closed_at = None\<rparr>"
    note N = next_actual_id_effect [OF n]
    have c1: "cache_ok (vw_cache v1)" using c by (subst N(2)) (simp add: cache_ok_channels)
    note S = pick_shard_lt [OF c1 s]
    have same: "sc_in_flight (vw_cache v2) = sc_in_flight (vw_cache v)"
      "sc_layout (vw_cache v2) = sc_layout (vw_cache v)"
      "sc_shard_capacity (vw_cache v2) = sc_shard_capacity (vw_cache v)"
      "sc_span_channel (vw_cache v2) = sc_span_channel (vw_cache v)"
      "sc_event_channel (vw_cache v2) = sc_event_channel (vw_cache v)"
      "open_spans (vw_cache v2) = open_spans (vw_cache v)"
      "span_at (vw_cache v2) j = span_at (vw_cache v) j" for j
      unfolding S(2) by (subst N(2); simp)+
    have c2: "cache_ok (vw_cache v2)" and sh: "shard < length (sc_in_flight (vw_cache v2))"
      using c1 S by simp_all
    have ids: "(n, th_id_cursor (vw_thread v2), sc_id_high_water (vw_cache v2)) =
      allocate_actual_id (th_id_cursor (vw_thread v)) (sc_id_high_water (vw_cache v))"
      using N(1) S by simp
    have thr: "th_stack (vw_thread v2) = th_stack (vw_thread v)"
      "th_pending_span (vw_thread v2) = th_pending_span (vw_thread v)"
      "th_pending_event (vw_thread v2) = th_pending_event (vw_thread v)" using N S by simp_all
    have "sc_layout (vw_cache v1) = sc_layout (vw_cache v)" by (subst N(2)) simp
    then have "fst (pick_shard v1) = fst (pick_shard v)"
      using N(6,7) by (simp add: pick_shard_def ensure_thread_shard_key_def)
    then have shard: "fst (pick_shard v) = shard" using s by simp
    have slot2: "slot_ok slot (sc_shard_capacity (vw_cache v2))" using slot same by simp
    have run: "new_span pred slot attrs rnd now v =
      (case insert_record slot shard ?r (vw_cache v2) of
         None \<Rightarrow> None | Some None \<Rightarrow> Some (DISABLED, v2)
       | Some (Some (tracing_id, c)) \<Rightarrow> Some (tracing_id, v2\<lparr>vw_cache := c\<rparr>))"
      using yes by (simp add: new_span_def n s)
    show ?thesis
    proof (rule insert_record_cases [OF c2 sh slot2, of ?r])
      assume full: "insert_record slot shard ?r (vw_cache v2) = Some None"
        "sc_shard_capacity (vw_cache v2) \<le> length (ln_slab (sc_in_flight (vw_cache v2) ! shard))"
      have "op_effect v v2 [] []"
        using c2 same thr ids by (auto simp: op_effect_def ids_step_def view_keys_def view_messages_def)
      moreover have "shard_full v" using full(2) by (simp add: shard_full_def shard same)
      ultimately show ?thesis using run full(1) thr same by (intro exI [of _ DISABLED] exI [of _ v2] exI [of _ "[]"]) simp
    next
      fix i c' k
      assume ins: "insert_record slot shard ?r (vw_cache v2) = Some (Some (i, c'))" "i \<noteq> DISABLED"
        "decode_tracing_id (sc_layout (vw_cache v2)) i = Some (shard, k)" "k < sc_shard_capacity (vw_cache v2)"
        "bt_get (ln_slab (sc_in_flight (vw_cache v2) ! shard)) k = None"
        and c': "c' = (vw_cache v2)\<lparr>sc_in_flight := (sc_in_flight (vw_cache v2))[shard :=
          \<lparr>ln_slab = bt_insert k ?r (ln_slab (sc_in_flight (vw_cache v2) ! shard)),
           ln_actual_ids = (ln_actual_ids (sc_in_flight (vw_cache v2) ! shard))[k := sr_id ?r]\<rparr>]\<rparr>"
        and ok': "cache_ok c'"
        and room: "length (ln_slab (sc_in_flight (vw_cache v2) ! shard)) < sc_shard_capacity (vw_cache v2)"
      have "\<not> shard_full v" using room by (simp add: shard_full_def shard same)
      note V = insert_record_view [OF c2 sh ins(3-5) c']
      have fields: "sc_layout c' = sc_layout (vw_cache v)" "sc_shard_capacity c' = sc_shard_capacity (vw_cache v)"
        "sc_span_channel c' = sc_span_channel (vw_cache v)" "sc_event_channel c' = sc_event_channel (vw_cache v)"
        "sc_id_high_water c' = sc_id_high_water (vw_cache v2)"
        by (simp_all add: c' same)
      have "op_effect v (v2\<lparr>vw_cache := c'\<rparr>) [n] []"
        using ok' fields thr ids V(5) same
        by (auto simp: op_effect_def ids_step_def view_keys_def view_messages_def key_of_def)
      moreover have "span_made pred attrs rnd now v (v2\<lparr>vw_cache := c'\<rparr>) i ?r"
        using V ins(2) same yes \<open>\<not> shard_full v\<close> arg_cong [OF ids, of fst] by (simp add: span_made_def)
      ultimately show ?thesis using run ins(1) thr
        by (intro exI [of _ i] exI [of _ "v2\<lparr>vw_cache := c'\<rparr>"] exI [of _ "[n]"]) auto
    qed
  qed
qed

section \<open>Recording, entering, closing\<close>

lemma span_at_None_cases:
  "cache_ok c \<Longrightarrow> span_at c i = None \<Longrightarrow> decode_tracing_id (sc_layout c) i = Some (shard, k) \<Longrightarrow>
     shard < length (sc_in_flight c) \<and> bt_get (ln_slab (sc_in_flight c ! shard)) k = None"
  using cache_decode by (auto simp: span_at_def split: if_splits)

lemma lane_replace_ok:
  assumes "cache_ok c" "shard < length (sc_in_flight c)" "lane_ok (sc_shard_capacity c) l"
  shows "cache_ok (c\<lparr>sc_in_flight := (sc_in_flight c)[shard := l]\<rparr>)"
  using assms by (simp add: cache_ok_def list_all_update)

lemma lane_ok_rewrite:
  assumes l: "lane_ok cap l" and r: "bt_get (ln_slab l) k = Some r" "sr_id r' = sr_id r"
  shows "lane_ok cap (l\<lparr>ln_slab := bt_insert k r' (ln_slab l)\<rparr>)"
proof -
  have ok: "bt_ok (ln_slab l)" using l by (simp add: lane_ok_def)
  have "bt_keys (bt_insert k r' (ln_slab l)) = bt_keys (ln_slab l)"
    using r(1) ok by (intro bt_insert_present_keys) simp_all
  then show ?thesis
    using l r bt_ok_insert [OF ok] by (auto simp: lane_ok_def bt_get_insert [OF ok])
qed

lemma lane_ok_remove:
  assumes l: "lane_ok cap l"
  shows "lane_ok cap (l\<lparr>ln_slab := bt_remove k (ln_slab l)\<rparr>)"
proof -
  have ok: "bt_ok (ln_slab l)" using l by (simp add: lane_ok_def)
  show ?thesis
    using l bt_ok_remove [OF ok] bt_keys_remove_subset [of k "ln_slab l"]
    by (auto simp: lane_ok_def bt_get_remove [OF ok] simp del: set_map split: if_splits)
qed

lemma record_fields_effect:
  assumes c: "cache_ok (vw_cache v)"
  shows "\<exists>v'. record_fields i values v = Some v' \<and> op_effect v v' [] [] \<and>
    th_stack (vw_thread v') = th_stack (vw_thread v)"
proof (cases "span_at (vw_cache v) i")
  case None
  then have "record_fields i values v = Some v"
    using span_at_None_cases [OF c None]
    by (auto simp: record_fields_def Let_def span_at_def dest: cache_decode [OF c] split: option.splits if_splits)
  then show ?thesis using op_effect_refl [OF c] by simp
next
  case (Some r)
  let ?c = "vw_cache v"
  obtain shard k where k: "decode_tracing_id (sc_layout ?c) i = Some (shard, k)" "shard < length (sc_in_flight ?c)"
    "bt_get (ln_slab (sc_in_flight ?c ! shard)) k = Some r"
    using span_atD [OF c Some] by blast
  let ?l = "sc_in_flight ?c ! shard" and ?r = "r\<lparr>sr_fields := visit_all values (sr_fields r)\<rparr>"
  let ?l' = "?l\<lparr>ln_slab := bt_insert k ?r (ln_slab ?l)\<rparr>"
  let ?c' = "?c\<lparr>sc_in_flight := (sc_in_flight ?c)[shard := ?l']\<rparr>"
  have l: "lane_ok (sc_shard_capacity ?c) ?l" by (rule cache_lane [OF c k(2)])
  have ok': "cache_ok ?c'" by (rule lane_replace_ok [OF c k(2) lane_ok_rewrite [OF l k(3)]]) simp
  have "mset (open_spans ?c') + {#r#} = mset (open_spans ?c) + {#?r#}"
    using mset_bt_insert_present [OF _ k(3), of ?r] l
    by (intro open_spans_update [OF k(2)]) (simp add: lane_ok_def)
  then have "image_mset key_of (mset (open_spans ?c') + {#r#}) = image_mset key_of (mset (open_spans ?c) + {#?r#})"
    by (rule arg_cong)
  then have keys: "keys_of (open_spans ?c') = keys_of (open_spans ?c)"
    by (simp add: keys_of_def key_of_def)
  have "record_fields i values v = Some (v\<lparr>vw_cache := ?c'\<rparr>)"
    using k by (simp add: record_fields_def Let_def)
  then show ?thesis
    using ok' keys by (auto simp: op_effect_def ids_step_def view_keys_def view_messages_def)
qed

lemma enter_returns:
  assumes "cache_ok (vw_cache v)" "id_valid (vw_cache v) i"
  shows "\<exists>a. enter i v = Some (stack_push \<lparr>ss_tracing_id = i, ss_actual_id = a\<rparr> v) \<and>
    (\<forall>r. span_at (vw_cache v) i = Some r \<longrightarrow> a = sr_id r)"
proof (cases "decode_tracing_id (sc_layout (vw_cache v)) i")
  case None
  then show ?thesis by (auto simp: enter_def span_at_def)
next
  case (Some p)
  then obtain shard k where d: "decode_tracing_id (sc_layout (vw_cache v)) i = Some (shard, k)" by (cases p) simp
  obtain a where a: "load_actual_id (vw_cache v) shard k = Some a" using load_valid [OF assms d] by blast
  have "a = sr_id r" if "span_at (vw_cache v) i = Some r" for r
    using span_atD [OF assms(1) that] d a by auto
  then show ?thesis using d a by (auto simp: enter_def)
qed

lemma stack_push_effect:
  "cache_ok (vw_cache v) \<Longrightarrow> op_effect v (stack_push e v) [] []"
  "cache_ok (vw_cache v) \<Longrightarrow> op_effect v (exit_span i v) [] []"
  by (simp_all add: stack_push_def exit_span_def stack_pop_def op_effect_def ids_step_def view_keys_def view_messages_def)

lemma exit_after_enter: "exit_span i (stack_push e v) = v"
  by (simp add: exit_span_def stack_push_def stack_pop_def)

lemma stack_top_push: "stack_top (stack_push e v) = Some e"
  by (simp add: stack_top_def stack_push_def)

subsection \<open>Events\<close>

lemma event_parent_returns:
  "cache_ok (vw_cache v) \<Longrightarrow> (\<forall>i. parent = Some i \<longrightarrow> id_valid (vw_cache v) i) \<Longrightarrow> event_parent parent v \<noteq> None"
  by (auto simp: event_parent_def split: option.split dest: load_valid)

lemma ensure_key_effect:
  assumes "ensure_thread_shard_key v = (key, v')"
  shows "vw_cache v' = vw_cache v" "th_stack (vw_thread v') = th_stack (vw_thread v)"
    "th_pending_span (vw_thread v') = th_pending_span (vw_thread v)"
    "th_pending_event (vw_thread v') = th_pending_event (vw_thread v)"
    "th_id_cursor (vw_thread v') = th_id_cursor (vw_thread v)"
  using assms by (auto simp: ensure_thread_shard_key_def split: if_splits)

lemma flush_stack: "th_stack (vw_thread (flush_pending eo so luck v)) = th_stack (vw_thread v)"
  by (simp add: flush_pending_def send_events_def send_spans_def Let_def split: send_outcome.split)

text \<open>The message an event becomes.\<close>

definition message_of :: "u64 \<Rightarrow> metadata \<Rightarrow> (string \<times> visited) list \<Rightarrow> instant \<Rightarrow> usize \<Rightarrow> event_message" where
  "message_of p md values now shard =
     \<lparr>em_parent_actual_id = p, em_record = \<lparr>rr_value = \<lparr>er_metadata = Some md, er_fields = visit_all values [],
        er_recorded_at = Some now\<rparr>, rr_shard = shard\<rparr>\<rparr>"

lemma record_event_effect:
  assumes c: "cache_ok (vw_cache v)" and p: "\<forall>i. parent = Some i \<longrightarrow> id_valid (vw_cache v) i"
  shows "\<exists>v'. record_event parent md values now locked eo so luck v = Some v' \<and>
    th_stack (vw_thread v') = th_stack (vw_thread v) \<and>
    (event_parent parent v = Some None \<and> v' = v \<or>
     (\<exists>a shard. event_parent parent v = Some (Some a) \<and> op_effect v v' [] [message_of a md values now shard]))"
proof -
  consider (drop) "event_parent parent v = Some None" | (emit) a where "event_parent parent v = Some (Some a)"
    using event_parent_returns [OF c p] by fastforce
  then show ?thesis
  proof cases
    case drop
    then show ?thesis by (simp add: record_event_def)
  next
    case (emit a)
    obtain key v1 where k: "ensure_thread_shard_key v = (key, v1)" by fastforce
    note K = ensure_key_effect [OF k]
    obtain r op where a: "acquire event_default key locked (sc_event_pool (vw_cache v1)) = (r, op)" by fastforce
    have pool: "pool_clean event_default (sc_event_pool (vw_cache v1))" using c K by (simp add: cache_ok_def)
    have r: "rr_value r = event_default" "pool_clean event_default op"
      using event_pool.acquire_default(1,2) [OF pool, of key locked] a by simp_all
    let ?m = "message_of a md values now (rr_shard r)"
    have m: "\<lparr>em_parent_actual_id = a, em_record = r\<lparr>rr_value := (rr_value r)\<lparr>er_metadata := Some md,
        er_recorded_at := Some now, er_fields := visit_all values []\<rparr>\<rparr>\<rparr> = ?m"
      using r(1) by (cases r) (simp add: message_of_def event_default_def)
    define v2 where "v2 = fst (pending_push_event ?m (v1\<lparr>vw_cache := (vw_cache v1)\<lparr>sc_event_pool := op\<rparr>\<rparr>))"
    have fx: "op_effect v v2 [] [?m]" "th_stack (vw_thread v2) = th_stack (vw_thread v)"
      using c K r(2)
      by (auto simp: v2_def pending_push_event_def op_effect_def ids_step_def view_keys_def view_messages_def cache_ok_pool)
    obtain v3 n where v3: "pending_push_event ?m (v1\<lparr>vw_cache := (vw_cache v1)\<lparr>sc_event_pool := op\<rparr>\<rparr>) = (v3, n)"
      by fastforce
    then have "v3 = v2" by (simp add: v2_def)
    then have "\<exists>n. record_event parent md values now locked eo so luck v =
        Some (if n \<ge> sc_pending_batch (vw_cache v2) then flush_pending eo so luck v2 else v2)"
      using emit v3 by (intro exI [of _ n]) (simp add: record_event_def k a m)
    then show ?thesis
      using emit fx flush_after [OF fx(1), of eo so luck] flush_stack [of eo so luck v2] by auto
  qed
qed

subsection \<open>Closing\<close>

definition closed_record :: "span_record \<Rightarrow> instant \<Rightarrow> span_record" where
  "closed_record r now = r\<lparr>sr_closed_at := Some now\<rparr>"

text \<open>The view after the record was moved from the slab to the thread's buffer.\<close>

definition moved :: "u64 \<Rightarrow> span_record \<Rightarrow> instant \<Rightarrow> view \<Rightarrow> view \<Rightarrow> bool" where
  "moved i r now v v' \<longleftrightarrow> op_effect v v' [] [] \<and> span_at (vw_cache v') i = None \<and>
     (\<forall>j. decode_tracing_id (sc_layout (vw_cache v)) j \<noteq> decode_tracing_id (sc_layout (vw_cache v)) i \<longrightarrow>
        span_at (vw_cache v') j = span_at (vw_cache v) j) \<and>
     th_pending_span (vw_thread v') = th_pending_span (vw_thread v) @ [closed_record r now] \<and>
     th_stack (vw_thread v') = th_stack (vw_thread v) \<and>
     sc_span_channel (vw_cache v') = sc_span_channel (vw_cache v) \<and>
     sc_pending_batch (vw_cache v') = sc_pending_batch (vw_cache v)"

lemma try_close_cases:
  assumes c: "cache_ok (vw_cache v)"
  shows "(span_at (vw_cache v) i = None \<and> try_close i now eo so luck v = Some (False, v)) \<or>
    (\<exists>r v1. span_at (vw_cache v) i = Some r \<and> moved i r now v v1 \<and>
       try_close i now eo so luck v = Some (True,
         if length (th_pending_span (vw_thread v1)) \<ge> sc_pending_batch (vw_cache v1)
         then flush_pending eo so luck v1 else v1))"
proof (cases "span_at (vw_cache v) i")
  case None
  then have "try_close i now eo so luck v = Some (False, v)"
    using span_at_None_cases [OF c None]
    by (auto simp: try_close_def Let_def span_at_def dest: cache_decode [OF c] split: option.splits if_splits)
  with None show ?thesis by simp
next
  case (Some r)
  let ?c = "vw_cache v"
  obtain shard k where k: "decode_tracing_id (sc_layout ?c) i = Some (shard, k)" "shard < length (sc_in_flight ?c)"
    "bt_get (ln_slab (sc_in_flight ?c ! shard)) k = Some r"
    using span_atD [OF c Some] by blast
  let ?l = "sc_in_flight ?c ! shard"
  let ?c' = "?c\<lparr>sc_in_flight := (sc_in_flight ?c)[shard := ?l\<lparr>ln_slab := bt_remove k (ln_slab ?l)\<rparr>]\<rparr>"
  have l: "lane_ok (sc_shard_capacity ?c) ?l" by (rule cache_lane [OF c k(2)])
  then have ok: "bt_ok (ln_slab ?l)" by (simp add: lane_ok_def)
  have ok': "cache_ok ?c'" by (rule lane_replace_ok [OF c k(2) lane_ok_remove [OF l]])
  have "mset (open_spans ?c') + {#r#} = mset (open_spans ?c) + {#}"
    using mset_bt_remove [OF k(3)] by (intro open_spans_update [OF k(2)]) simp
  then have keys: "keys_of (open_spans ?c) = add_mset (key_of r) (keys_of (open_spans ?c'))"
    unfolding keys_of_def by (metis add_mset_add_single empty_neutral(2) image_mset_add_mset)
  define v1 where "v1 = fst (pending_push_span (closed_record r now) (v\<lparr>vw_cache := ?c'\<rparr>))"
  have span: "span_at ?c' j = (if decode_tracing_id (sc_layout ?c) j = Some (shard, k) then None else span_at ?c j)" for j
    using k ok by (auto simp: span_at_def bt_simps nth_list_update split: option.split)
  have "op_effect v v1 [] []"
    using ok' keys
    by (auto simp: v1_def pending_push_span_def op_effect_def ids_step_def view_keys_def view_messages_def
        key_of_def closed_record_def)
  then have "moved i r now v v1"
    using k(1) span by (auto simp: moved_def v1_def pending_push_span_def)
  moreover have "try_close i now eo so luck v = Some (True,
         if length (th_pending_span (vw_thread v1)) \<ge> sc_pending_batch (vw_cache v1)
         then flush_pending eo so luck v1 else v1)"
    using k by (simp add: try_close_def Let_def v1_def pending_push_span_def closed_record_def)
  ultimately show ?thesis using Some by blast
qed

lemma try_close_effect:
  assumes "cache_ok (vw_cache v)"
  shows "\<exists>b v'. try_close i now eo so luck v = Some (b, v') \<and> op_effect v v' [] [] \<and>
    th_stack (vw_thread v') = th_stack (vw_thread v)"
  using try_close_cases [OF assms, of i now eo so luck] op_effect_refl [OF assms] flush_after flush_stack
  by (fastforce simp: moved_def)

section \<open>Properties\<close>

text \<open>C20. Creating a span always returns. It returns \<open>DISABLED\<close>, with every open span untouched, exactly
  when the parent is disabled or missing, the predicate rejects it or the thread's shard is full.
  Otherwise the id was free and now addresses exactly the new record: a fresh actual id, the parent's
  actual id, the fields given, no events; every other open span is untouched.\<close>

theorem new_span_addressable:
  assumes "cache_ok (vw_cache v)" "parent_valid (vw_cache v) (at_parent attrs)"
    and "slot_ok slot (sc_shard_capacity (vw_cache v))"
  shows "\<exists>i v'. new_span pred slot attrs rnd now v = Some (i, v') \<and> cache_ok (vw_cache v') \<and>
    (i = DISABLED \<longleftrightarrow> resolve_parent (at_parent attrs) v = Some None \<or>
       \<not> pred (at_parent attrs) (at_metadata attrs) rnd \<or> shard_full v) \<and>
    (if i = DISABLED then \<forall>j. span_at (vw_cache v') j = span_at (vw_cache v) j
     else \<exists>r. span_made pred attrs rnd now v v' i r)"
proof -
  obtain i v' ns where n: "new_span pred slot attrs rnd now v = Some (i, v')" "op_effect v v' ns []"
    "i = DISABLED \<and> (resolve_parent (at_parent attrs) v = Some None \<or>
         \<not> pred (at_parent attrs) (at_metadata attrs) rnd \<or> shard_full v) \<and>
       (\<forall>j. span_at (vw_cache v') j = span_at (vw_cache v) j) \<or>
     (\<exists>r. span_made pred attrs rnd now v v' i r)"
    using new_span_cases [OF assms, of pred rnd now] by blast
  then show ?thesis
    by (intro exI [of _ i] exI [of _ v']) (auto simp: op_effect_def dest: span_madeD)
qed

definition sample_view :: view where
  "sample_view = \<lparr>vw_cache = cache_new 4 (config_default\<lparr>cfg_lane_count := 2\<rparr>), vw_thread = thread_new,
     vw_next_key = 1\<rparr>"

definition sample_attrs :: attributes where
  "sample_attrs = \<lparr>at_parent = Root, at_metadata = empty_metadata, at_values = [(''x'', VBool True)]\<rparr>"

lemma sample_view_ok: "cache_ok (vw_cache sample_view)"
  unfolding sample_view_def by (simp add: cache_new_ok)

lemma new_span_addressable_witness:
  "\<exists>i v'. new_span (\<lambda>_ _ _. True) (first_gap 0) sample_attrs 0 5 sample_view = Some (i, v') \<and> i \<noteq> DISABLED \<and>
     (\<exists>r. span_at (vw_cache v') i = Some r \<and> sr_id r = 1024 \<and> sr_parent_id r = None)"
proof -
  have "\<not> shard_full sample_view" by code_simp
  moreover have "fst (allocate_actual_id (th_id_cursor (vw_thread sample_view)) (sc_id_high_water (vw_cache sample_view))) = 1024"
    by code_simp
  moreover have "resolve_parent (at_parent sample_attrs) sample_view = Some (Some None)" by code_simp
  ultimately show ?thesis
    using new_span_addressable [OF sample_view_ok, of sample_attrs "first_gap 0" "\<lambda>_ _ _. True" 0 5]
      first_gap_ok by (auto simp: parent_valid_def sample_attrs_def span_made_def)
qed

text \<open>Nesting: between entering and exiting an open span, a contextual span and a contextual
  event get that span's actual id as their parent; exiting restores the thread exactly.\<close>

theorem children_of_entered:
  assumes "cache_ok (vw_cache v)" "span_at (vw_cache v) i = Some r"
  shows "\<exists>v'. enter i v = Some v' \<and> resolve_parent Contextual v' = Some (Some (Some (sr_id r))) \<and>
    event_parent None v' = Some (Some (sr_id r)) \<and> exit_span i v' = v"
proof -
  have "i \<noteq> DISABLED" by (rule span_at_not_disabled [OF assms])
  then show ?thesis
    using enter_returns [OF assms(1) span_at_valid [OF assms]] assms(2)
    by (auto simp: resolve_parent_def event_parent_def stack_top_push exit_after_enter)
qed

text \<open>A disabled span disables everything below it: with it on top of the stack contextual spans
  are \<open>DISABLED\<close>, contextual events are dropped, callsites are reported disabled, and recording into
  it or closing it does nothing; the state never changes.\<close>

theorem disabled_subtree:
  "\<exists>v'. enter DISABLED v = Some v' \<and>
     new_span pred slot (attrs\<lparr>at_parent := Contextual\<rparr>) rnd now v' = Some (DISABLED, v') \<and>
     new_span pred slot (attrs\<lparr>at_parent := Explicit DISABLED\<rparr>) rnd now v' = Some (DISABLED, v') \<and>
     record_event None md values now locked eo so luck v' = Some v' \<and>
     record_event (Some DISABLED) md values now locked eo so luck v' = Some v' \<and>
     \<not> sub_enabled p md v' \<and> record_fields DISABLED values v' = Some v' \<and>
     try_close DISABLED now eo so luck v' = Some (False, v')"
  by (simp add: enter_def decode_tracing_id_def new_span_def resolve_parent_def stack_top_push record_event_def
      event_parent_def sub_enabled_def record_fields_def try_close_def)

lemma flush_span_at: "span_at (vw_cache (flush_pending eo so luck v)) i = span_at (vw_cache v) i"
  by (auto simp: span_at_def flush_pending_def send_events_def send_spans_def Let_def
      split: send_outcome.split option.split)

lemma flush_spans:
  "th_pending_span (vw_thread (flush_pending eo so luck v)) = []"
  "sc_span_channel (vw_cache (flush_pending eo so luck v)) =
     sc_span_channel (vw_cache v) @ (if so = SendOk then th_pending_span (vw_thread v) else [])"
  by (auto simp: flush_pending_def send_events_def send_spans_def Let_def split: send_outcome.split)

text \<open>C21. Closing an open span hands its record on exactly once, with the closing time: it waits in the
  thread's buffer until the batch is full, then the whole buffer goes to the driver in order, or is
  dropped as a whole when the channel refuses it. Closing the id again reports false and does
  nothing.\<close>

theorem closed_once:
  assumes "cache_ok (vw_cache v)" "span_at (vw_cache v) i = Some r"
  shows "\<exists>v'. try_close i now eo so luck v = Some (True, v') \<and>
    (let waiting = th_pending_span (vw_thread v) @ [closed_record r now];
         sent = sc_span_channel (vw_cache v)
     in if length waiting < sc_pending_batch (vw_cache v)
        then th_pending_span (vw_thread v') = waiting \<and> sc_span_channel (vw_cache v') = sent
        else th_pending_span (vw_thread v') = [] \<and>
          sc_span_channel (vw_cache v') = sent @ (if so = SendOk then waiting else [])) \<and>
    try_close i now' eo' so' luck' v' = Some (False, v')"
proof -
  obtain v1 where m: "moved i r now v v1"
    and t: "try_close i now eo so luck v = Some (True,
         if length (th_pending_span (vw_thread v1)) \<ge> sc_pending_batch (vw_cache v1)
         then flush_pending eo so luck v1 else v1)" (is "_ = Some (True, ?v)")
    using try_close_cases [OF assms(1), of i now eo so luck] assms(2) by auto
  have "op_effect v v1 [] []" using m by (simp add: moved_def)
  from flush_after [OF this, of eo so luck] this have "cache_ok (vw_cache ?v)" by (auto simp: op_effect_def)
  moreover have "span_at (vw_cache ?v) i = None" using m by (simp add: moved_def flush_span_at)
  ultimately have "try_close i now' eo' so' luck' ?v = Some (False, ?v)"
    using try_close_cases [of ?v i now' eo' so' luck'] by simp
  then show ?thesis using m t by (auto simp: moved_def flush_spans Let_def)
qed

text \<open>The witnesses continue from the span made in \<open>sample_view\<close>.\<close>

lemma sample_span:
  "\<exists>i (v :: view). cache_ok (vw_cache v) \<and> (\<exists>r. span_at (vw_cache v) i = Some r \<and> sr_id r = 1024)"
proof -
  have "\<not> shard_full sample_view" by code_simp
  moreover have "fst (allocate_actual_id (th_id_cursor (vw_thread sample_view)) (sc_id_high_water (vw_cache sample_view))) = 1024"
    by code_simp
  moreover have "resolve_parent (at_parent sample_attrs) sample_view = Some (Some None)" by code_simp
  ultimately show ?thesis
    using new_span_cases [OF sample_view_ok _ first_gap_ok, of sample_attrs "\<lambda>_ _ _. True" 0 5]
    by (auto simp: parent_valid_def sample_attrs_def span_made_def op_effect_def)
qed

lemma children_of_entered_witness:
  "\<exists>i v v'. enter i v = Some v' \<and> event_parent None v' = Some (Some 1024) \<and> exit_span i v' = v"
proof -
  obtain i r and v :: view where s: "cache_ok (vw_cache v)" "span_at (vw_cache v) i = Some r" "sr_id r = 1024"
    using sample_span by blast
  from children_of_entered [OF s(1,2)] s(3) show ?thesis by auto
qed

lemma closed_once_witness:
  "\<exists>i v v'. try_close i 9 SendOk SendOk [] v = Some (True, v') \<and>
     try_close i 9 SendOk SendOk [] v' = Some (False, v')"
proof -
  obtain i r and v :: view where s: "cache_ok (vw_cache v)" "span_at (vw_cache v) i = Some r"
    using sample_span by blast
  from closed_once [OF s, of 9 SendOk SendOk "[]" 9 SendOk SendOk "[]"] show ?thesis by auto
qed

end
