(* ===== verification/Driver.thy ===== *)
theory Driver
  imports Cache
begin

text \<open>
  The driver (\<open>tracing-cache/src/driver.rs\<close>): it receives batches of events and of closed spans,
  parks events under their parent's actual id, attaches them when the span arrives and sends a copy
  of every span to each subscriber. A batch is an argument: the \<open>spillway\<close> channel decides what it
  holds. A subscriber is its sender and what was sent to it so far; what its channel answers
  (\<open>send_outcome\<close>) is an argument. Each operation also returns the references it drops, which go back
  to the event pool.
\<close>

section \<open>State\<close>

type_synonym event_ref = "event_record reuse_ref"
type_synonym side_table = "(u64, event_ref list) btree"

record subscriber =
  sb_sender :: nat
  sb_inbox :: "span_record list"

record driver =
  dr_capacity :: usize
  dr_side_events :: side_table
  dr_subscribers :: "subscriber list"

definition driver_new :: "usize \<Rightarrow> driver" where
  "driver_new capacity = \<lparr>dr_capacity = capacity, dr_side_events = [], dr_subscribers = []\<rparr>"

definition with_predicate_and_config :: "usize \<Rightarrow> cache_config \<Rightarrow> span_cache \<times> driver" where
  "with_predicate_and_config capacity config = (cache_new capacity config, driver_new capacity)"

definition with_predicate :: "usize \<Rightarrow> span_cache \<times> driver" where
  "with_predicate capacity = with_predicate_and_config capacity config_default"

text \<open>\<open>subscribe\<close>: the new sender is pushed at the end.\<close>

definition subscribe :: "nat \<Rightarrow> driver \<Rightarrow> driver" where
  "subscribe sender d =
     d\<lparr>dr_subscribers := dr_subscribers d @ [\<lparr>sb_sender = sender, sb_inbox = []\<rparr>]\<rparr>"

section \<open>Events\<close>

definition park_event :: "usize \<Rightarrow> event_message \<Rightarrow> side_table \<Rightarrow> side_table \<times> event_ref list" where
  "park_event capacity m side =
     (let p = em_parent_actual_id m in
      case bt_get side p of
        Some events \<Rightarrow> (bt_insert p (events @ [em_record m]) side, [])
      | None \<Rightarrow>
          (if length side \<ge> capacity
           then (bt_insert p [em_record m] (bt_pop_first side), case side of [] \<Rightarrow> [] | e # _ \<Rightarrow> snd e)
           else (bt_insert p [em_record m] side, [])))"

fun flush_event_batch :: "usize \<Rightarrow> event_message list \<Rightarrow> side_table \<Rightarrow> side_table \<times> event_ref list" where
  "flush_event_batch capacity [] side = (side, [])"
| "flush_event_batch capacity (m # ms) side =
     (let (side, gone) = park_event capacity m side;
          (side, gone') = flush_event_batch capacity ms side
      in (side, gone @ gone'))"

section \<open>Spans\<close>

definition attach_events :: "bool \<Rightarrow> span_record \<Rightarrow> side_table \<Rightarrow> span_record \<times> side_table" where
  "attach_events any_side s side =
     (if any_side then
        (case bt_get side (sr_id s) of
           Some events \<Rightarrow> (s\<lparr>sr_events := sr_events s @ events\<rparr>, bt_remove (sr_id s) side)
         | None \<Rightarrow> (s, side))
      else (s, side))"

fun prepare :: "bool \<Rightarrow> span_record list \<Rightarrow> side_table \<Rightarrow> span_record list \<times> side_table" where
  "prepare any_side [] side = ([], side)"
| "prepare any_side (s # ss) side =
     (let (s, side) = attach_events any_side s side;
          (ss, side) = prepare any_side ss side
      in (s # ss, side))"

definition span_clone :: "span_record \<Rightarrow> span_record" where
  "span_clone s = s\<lparr>sr_events := map ref_clone (sr_events s)\<rparr>"

fun deliver :: "(nat \<Rightarrow> send_outcome) \<Rightarrow> span_record list \<Rightarrow> subscriber list \<Rightarrow> subscriber list" where
  "deliver outcome prepared [] = []"
| "deliver outcome prepared (b # bs) =
     (case outcome (sb_sender b) of
        SendOk \<Rightarrow> b\<lparr>sb_inbox := sb_inbox b @ map span_clone prepared\<rparr> # deliver outcome prepared bs
      | SendClosed \<Rightarrow> deliver outcome prepared bs
      | SendFull \<Rightarrow> b # deliver outcome prepared bs)"

definition fanout_under_lock :: "(nat \<Rightarrow> send_outcome) \<Rightarrow> span_record list \<Rightarrow> subscriber list \<Rightarrow> subscriber list" where
  "fanout_under_lock outcome prepared subs = (if prepared = [] then subs else deliver outcome prepared subs)"

text \<open>What a fan-out drops: the copies of every rejected batch, then the prepared records.\<close>

definition fanout_drops :: "(nat \<Rightarrow> send_outcome) \<Rightarrow> span_record list \<Rightarrow> subscriber list \<Rightarrow> event_ref list" where
  "fanout_drops outcome prepared subs =
     concat (map (\<lambda>b. if outcome (sb_sender b) = SendOk then [] else concat (map sr_events prepared)) subs) @
     concat (map sr_events prepared)"

definition flush_span_batch :: "(nat \<Rightarrow> send_outcome) \<Rightarrow> span_record list \<Rightarrow> driver \<Rightarrow> driver \<times> event_ref list" where
  "flush_span_batch outcome batch d =
     (if batch = [] then (d, [])
      else let any_side = (dr_side_events d \<noteq> []);
               (prepared, side) = prepare any_side batch (dr_side_events d)
           in (d\<lparr>dr_side_events := side,
                 dr_subscribers := fanout_under_lock outcome prepared (dr_subscribers d)\<rparr>,
               fanout_drops outcome prepared (dr_subscribers d)))"

definition driver_events :: "event_message list \<Rightarrow> driver \<Rightarrow> driver \<times> event_ref list" where
  "driver_events batch d =
     (let (side, gone) = flush_event_batch (dr_capacity d) batch (dr_side_events d)
      in (d\<lparr>dr_side_events := side\<rparr>, gone))"

text \<open>\<open>drain_sync\<close>: everything on the event channel, then everything on the span channel.\<close>

definition drain_sync :: "(nat \<Rightarrow> send_outcome) \<Rightarrow> event_message list \<Rightarrow> span_record list \<Rightarrow> driver
    \<Rightarrow> driver \<times> event_ref list" where
  "drain_sync outcome events spans d =
     (let (d, gone) = driver_events events d;
          (d, gone') = flush_span_batch outcome spans d
      in (d, gone @ gone'))"

section \<open>The loop\<close>

text \<open>One turn of \<open>run\<close>: a biased \<open>select\<close> over the two channels. What a poll of \<open>next_batch\<close>
  answers is an argument; a closed channel's branch is disabled.\<close>

datatype 'a polled = NotReady | Ready "'a list" | ChannelClosed

record run_state =
  rs_driver :: driver
  rs_span_closed :: bool
  rs_event_closed :: bool

datatype turn = Again run_state | Stop run_state

definition run_new :: "driver \<Rightarrow> run_state" where
  "run_new d = \<lparr>rs_driver = d, rs_span_closed = False, rs_event_closed = False\<rparr>"

definition end_of_turn :: "run_state \<Rightarrow> turn" where
  "end_of_turn s = (if rs_span_closed s \<and> rs_event_closed s then Stop s else Again s)"

definition span_turn :: "(nat \<Rightarrow> send_outcome) \<Rightarrow> span_record polled \<Rightarrow> run_state \<Rightarrow> turn" where
  "span_turn outcome sp s =
     (if rs_span_closed s then (if rs_event_closed s then Stop s else Again s)
      else case sp of
        NotReady \<Rightarrow> Again s
      | Ready batch \<Rightarrow> end_of_turn (s\<lparr>rs_driver := fst (flush_span_batch outcome batch (rs_driver s))\<rparr>)
      | ChannelClosed \<Rightarrow> end_of_turn (s\<lparr>rs_span_closed := True\<rparr>))"

definition driver_turn :: "(nat \<Rightarrow> send_outcome) \<Rightarrow> event_message polled \<Rightarrow> span_record polled \<Rightarrow> run_state \<Rightarrow> turn" where
  "driver_turn outcome ev sp s =
     (if rs_event_closed s then span_turn outcome sp s
      else case ev of
        NotReady \<Rightarrow> span_turn outcome sp s
      | Ready batch \<Rightarrow> end_of_turn (s\<lparr>rs_driver := fst (driver_events batch (rs_driver s))\<rparr>)
      | ChannelClosed \<Rightarrow> end_of_turn (s\<lparr>rs_event_closed := True\<rparr>))"

text \<open>None: the polls ran out while the loop was still waiting.\<close>

fun driver_run :: "((nat \<Rightarrow> send_outcome) \<times> event_message polled \<times> span_record polled) list
    \<Rightarrow> run_state \<Rightarrow> run_state option" where
  "driver_run [] s = None"
| "driver_run ((outcome, ev, sp) # polls) s =
     (case driver_turn outcome ev sp s of
        Stop s' \<Rightarrow> Some s'
      | Again s' \<Rightarrow> driver_run polls s')"

section \<open>Parking and attaching\<close>

lemma park_event_room:
  "length side < cap \<or> bt_get side (em_parent_actual_id m) \<noteq> None \<Longrightarrow>
     park_event cap m side = (bt_push (em_parent_actual_id m) (em_record m) side, [])"
  by (auto simp: park_event_def bt_push_def Let_def split: option.split)

lemma park_event_ok: "bt_ok side \<Longrightarrow> bt_ok (fst (park_event cap m side))"
  by (auto simp: park_event_def Let_def bt_simps split: option.split)

lemma park_event_bound:
  assumes "bt_ok side" "length side \<le> max cap 1"
  shows "length (fst (park_event cap m side)) \<le> max cap 1"
proof (cases "bt_get side (em_parent_actual_id m)")
  case (Some events)
  then show ?thesis using assms by (simp add: park_event_def Let_def length_bt_insert)
next
  case None
  have "length (bt_insert (em_parent_actual_id m) xs (bt_pop_first side)) \<le> Suc (length side - 1)" for xs
    using assms(1) by (simp add: length_bt_insert bt_simps)
  moreover have "length (bt_insert (em_parent_actual_id m) xs side) = Suc (length side)" for xs
    using assms(1) None by (simp add: length_bt_insert)
  moreover have "Suc (length side - 1) \<le> max cap 1" using assms(2) by auto
  ultimately show ?thesis
    using None by (auto simp: park_event_def Let_def not_le intro: order_trans)
qed

lemma flush_event_batch_Cons:
  "fst (flush_event_batch cap (m # ms) side) = fst (flush_event_batch cap ms (fst (park_event cap m side)))"
  "snd (flush_event_batch cap (m # ms) side) =
     snd (park_event cap m side) @ snd (flush_event_batch cap ms (fst (park_event cap m side)))"
  by (simp_all add: Let_def split: prod.split)

lemma flush_event_batch_ok: "bt_ok side \<Longrightarrow> bt_ok (fst (flush_event_batch cap ms side))"
  by (induction ms arbitrary: side)
    (simp_all add: flush_event_batch_Cons park_event_ok del: flush_event_batch.simps(2))

lemma flush_event_batch_bound:
  "bt_ok side \<Longrightarrow> length side \<le> max cap 1 \<Longrightarrow> length (fst (flush_event_batch cap ms side)) \<le> max cap 1"
  by (induction ms arbitrary: side)
    (simp_all only: flush_event_batch_Cons park_event_ok park_event_bound flush_event_batch.simps(1) fst_conv)

definition side_of :: "side_table \<Rightarrow> u64 \<Rightarrow> event_ref list" where
  "side_of side i = (case bt_get side i of None \<Rightarrow> [] | Some es \<Rightarrow> es)"

definition events_of :: "event_message list \<Rightarrow> u64 \<Rightarrow> event_ref list" where
  "events_of ms i = map em_record (filter (\<lambda>m. em_parent_actual_id m = i) ms)"

definition message_pairs :: "event_message list \<Rightarrow> (u64 \<times> event_ref) list" where
  "message_pairs ms = map (\<lambda>m. (em_parent_actual_id m, em_record m)) ms"

text \<open>While the parents fit, nothing is evicted and the buffer is the map interface's \<open>park_all\<close>.\<close>

lemma flush_events_park:
  "bt_ok side \<Longrightarrow> card (set (bt_keys side) \<union> em_parent_actual_id ` set ms) \<le> cap \<Longrightarrow>
     flush_event_batch cap ms side = (bt_parking.park_all (message_pairs ms) side, [])"
proof (induction ms arbitrary: side)
  case Nil
  then show ?case by (simp add: message_pairs_def)
next
  case (Cons m ms)
  let ?p = "em_parent_actual_id m"
  have dist: "card (set (bt_keys side)) = length side"
    using distinct_card [OF bt_ok_distinct [OF Cons.prems(1)]] by simp
  have room: "length side < cap \<or> bt_get side ?p \<noteq> None"
  proof (rule disjCI)
    assume "\<not> bt_get side ?p \<noteq> None"
    then have "?p \<notin> set (bt_keys side)" by (simp add: map_of_eq_None_iff)
    then have "Suc (length side) = card (insert ?p (set (bt_keys side)))" using dist by simp
    also have "\<dots> \<le> card (set (bt_keys side) \<union> em_parent_actual_id ` set (m # ms))"
      by (intro card_mono) auto
    finally show "length side < cap" using Cons.prems(2) by simp
  qed
  let ?s = "bt_push ?p (em_record m) side"
  have "set (bt_keys ?s) \<union> em_parent_actual_id ` set ms = set (bt_keys side) \<union> em_parent_actual_id ` set (m # ms)"
    by (auto simp: bt_push_def bt_keys_insert simp del: set_map)
  then have "flush_event_batch cap ms ?s = (bt_parking.park_all (message_pairs ms) ?s, [])"
    using Cons.IH [of ?s] Cons.prems by (simp add: bt_ok_push)
  then show ?case
    using park_event_room [OF room] by (simp add: message_pairs_def)
qed

lemma side_of_park: "bt_ok side \<Longrightarrow> side_of (bt_parking.park_all (message_pairs ms) side) i = side_of side i @ events_of ms i"
  using bt_parking.park_all_waiting [of side "message_pairs ms" i]
  by (simp add: side_of_def events_of_def message_pairs_def filter_map comp_def)

lemma prepare_attaches:
  "bt_ok side \<Longrightarrow> distinct (map sr_id ss) \<Longrightarrow> any_side \<or> side = [] \<Longrightarrow>
     fst (prepare any_side ss side) = map (\<lambda>s. s\<lparr>sr_events := sr_events s @ side_of side (sr_id s)\<rparr>) ss \<and>
     bt_ok (snd (prepare any_side ss side)) \<and>
     bt_get (snd (prepare any_side ss side)) = (\<lambda>i. if i \<in> sr_id ` set ss then None else bt_get side i)"
proof (induction ss arbitrary: side)
  case (Cons s ss)
  obtain s' side' where a: "attach_events any_side s side = (s', side')" by fastforce
  have s': "s' = s\<lparr>sr_events := sr_events s @ side_of side (sr_id s)\<rparr>"
    using a Cons.prems(3) by (auto simp: attach_events_def side_of_def split: if_splits option.splits)
  have side': "bt_ok side'" "bt_get side' = (bt_get side)(sr_id s := None)" "any_side \<or> side' = []"
    using a Cons.prems(1,3)
    by (auto simp: attach_events_def bt_simps fun_eq_iff split: if_splits option.splits)
  have "side_of side' i = side_of side i" if "i \<noteq> sr_id s" for i
    using that by (simp add: side_of_def side'(2))
  moreover have "sr_id x \<noteq> sr_id s" if "x \<in> set ss" for x
    using Cons.prems(2) that by (metis distinct.simps(2) image_eqI list.set_map list.simps(9))
  ultimately have "map (\<lambda>s. s\<lparr>sr_events := sr_events s @ side_of side' (sr_id s)\<rparr>) ss =
      map (\<lambda>s. s\<lparr>sr_events := sr_events s @ side_of side (sr_id s)\<rparr>) ss"
    by simp
  with Cons.IH [OF side'(1) _ side'(3)] Cons.prems(2) show ?case
    by (auto simp: a s' side'(2) Let_def fun_eq_iff split: prod.split)
qed simp

lemma deliver_all_ok:
  "\<forall>b \<in> set bs. outcome (sb_sender b) = SendOk \<Longrightarrow>
     deliver outcome prepared bs = map (\<lambda>b. b\<lparr>sb_inbox := sb_inbox b @ map span_clone prepared\<rparr>) bs"
  by (induction outcome prepared bs rule: deliver.induct) auto

lemma ref_clone_id: "map ref_clone rs = rs"
  by (induction rs) (simp_all add: ref_clone_def)

lemma span_clone_id [simp]: "span_clone s = s"
  by (simp add: span_clone_def ref_clone_id)

section \<open>Properties\<close>

text \<open>C22. Draining: when the parents of the waiting events fit into the buffer and every subscriber
  takes the batch, each subscriber gets every span, in the order of the channel, with its earlier
  events, then those already parked for it, then those of this drain in the order they were
  received; what stays parked belongs to other spans, and no event is dropped from the buffer.\<close>

theorem drain_attaches_events:
  assumes "bt_ok (dr_side_events d)" "distinct (map sr_id spans)" "spans \<noteq> []"
    and "card (set (bt_keys (dr_side_events d)) \<union> em_parent_actual_id ` set events) \<le> dr_capacity d"
    and "\<forall>b \<in> set (dr_subscribers d). outcome (sb_sender b) = SendOk"
  shows "dr_subscribers (fst (drain_sync outcome events spans d)) =
      map (\<lambda>b. b\<lparr>sb_inbox := sb_inbox b @ map (\<lambda>s. s\<lparr>sr_events := sr_events s @
          side_of (dr_side_events d) (sr_id s) @ events_of events (sr_id s)\<rparr>) spans\<rparr>) (dr_subscribers d) \<and>
    (\<forall>i. side_of (dr_side_events (fst (drain_sync outcome events spans d))) i =
      (if i \<in> sr_id ` set spans then [] else side_of (dr_side_events d) i @ events_of events i))"
proof -
  define side where "side = bt_parking.park_all (message_pairs events) (dr_side_events d)"
  have ok: "bt_ok side" unfolding side_def by (rule bt_parking.park_all_ok [OF assms(1)])
  have of: "side_of side i = side_of (dr_side_events d) i @ events_of events i" for i
    unfolding side_def by (rule side_of_park [OF assms(1)])
  have ev: "driver_events events d = (d\<lparr>dr_side_events := side\<rparr>, [])"
    using flush_events_park [OF assms(1,4)] by (simp add: driver_events_def side_def)
  obtain ss rest where p: "prepare (side \<noteq> []) spans side = (ss, rest)" by fastforce
  have P: "ss = map (\<lambda>s. s\<lparr>sr_events := sr_events s @ side_of side (sr_id s)\<rparr>) spans"
    "bt_get rest = (\<lambda>i. if i \<in> sr_id ` set spans then None else bt_get side i)"
    using prepare_attaches [OF ok assms(2), of "side \<noteq> []"] p by simp_all
  have "ss \<noteq> []" using P(1) assms(3) by simp
  then have D: "drain_sync outcome events spans d =
      (d\<lparr>dr_side_events := rest, dr_subscribers := deliver outcome ss (dr_subscribers d)\<rparr>,
       fanout_drops outcome ss (dr_subscribers d))"
    using assms(3) p by (simp add: drain_sync_def ev flush_span_batch_def fanout_under_lock_def)
  have "side_of rest i = (if i \<in> sr_id ` set spans then [] else side_of side i)" for i
    by (simp add: side_of_def P(2))
  then show ?thesis
    by (simp add: D deliver_all_ok [OF assms(5)] P(1) of comp_def append_assoc)
qed

lemma drain_attaches_events_witness:
  "\<exists>d events spans. dr_subscribers (fst (drain_sync (\<lambda>_. SendOk) events spans d)) =
     [\<lparr>sb_sender = 0, sb_inbox = map (\<lambda>s. s\<lparr>sr_events := sr_events s @
        side_of (dr_side_events d) (sr_id s) @ events_of events (sr_id s)\<rparr>) spans\<rparr>] \<and>
     map sr_id spans = [1024, 1025] \<and> length (events_of events 1025) = 2"
proof -
  let ?r = "\<lparr>rr_value = event_default, rr_shard = 0\<rparr>"
  let ?d = "\<lparr>dr_capacity = 4, dr_side_events = [(1024, [?r])], dr_subscribers = [\<lparr>sb_sender = 0, sb_inbox = []\<rparr>]\<rparr>"
  let ?es = "[\<lparr>em_parent_actual_id = 1025, em_record = ?r\<rparr>, \<lparr>em_parent_actual_id = 1025, em_record = ?r\<rparr>]"
  let ?s = "\<lambda>i. \<lparr>sr_id = i, sr_parent_id = None, sr_metadata = empty_metadata, sr_fields = [], sr_events = [],
    sr_opened_at = 0, sr_closed_at = Some 1\<rparr>"
  have "dr_subscribers (fst (drain_sync (\<lambda>_. SendOk) ?es [?s 1024, ?s 1025] ?d)) =
     [\<lparr>sb_sender = 0, sb_inbox = map (\<lambda>s. s\<lparr>sr_events := sr_events s @
        side_of (dr_side_events ?d) (sr_id s) @ events_of ?es (sr_id s)\<rparr>) [?s 1024, ?s 1025]\<rparr>]"
    using drain_attaches_events [of ?d "[?s 1024, ?s 1025]" ?es "\<lambda>_. SendOk"]
    by (simp add: bt_ok_def card_insert_if)
  then show ?thesis
    by (intro exI [of _ ?d] exI [of _ ?es] exI [of _ "[?s 1024, ?s 1025]"]) (simp add: events_of_def)
qed

lemmas turn_defs = driver_turn_def span_turn_def end_of_turn_def

lemma turn_stop: "driver_turn outcome ev sp s = Stop s' \<Longrightarrow> rs_span_closed s' \<and> rs_event_closed s'"
  by (auto simp: turn_defs split: if_splits polled.splits)

lemma turn_keeps_closed: "driver_turn outcome ev sp s = Again s' \<Longrightarrow> rs_event_closed s \<Longrightarrow> rs_event_closed s'"
  by (auto simp: turn_defs split: if_splits polled.splits)

lemma driver_run_closed: "driver_run polls s = Some s' \<Longrightarrow> rs_span_closed s' \<and> rs_event_closed s'"
  by (induction polls s rule: driver_run.induct) (auto dest: turn_stop split: turn.splits)

lemma driver_run_append:
  "(\<exists>s'. driver_run (xs @ ys) s = Some s') \<or>
   (\<exists>s1. driver_run (xs @ ys) s = driver_run ys s1 \<and> (rs_event_closed s \<longrightarrow> rs_event_closed s1))"
proof (induction xs s rule: driver_run.induct)
  case (2 outcome ev sp polls s)
  show ?case
  proof (cases "driver_turn outcome ev sp s")
    case (Again s1)
    from 2 [OF this] turn_keeps_closed [OF this] show ?thesis by (auto simp: Again)
  qed simp
qed auto

text \<open>C23. The loop ends when the channels do: whatever was received before, once the event channel
  and later the span channel report that they are closed, the loop has returned, with both
  branches disabled.\<close>

theorem driver_stops:
  "\<exists>s'. driver_run (xs @ (o1, ChannelClosed, p) # ys @ (o2, q, ChannelClosed) # zs) s = Some s' \<and>
     rs_span_closed s' \<and> rs_event_closed s'"
proof -
  have last: "\<exists>s'. driver_run ((o2, q, ChannelClosed) # zs) s = Some s'" if "rs_event_closed s" for s
    using that by (simp add: turn_defs)
  have mid: "\<exists>s'. driver_run (ys @ (o2, q, ChannelClosed) # zs) s = Some s'" if "rs_event_closed s" for s
    using driver_run_append [of ys "(o2, q, ChannelClosed) # zs" s] that last by auto
  have fst: "\<exists>s'. driver_run ((o1, ChannelClosed, p) # ys @ (o2, q, ChannelClosed) # zs) s = Some s'" for s
  proof (cases "driver_turn o1 ChannelClosed p s")
    case (Again s1)
    then have "rs_event_closed s1" by (auto simp: turn_defs split: if_splits polled.splits)
    from mid [OF this] show ?thesis by (simp add: Again)
  qed simp
  have "\<exists>s'. driver_run (xs @ (o1, ChannelClosed, p) # ys @ (o2, q, ChannelClosed) # zs) s = Some s'"
    using driver_run_append [of xs "(o1, ChannelClosed, p) # ys @ (o2, q, ChannelClosed) # zs" s] fst by metis
  then show ?thesis using driver_run_closed by blast
qed

end
