(* ===== verification/System.thy ===== *)
theory System
  imports CacheOps Driver "HOL-Library.Sublist"
begin

text \<open>
  The cache and its driver as one system: any number of threads call the subscriber's methods, the
  driver takes batches from the two channels and subscribers come and go, in any interleaving. A
  batch is any part of what a channel holds, in any order: \<open>spillway\<close> only promises to deliver what
  was sent, once. Two history variables record what happened: every event that was accepted, with
  its parent, and every span that was fanned out.
\<close>

section \<open>The system\<close>

record system =
  sy_cache :: span_cache
  sy_threads :: "thread_state list"
  sy_next_key :: u64
  sy_driver :: driver
  sy_emitted :: "(u64 \<times> event_record) list"
  sy_delivered :: "span_record list"

datatype action =
    SpawnThread
  | NewSpan nat attributes "(usize, span_record) btree \<Rightarrow> usize" u64 instant
  | RecordFields nat u64 "(string \<times> visited) list"
  | EmitEvent nat "u64 option" metadata "(string \<times> visited) list" instant bool send_outcome send_outcome "bool list"
  | EnterSpan nat u64
  | ExitSpan nat u64
  | CloseSpan nat u64 instant send_outcome send_outcome "bool list"
  | FlushPending nat send_outcome send_outcome "bool list"
  | Subscribe nat
  | EventBatch "event_message list" "bool list"
  | SpanBatch "nat \<Rightarrow> send_outcome" "span_record list" "bool list"

definition sys_new :: "usize \<Rightarrow> cache_config \<Rightarrow> system" where
  "sys_new capacity config =
     (let (c, d) = with_predicate_and_config capacity config
      in \<lparr>sy_cache = c, sy_threads = [], sy_next_key = 0, sy_driver = d, sy_emitted = [], sy_delivered = []\<rparr>)"

definition sys_view :: "system \<Rightarrow> nat \<Rightarrow> view" where
  "sys_view s t = \<lparr>vw_cache = sy_cache s, vw_thread = sy_threads s ! t, vw_next_key = sy_next_key s\<rparr>"

definition sys_put :: "system \<Rightarrow> nat \<Rightarrow> view \<Rightarrow> system" where
  "sys_put s t v = s\<lparr>sy_cache := vw_cache v, sy_threads := (sy_threads s)[t := vw_thread v], sy_next_key := vw_next_key v\<rparr>"

definition recycle :: "bool list \<Rightarrow> event_ref list \<Rightarrow> span_cache \<Rightarrow> span_cache" where
  "recycle luck gone c = c\<lparr>sc_event_pool := drop_refs luck gone (sc_event_pool c)\<rparr>"

definition taken :: "'a list \<Rightarrow> 'a list \<Rightarrow> 'a list" where
  "taken batch channel = fold remove1 batch channel"

definition accepted :: "u64 option \<Rightarrow> metadata \<Rightarrow> (string \<times> visited) list \<Rightarrow> instant \<Rightarrow> view \<Rightarrow> (u64 \<times> event_record) list" where
  "accepted parent md vals now v =
     (case event_parent parent v of
        Some (Some a) \<Rightarrow> [(a, \<lparr>er_metadata = Some md, er_fields = visit_all vals [], er_recorded_at = Some now\<rparr>)]
      | _ \<Rightarrow> [])"

fun sys_step :: "(span_parent \<Rightarrow> metadata \<Rightarrow> u64 \<Rightarrow> bool) \<Rightarrow> system \<Rightarrow> action \<Rightarrow> system option" where
  "sys_step pred s SpawnThread = Some (s\<lparr>sy_threads := sy_threads s @ [thread_new]\<rparr>)"
| "sys_step pred s (NewSpan t attrs slot rnd now) =
     map_option (\<lambda>r. sys_put s t (snd r)) (new_span pred slot attrs rnd now (sys_view s t))"
| "sys_step pred s (RecordFields t i vals) = map_option (sys_put s t) (record_fields i vals (sys_view s t))"
| "sys_step pred s (EmitEvent t parent md vals now locked eo so luck) =
     map_option (\<lambda>v. (sys_put s t v)\<lparr>sy_emitted := sy_emitted s @ accepted parent md vals now (sys_view s t)\<rparr>)
       (record_event parent md vals now locked eo so luck (sys_view s t))"
| "sys_step pred s (EnterSpan t i) = map_option (sys_put s t) (enter i (sys_view s t))"
| "sys_step pred s (ExitSpan t i) = Some (sys_put s t (exit_span i (sys_view s t)))"
| "sys_step pred s (CloseSpan t i now eo so luck) =
     map_option (\<lambda>r. sys_put s t (snd r)) (try_close i now eo so luck (sys_view s t))"
| "sys_step pred s (FlushPending t eo so luck) = Some (sys_put s t (flush_pending eo so luck (sys_view s t)))"
| "sys_step pred s (Subscribe sender) = Some (s\<lparr>sy_driver := subscribe sender (sy_driver s)\<rparr>)"
| "sys_step pred s (EventBatch batch luck) =
     (let c = sy_cache s; (d, gone) = driver_events batch (sy_driver s)
      in Some (s\<lparr>sy_cache := recycle luck gone (c\<lparr>sc_event_channel := taken batch (sc_event_channel c)\<rparr>), sy_driver := d\<rparr>))"
| "sys_step pred s (SpanBatch outcome batch luck) =
     (let c = sy_cache s; (d, gone) = flush_span_batch outcome batch (sy_driver s);
          any_side = (dr_side_events (sy_driver s) \<noteq> [])
      in Some (s\<lparr>sy_cache := recycle luck gone (c\<lparr>sc_span_channel := taken batch (sc_span_channel c)\<rparr>), sy_driver := d,
                sy_delivered := sy_delivered s @ fst (prepare any_side batch (dr_side_events (sy_driver s)))\<rparr>))"

text \<open>What the environment guarantees of an action: the thread exists, an id passed in is one the
  cache could have handed out, the slab crate picks a vacant key, a batch comes out of its channel,
  and the 64-bit space of actual ids is not used up.\<close>

fun sys_ok :: "system \<Rightarrow> action \<Rightarrow> bool" where
  "sys_ok s SpawnThread = True"
| "sys_ok s (NewSpan t attrs slot rnd now) \<longleftrightarrow> t < length (sy_threads s) \<and> parent_valid (sy_cache s) (at_parent attrs) \<and>
     slot_ok slot (sc_shard_capacity (sy_cache s)) \<and> unat (sc_id_high_water (sy_cache s)) + 1024 < 2 ^ 64"
| "sys_ok s (RecordFields t i vals) \<longleftrightarrow> t < length (sy_threads s) \<and> unat (sc_id_high_water (sy_cache s)) + 1024 < 2 ^ 64"
| "sys_ok s (EmitEvent t parent md vals now locked eo so luck) \<longleftrightarrow> t < length (sy_threads s) \<and>
     (\<forall>i. parent = Some i \<longrightarrow> id_valid (sy_cache s) i) \<and> unat (sc_id_high_water (sy_cache s)) + 1024 < 2 ^ 64"
| "sys_ok s (EnterSpan t i) \<longleftrightarrow> t < length (sy_threads s) \<and> id_valid (sy_cache s) i \<and>
     unat (sc_id_high_water (sy_cache s)) + 1024 < 2 ^ 64"
| "sys_ok s (ExitSpan t i) \<longleftrightarrow> t < length (sy_threads s) \<and> unat (sc_id_high_water (sy_cache s)) + 1024 < 2 ^ 64"
| "sys_ok s (CloseSpan t i now eo so luck) \<longleftrightarrow> t < length (sy_threads s) \<and> unat (sc_id_high_water (sy_cache s)) + 1024 < 2 ^ 64"
| "sys_ok s (FlushPending t eo so luck) \<longleftrightarrow> t < length (sy_threads s) \<and> unat (sc_id_high_water (sy_cache s)) + 1024 < 2 ^ 64"
| "sys_ok s (Subscribe sender) = True"
| "sys_ok s (EventBatch batch luck) \<longleftrightarrow> mset batch \<subseteq># mset (sc_event_channel (sy_cache s))"
| "sys_ok s (SpanBatch outcome batch luck) \<longleftrightarrow> mset batch \<subseteq># mset (sc_span_channel (sy_cache s))"

section \<open>Invariant\<close>

definition cursors :: "system \<Rightarrow> nat \<Rightarrow> u64" where
  "cursors s t = (if t < length (sy_threads s) then th_id_cursor (sy_threads s ! t) else 0)"

definition sys_keys :: "system \<Rightarrow> span_key multiset" where
  "sys_keys s = keys_of (open_spans (sy_cache s)) + keys_of (concat (map th_pending_span (sy_threads s))) +
     keys_of (sc_span_channel (sy_cache s)) + keys_of (sy_delivered s)"

definition sys_messages :: "system \<Rightarrow> event_message set" where
  "sys_messages s = (\<Union>th \<in> set (sy_threads s). set (th_pending_event th)) \<union> set (sc_event_channel (sy_cache s))"

definition ids_unique :: "span_key multiset \<Rightarrow> bool" where
  "ids_unique K \<longleftrightarrow> (\<forall>i. count (image_mset fst K) i \<le> 1)"

definition key_attributed :: "(u64 \<times> event_record) set \<Rightarrow> span_key \<Rightarrow> bool" where
  "key_attributed E k \<longleftrightarrow> (\<forall>e \<in> set (snd k). (fst k, rr_value e) \<in> E)"

definition message_attributed :: "(u64 \<times> event_record) set \<Rightarrow> event_message \<Rightarrow> bool" where
  "message_attributed E m \<longleftrightarrow> (em_parent_actual_id m, rr_value (em_record m)) \<in> E"

definition side_attributed :: "(u64 \<times> event_record) set \<Rightarrow> side_table \<Rightarrow> bool" where
  "side_attributed E side \<longleftrightarrow> (\<forall>i. key_attributed E (i, side_of side i))"

definition driver_ok :: "(u64 \<times> event_record) set \<Rightarrow> span_record list \<Rightarrow> driver \<Rightarrow> bool" where
  "driver_ok E delivered d \<longleftrightarrow> bt_ok (dr_side_events d) \<and> length (dr_side_events d) \<le> max (dr_capacity d) 1 \<and>
     side_attributed E (dr_side_events d) \<and> (\<forall>b \<in> set (dr_subscribers d). subseq (sb_inbox b) delivered)"

definition sys_inv :: "system \<Rightarrow> bool" where
  "sys_inv s \<longleftrightarrow> cache_ok (sy_cache s) \<and> ids_unique (sys_keys s) \<and>
     reserved (cursors s) (sc_id_high_water (sy_cache s)) (fst ` set_mset (sys_keys s)) \<and>
     (\<forall>k \<in># sys_keys s. key_attributed (set (sy_emitted s)) k) \<and>
     (\<forall>m \<in> sys_messages s. message_attributed (set (sy_emitted s)) m) \<and>
     driver_ok (set (sy_emitted s)) (sy_delivered s) (sy_driver s)"

lemma ids_unique_sub: "ids_unique K \<Longrightarrow> K' \<subseteq># K \<Longrightarrow> ids_unique K'"
  unfolding ids_unique_def by (meson image_mset_subseteq_mono mset_subset_eq_count order_trans)

lemma ids_unique_add:
  assumes "ids_unique K" "fst k \<notin> fst ` set_mset K"
  shows "ids_unique (add_mset k K)"
proof -
  have "count (image_mset fst K) (fst k) = 0" using assms(2) by (simp add: count_eq_zero_iff)
  then show ?thesis using assms(1) by (auto simp: ids_unique_def)
qed

lemma ids_unique_distinct: "ids_unique (keys_of rs) \<Longrightarrow> distinct (map sr_id rs)"
proof -
  assume u: "ids_unique (keys_of rs)"
  have "image_mset fst (keys_of rs) = mset (map sr_id rs)"
    by (simp add: keys_of_def key_of_def multiset.map_comp comp_def)
  then have "count (mset (map sr_id rs)) i \<le> 1" for i using u by (simp add: ids_unique_def)
  then have "count (mset (map sr_id rs)) i = (if i \<in> set (map sr_id rs) then 1 else 0)" for i
    by (metis One_nat_def count_mset_0_iff le_SucE le_zero_eq)
  then show ?thesis unfolding distinct_count_atmost_1 by blast
qed

lemma reserved_sub: "reserved cs hw U \<Longrightarrow> V \<subseteq> U \<Longrightarrow> reserved cs hw V"
  unfolding reserved_def by blast

lemma key_attributed_mono: "key_attributed E k \<Longrightarrow> E \<subseteq> E' \<Longrightarrow> key_attributed E' k"
  by (auto simp: key_attributed_def)

lemma driver_ok_mono: "driver_ok E del d \<Longrightarrow> E \<subseteq> E' \<Longrightarrow> driver_ok E' del d"
  unfolding driver_ok_def side_attributed_def by (metis key_attributed_mono)

lemma taken_mset: "mset (taken batch channel) = mset channel - mset batch"
proof -
  have "mset (fold remove1 batch channel) = mset channel - mset batch" for channel
    by (induction batch arbitrary: channel) (simp_all add: diff_diff_add)
  then show ?thesis by (simp add: taken_def)
qed

lemma set_taken: "set (taken batch channel) \<subseteq> set channel"
  by (metis diff_subset_eq_self set_mset_mono set_mset_mset taken_mset)

section \<open>Thread actions keep the invariant\<close>

lemma allocation_reserved:
  assumes R: "reserved (cursors s) hw U" and room: "unat hw + 1024 < 2 ^ 64"
    and a: "(i, c, hw') = allocate_actual_id (cursors s t) hw"
  shows "i \<notin> U" "reserved ((cursors s)(t := c)) hw' (insert i U)"
proof -
  have "i \<notin> U \<and> reserved ((cursors s)(t := c)) hw' (insert i U)"
  proof (cases "unat (cursors s t) mod 1024 = 0")
    case True
    then have "i = hw" "c = hw + 1" "hw' = hw + ID_BATCH"
      using a batch_boundary [of "cursors s t"] by (simp_all add: allocate_actual_id_def)
    then show ?thesis using reserved_refill(1) [OF R room] reserved_refill(2) [OF R room, of t] by simp
  next
    case False
    then have "i = cursors s t" "c = cursors s t + 1" "hw' = hw"
      using a batch_boundary [of "cursors s t"] by (simp_all add: allocate_actual_id_def)
    then show ?thesis using reserved_hit(1) [OF R False] reserved_hit(2) [OF R False] by simp
  qed
  then show "i \<notin> U" "reserved ((cursors s)(t := c)) hw' (insert i U)" by simp_all
qed

lemma sys_put_keys:
  assumes "t < length (sy_threads s)"
  shows "sys_keys (sys_put s t v) + view_keys (sys_view s t) = sys_keys s + view_keys v"
proof -
  have "mset (concat (map th_pending_span ((sy_threads s)[t := vw_thread v]))) + mset (th_pending_span (sy_threads s ! t)) =
      mset (concat (map th_pending_span (sy_threads s))) + mset (th_pending_span (vw_thread v))"
    by (rule mset_concat_update [OF assms])
  then have "image_mset key_of (mset (concat (map th_pending_span ((sy_threads s)[t := vw_thread v])))
        + mset (th_pending_span (sy_threads s ! t))) =
      image_mset key_of (mset (concat (map th_pending_span (sy_threads s))) + mset (th_pending_span (vw_thread v)))"
    by (rule arg_cong)
  then have "keys_of (concat (map th_pending_span ((sy_threads s)[t := vw_thread v]))) + keys_of (th_pending_span (sy_threads s ! t)) =
      keys_of (concat (map th_pending_span (sy_threads s))) + keys_of (th_pending_span (vw_thread v))"
    unfolding keys_of_def image_mset_union .
  then show ?thesis
    by (simp add: sys_keys_def sys_put_def view_keys_def sys_view_def add_ac)
qed

lemma sys_put_messages:
  assumes "t < length (sy_threads s)"
  shows "sys_messages (sys_put s t v) \<subseteq> sys_messages s \<union> view_messages v"
  using set_update_subset_insert [of "sy_threads s" t "vw_thread v"]
  by (auto simp: sys_messages_def sys_put_def view_messages_def)

lemma sys_view_messages: "t < length (sy_threads s) \<Longrightarrow> view_messages (sys_view s t) \<subseteq> sys_messages s"
  using nth_mem [of t "sy_threads s"] by (auto simp: view_messages_def sys_view_def sys_messages_def simp del: nth_mem)

lemma cursors_put: "t < length (sy_threads s) \<Longrightarrow> cursors (sys_put s t v) = (cursors s)(t := th_id_cursor (vw_thread v))"
  by (auto simp: cursors_def sys_put_def fun_eq_iff)

lemma thread_step_ids:
  assumes inv: "sys_inv s" and t: "t < length (sy_threads s)"
    and fx: "op_effect (sys_view s t) v ns es"
    and room: "unat (sc_id_high_water (sy_cache s)) + 1024 < 2 ^ 64"
  shows "sys_keys (sys_put s t v) \<subseteq># sys_keys s + mset (map (\<lambda>i. (i, [])) ns)"
    "ids_unique (sys_keys (sys_put s t v))"
    "reserved (cursors (sys_put s t v)) (sc_id_high_water (vw_cache v)) (fst ` set_mset (sys_keys (sys_put s t v)))"
proof -
  let ?K = "sys_keys s" and ?K' = "sys_keys (sys_put s t v)" and ?N = "mset (map (\<lambda>i. (i, [] :: event_ref list)) ns)"
  let ?V = "view_keys (sys_view s t)"
  have "?K' + ?V = ?K + view_keys v" by (rule sys_put_keys [OF t])
  also have "\<dots> \<subseteq># ?K + (?V + ?N)" using fx by (simp add: op_effect_def)
  also have "\<dots> = (?K + ?N) + ?V" by (simp only: add_ac)
  finally show sub: "?K' \<subseteq># ?K + ?N" by simp
  have R: "reserved (cursors s) (sc_id_high_water (sy_cache s)) (fst ` set_mset ?K)" and u: "ids_unique ?K"
    using inv by (simp_all add: sys_inv_def)
  have cur: "cursors s t = th_id_cursor (vw_thread (sys_view s t))" using t by (simp add: cursors_def sys_view_def)
  have ids: "fst ` set_mset ?K' \<subseteq> set ns \<union> fst ` set_mset ?K"
    using set_mset_mono [OF sub] by fastforce
  have "ids_step (sys_view s t) v ns" using fx by (simp add: op_effect_def)
  then consider (same) "ns = []" "th_id_cursor (vw_thread v) = cursors s t"
      "sc_id_high_water (vw_cache v) = sc_id_high_water (sy_cache s)"
    | (alloc) i where "ns = [] \<or> ns = [i]" "(i, th_id_cursor (vw_thread v), sc_id_high_water (vw_cache v)) =
        allocate_actual_id (cursors s t) (sc_id_high_water (sy_cache s))"
    by (auto simp: ids_step_def cur sys_view_def)
  then have "ids_unique ?K' \<and> reserved (cursors (sys_put s t v)) (sc_id_high_water (vw_cache v)) (fst ` set_mset ?K')"
  proof cases
    case same
    have "cursors (sys_put s t v) = cursors s" using same by (simp add: cursors_put [OF t])
    then show ?thesis
      using same sub ids u reserved_sub [OF R] ids_unique_sub by auto
  next
    case (alloc i)
    note A = allocation_reserved [OF R room alloc(2)]
    have "reserved (cursors (sys_put s t v)) (sc_id_high_water (vw_cache v)) (fst ` set_mset ?K')"
      unfolding cursors_put [OF t] by (rule reserved_sub [OF A(2)]) (use ids alloc(1) in auto)
    moreover have "ids_unique (?K + ?N)"
      using alloc(1) u ids_unique_add [OF u, of "(i, [])"] A(1) by auto
    ultimately show ?thesis using ids_unique_sub [OF _ sub] by simp
  qed
  then show "ids_unique ?K'"
    "reserved (cursors (sys_put s t v)) (sc_id_high_water (vw_cache v)) (fst ` set_mset ?K')" by simp_all
qed

lemma thread_step_inv:
  assumes inv: "sys_inv s" and t: "t < length (sy_threads s)"
    and fx: "op_effect (sys_view s t) v ns es"
    and room: "unat (sc_id_high_water (sy_cache s)) + 1024 < 2 ^ 64"
    and em: "set (sy_emitted s) \<subseteq> set em" "\<forall>m \<in> set es. message_attributed (set em) m"
  shows "sys_inv ((sys_put s t v)\<lparr>sy_emitted := em\<rparr>)"
proof -
  note I = thread_step_ids [OF inv t fx room]
  let ?s = "(sys_put s t v)\<lparr>sy_emitted := em\<rparr>"
  have same: "sys_keys ?s = sys_keys (sys_put s t v)" "sys_messages ?s = sys_messages (sys_put s t v)"
    "cursors ?s = cursors (sys_put s t v)" "sy_cache ?s = vw_cache v" "sy_delivered ?s = sy_delivered s"
    "sy_driver ?s = sy_driver s" "sy_emitted ?s = em"
    by (simp_all add: sys_keys_def sys_messages_def cursors_def fun_eq_iff sys_put_def)
  have "key_attributed (set em) k" if "k \<in># sys_keys (sys_put s t v)" for k
  proof -
    have "k \<in># sys_keys s \<or> snd k = []" using set_mset_mono [OF I(1)] that by auto
    then show ?thesis
      using inv em(1) key_attributed_mono by (auto simp: sys_inv_def key_attributed_def)
  qed
  moreover have "message_attributed (set em) m" if "m \<in> sys_messages (sys_put s t v)" for m
  proof -
    have "m \<in> sys_messages s \<or> m \<in> set es"
      using sys_put_messages [OF t] sys_view_messages [OF t] that fx by (auto simp: op_effect_def)
    then show ?thesis using inv em by (auto simp: sys_inv_def message_attributed_def)
  qed
  moreover have "driver_ok (set em) (sy_delivered s) (sy_driver s)"
    using inv em(1) driver_ok_mono by (auto simp: sys_inv_def)
  moreover have "cache_ok (vw_cache v)" using fx by (simp add: op_effect_def)
  ultimately show ?thesis unfolding sys_inv_def same using I(2,3) by blast
qed

lemma sys_put_emitted: "(sys_put s t v)\<lparr>sy_emitted := sy_emitted s\<rparr> = sys_put s t v"
  by (simp add: sys_put_def)

lemma thread_step_quiet:
  assumes "sys_inv s" "t < length (sy_threads s)" "op_effect (sys_view s t) v ns []"
    "unat (sc_id_high_water (sy_cache s)) + 1024 < 2 ^ 64"
  shows "sys_inv (sys_put s t v)"
  using thread_step_inv [OF assms, of "sy_emitted s"] by (simp add: sys_put_emitted)

section \<open>Driver actions keep the invariant\<close>

lemma recycle_ok: "cache_ok c \<Longrightarrow> cache_ok (recycle luck gone c)"
  by (simp add: recycle_def cache_ok_pool drop_refs_clean cache_ok_pool_clean)

lemma recycle_fields:
  "open_spans (recycle luck gone c) = open_spans c" "sc_span_channel (recycle luck gone c) = sc_span_channel c"
  "sc_event_channel (recycle luck gone c) = sc_event_channel c"
  "sc_id_high_water (recycle luck gone c) = sc_id_high_water c"
  by (simp_all add: recycle_def)

lemma side_of_insert: "bt_ok side \<Longrightarrow> side_of (bt_insert k es side) i = (if i = k then es else side_of side i)"
  by (simp add: side_of_def bt_simps)

lemma side_of_pop: "bt_ok side \<Longrightarrow> set (side_of (bt_pop_first side) i) \<subseteq> set (side_of side i)"
  using bt_get_none [of "hd side" "tl side" i] by (cases side) (auto simp: side_of_def split: option.splits)

lemma park_event_attributed:
  assumes "bt_ok side" "side_attributed E side" "message_attributed E m"
  shows "side_attributed E (fst (park_event cap m side))"
proof (cases "bt_get side (em_parent_actual_id m)")
  case (Some events)
  then have "side_of side (em_parent_actual_id m) = events" by (simp add: side_of_def)
  with assms Some show ?thesis
    by (auto simp: park_event_def Let_def side_attributed_def key_attributed_def message_attributed_def side_of_insert)
next
  case None
  have "side_attributed E (bt_insert (em_parent_actual_id m) [em_record m] side')"
    if "bt_ok side'" "\<And>i. set (side_of side' i) \<subseteq> set (side_of side i)" for side'
    using assms(2,3) that
    by (fastforce simp: side_attributed_def key_attributed_def message_attributed_def side_of_insert)
  from this [OF bt_ok_pop_first [OF assms(1)] side_of_pop [OF assms(1)]] this [OF assms(1)] None show ?thesis
    by (simp add: park_event_def Let_def)
qed

lemma flush_events_attributed:
  "bt_ok side \<Longrightarrow> side_attributed E side \<Longrightarrow> \<forall>m \<in> set ms. message_attributed E m \<Longrightarrow>
     side_attributed E (fst (flush_event_batch cap ms side))"
  by (induction ms arbitrary: side)
    (simp_all add: flush_event_batch_Cons park_event_attributed park_event_ok del: flush_event_batch.simps(2))

lemma driver_events_ok:
  assumes d: "driver_ok E del d" and m: "\<forall>m \<in> set batch. message_attributed E m"
  shows "driver_ok E del (fst (driver_events batch d))"
proof -
  have "bt_ok (dr_side_events d)" using d by (simp add: driver_ok_def)
  note L = flush_event_batch_ok [OF this] flush_event_batch_bound [OF this] flush_events_attributed [OF this]
  obtain side gone where f: "flush_event_batch (dr_capacity d) batch (dr_side_events d) = (side, gone)" by fastforce
  show ?thesis
    using d m L(1,2) [of "dr_capacity d" batch] L(3) [of E batch "dr_capacity d"]
    by (simp add: driver_ok_def driver_events_def f)
qed

lemma prepare_length: "length (snd (prepare any_side ss side)) \<le> length side"
proof (induction any_side ss side rule: prepare.induct)
  case (2 any_side s ss side)
  have rem: "length (bt_remove k m) \<le> length m" for k and m :: side_table by (induction m) auto
  obtain s' side' where a: "attach_events any_side s side = (s', side')" by fastforce
  have "length side' \<le> length side"
    using a rem by (auto simp: attach_events_def split: if_splits option.splits)
  with 2 [OF a [symmetric] refl] show ?case by (auto simp: a split: prod.split)
qed simp

lemma map_span_clone: "map span_clone ss = ss"
  by (induction ss) simp_all

lemma deliver_subseq:
  "\<forall>b \<in> set bs. subseq (sb_inbox b) del \<Longrightarrow> b \<in> set (deliver outcome prepared bs) \<Longrightarrow>
     subseq (sb_inbox b) (del @ prepared)"
  by (induction outcome prepared bs rule: deliver.induct)
    (auto simp: map_span_clone split: send_outcome.splits intro: list_emb_append_mono subseq_rev_drop_many)

lemma flush_spans_ok:
  assumes d: "driver_ok E del d" and ids: "distinct (map sr_id batch)"
    and k: "\<forall>r \<in> set batch. key_attributed E (key_of r)"
    and p: "prepare (dr_side_events d \<noteq> []) batch (dr_side_events d) = (prepared, side)"
  shows "driver_ok E (del @ prepared) (fst (flush_span_batch outcome batch d))"
    "map sr_id prepared = map sr_id batch" "\<forall>r \<in> set prepared. key_attributed E (key_of r)"
proof -
  have ok: "bt_ok (dr_side_events d)" "side_attributed E (dr_side_events d)"
    and subs: "\<forall>b \<in> set (dr_subscribers d). subseq (sb_inbox b) del"
    and len: "length (dr_side_events d) \<le> max (dr_capacity d) 1" using d by (simp_all add: driver_ok_def)
  note P = prepare_attaches [OF ok(1) ids, of "dr_side_events d \<noteq> []", unfolded p fst_conv snd_conv]
  have pr: "prepared = map (\<lambda>s. s\<lparr>sr_events := sr_events s @ side_of (dr_side_events d) (sr_id s)\<rparr>) batch"
    and side: "bt_ok side" "bt_get side = (\<lambda>i. if i \<in> sr_id ` set batch then None else bt_get (dr_side_events d) i)"
    using P by simp_all
  show "map sr_id prepared = map sr_id batch" by (simp add: pr comp_def)
  show "\<forall>r \<in> set prepared. key_attributed E (key_of r)"
    using k ok(2) by (auto simp: pr key_attributed_def key_of_def side_attributed_def)
  have att: "side_attributed E side"
    using ok(2) by (auto simp: side_attributed_def key_attributed_def side_of_def side(2))
  have short: "length side \<le> length (dr_side_events d)"
    using prepare_length [of "dr_side_events d \<noteq> []" batch "dr_side_events d"] p by simp
  show "driver_ok E (del @ prepared) (fst (flush_span_batch outcome batch d))"
  proof (cases "batch = []")
    case True
    then have "prepared = []" by (simp add: pr)
    with True d show ?thesis by (simp add: flush_span_batch_def)
  next
    case False
    then have "prepared \<noteq> []" by (simp add: pr)
    then show ?thesis
      using False p side(1) att short len deliver_subseq [OF subs]
      by (auto simp: driver_ok_def flush_span_batch_def fanout_under_lock_def)
  qed
qed

lemma event_batch_inv:
  assumes inv: "sys_inv s" and m: "mset batch \<subseteq># mset (sc_event_channel (sy_cache s))"
  shows "\<exists>s'. sys_step pred s (EventBatch batch luck) = Some s' \<and> sys_inv s'"
proof -
  obtain d gone where d: "driver_events batch (sy_driver s) = (d, gone)" by fastforce
  let ?c = "(sy_cache s)\<lparr>sc_event_channel := taken batch (sc_event_channel (sy_cache s))\<rparr>"
  define s' where "s' = s\<lparr>sy_cache := recycle luck gone ?c, sy_driver := d\<rparr>"
  have "set batch \<subseteq> set (sc_event_channel (sy_cache s))"
    using set_mset_mono [OF m] by simp
  then have b: "\<forall>m \<in> set batch. message_attributed (set (sy_emitted s)) m"
    using inv by (auto simp: sys_inv_def sys_messages_def)
  have dok: "driver_ok (set (sy_emitted s)) (sy_delivered s) (sy_driver s)" using inv by (simp add: sys_inv_def)
  have d': "driver_ok (set (sy_emitted s)) (sy_delivered s) d"
    using driver_events_ok [OF dok b] d by simp
  have c': "cache_ok (recycle luck gone ?c)"
    using inv by (intro recycle_ok) (simp add: sys_inv_def cache_ok_channels)
  have keys: "sys_keys s' = sys_keys s" by (simp add: sys_keys_def s'_def recycle_fields)
  have msgs: "sys_messages s' \<subseteq> sys_messages s"
    by (auto simp: sys_messages_def s'_def recycle_fields dest: subsetD [OF set_taken])
  have cur: "cursors s' = cursors s" by (simp add: cursors_def s'_def fun_eq_iff)
  have "sys_inv s'"
    unfolding sys_inv_def keys cur
    using inv msgs c' d' by (auto simp: sys_inv_def s'_def recycle_fields)
  then show ?thesis by (simp add: d s'_def Let_def)
qed

lemma image_fst_keys: "image_mset fst (keys_of rs) = mset (map sr_id rs)"
  by (simp add: keys_of_def key_of_def multiset.map_comp comp_def)

lemma span_batch_inv:
  assumes inv: "sys_inv s" and m: "mset batch \<subseteq># mset (sc_span_channel (sy_cache s))"
  shows "\<exists>s'. sys_step pred s (SpanBatch outcome batch luck) = Some s' \<and> sys_inv s'"
proof -
  let ?E = "set (sy_emitted s)"
  obtain d gone where d: "flush_span_batch outcome batch (sy_driver s) = (d, gone)" by fastforce
  obtain prepared side where p:
    "prepare (dr_side_events (sy_driver s) \<noteq> []) batch (dr_side_events (sy_driver s)) = (prepared, side)" by fastforce
  let ?c = "(sy_cache s)\<lparr>sc_span_channel := taken batch (sc_span_channel (sy_cache s))\<rparr>"
  define s' where "s' = s\<lparr>sy_cache := recycle luck gone ?c, sy_driver := d, sy_delivered := sy_delivered s @ prepared\<rparr>"
  have chan: "mset (sc_span_channel (sy_cache s)) = mset (taken batch (sc_span_channel (sy_cache s))) + mset batch"
    using m by (simp add: taken_mset)
  then have "image_mset key_of (mset (sc_span_channel (sy_cache s))) =
      image_mset key_of (mset (taken batch (sc_span_channel (sy_cache s))) + mset batch)" by (rule arg_cong)
  then have kc: "keys_of (sc_span_channel (sy_cache s)) = keys_of (taken batch (sc_span_channel (sy_cache s))) + keys_of batch"
    by (simp add: keys_of_def)
  have ks: "keys_of batch \<subseteq># sys_keys s"
    unfolding sys_keys_def kc by (simp add: add_ac)
  have ids: "distinct (map sr_id batch)"
    using ids_unique_distinct [OF ids_unique_sub [OF _ ks]] inv by (simp add: sys_inv_def)
  have katt: "\<forall>k \<in># sys_keys s. key_attributed ?E k" using inv by (simp add: sys_inv_def)
  have "\<forall>k \<in># keys_of batch. key_attributed ?E k" using set_mset_mono [OF ks] katt by blast
  then have b: "\<forall>r \<in> set batch. key_attributed ?E (key_of r)" by (simp add: keys_of_def)
  have dok: "driver_ok ?E (sy_delivered s) (sy_driver s)" using inv by (simp add: sys_inv_def)
  note F1 = flush_spans_ok(1) [OF dok ids b p, of outcome] and F = flush_spans_ok(2,3) [OF dok ids b p]
  have c': "cache_ok (recycle luck gone ?c)"
    using inv by (intro recycle_ok) (simp add: sys_inv_def cache_ok_channels)
  have keys: "sys_keys s' + keys_of batch = sys_keys s + keys_of prepared"
    by (simp add: sys_keys_def s'_def recycle_fields kc add_ac)
  then have "image_mset fst (sys_keys s' + keys_of batch) = image_mset fst (sys_keys s + keys_of prepared)"
    by (rule arg_cong)
  then have fsts: "image_mset fst (sys_keys s') = image_mset fst (sys_keys s)"
    using F(1) by (simp add: image_fst_keys del: mset_map)
  then have fset: "fst ` set_mset (sys_keys s') = fst ` set_mset (sys_keys s)"
    by (metis set_image_mset)
  have uniq: "ids_unique (sys_keys s')" using inv by (simp add: ids_unique_def fsts sys_inv_def)
  have katt': "\<forall>k \<in># sys_keys s'. key_attributed ?E k"
  proof
    fix k assume "k \<in># sys_keys s'"
    then have "k \<in># sys_keys s + keys_of prepared" unfolding keys [symmetric] by simp
    then show "key_attributed ?E k" using katt F(2) by (auto simp: keys_of_def)
  qed
  have msgs: "sys_messages s' = sys_messages s" by (simp add: sys_messages_def s'_def recycle_fields)
  have cur: "cursors s' = cursors s" by (simp add: cursors_def s'_def fun_eq_iff)
  have f: "sc_id_high_water (sy_cache s') = sc_id_high_water (sy_cache s)" "sy_emitted s' = sy_emitted s"
    "sy_delivered s' = sy_delivered s @ prepared" "sy_driver s' = d" "sy_cache s' = recycle luck gone ?c"
    by (simp_all add: s'_def recycle_fields)
  have "sys_inv s'"
    unfolding sys_inv_def cur fset msgs f(1-4)
    using inv uniq katt' c' F1 d by (simp add: sys_inv_def f(5))
  then show ?thesis by (simp add: d p s'_def Let_def)
qed

section \<open>Every run\<close>

lemma sys_view_simps [simp]: "vw_cache (sys_view s t) = sy_cache s" "vw_thread (sys_view s t) = sy_threads s ! t"
  by (simp_all add: sys_view_def)

lemma accepted_attributed:
  "event_parent parent v = Some (Some a) \<Longrightarrow>
     message_attributed (set (em @ accepted parent md vals now v)) (message_of a md vals now shard)"
  by (simp add: accepted_def message_attributed_def message_of_def)

lemma emit_step:
  assumes inv: "sys_inv s" and ok: "sys_ok s (EmitEvent t parent md vals now locked eo so luck)"
  shows "\<exists>s'. sys_step pred s (EmitEvent t parent md vals now locked eo so luck) = Some s' \<and> sys_inv s'"
proof -
  have c: "cache_ok (vw_cache (sys_view s t))" using inv by (simp add: sys_inv_def)
  have t: "t < length (sy_threads s)" and room: "unat (sc_id_high_water (sy_cache s)) + 1024 < 2 ^ 64"
    and p: "\<forall>i. parent = Some i \<longrightarrow> id_valid (vw_cache (sys_view s t)) i" using ok by simp_all
  obtain v where v: "record_event parent md vals now locked eo so luck (sys_view s t) = Some v"
    and cases: "event_parent parent (sys_view s t) = Some None \<and> v = sys_view s t \<or>
     (\<exists>a shard. event_parent parent (sys_view s t) = Some (Some a) \<and>
        op_effect (sys_view s t) v [] [message_of a md vals now shard])"
    using record_event_effect [OF c p, of md vals now locked eo so luck] by blast
  let ?em = "sy_emitted s @ accepted parent md vals now (sys_view s t)"
  from cases have "sys_inv ((sys_put s t v)\<lparr>sy_emitted := ?em\<rparr>)"
  proof (elim disjE exE conjE)
    assume "v = sys_view s t"
    then have "op_effect (sys_view s t) v [] []" using op_effect_refl [OF c] by simp
    from thread_step_inv [OF inv t this room, of ?em] show ?thesis by simp
  next
    fix a shard assume a: "event_parent parent (sys_view s t) = Some (Some a)"
      "op_effect (sys_view s t) v [] [message_of a md vals now shard]"
    from thread_step_inv [OF inv t a(2) room, of ?em] accepted_attributed [OF a(1)] show ?thesis by simp
  qed
  then show ?thesis by (simp add: v)
qed

lemma spawn_inv: "sys_inv s \<Longrightarrow> sys_inv (s\<lparr>sy_threads := sy_threads s @ [thread_new]\<rparr>)"
proof -
  assume inv: "sys_inv s"
  let ?s = "s\<lparr>sy_threads := sy_threads s @ [thread_new]\<rparr>"
  have "sys_keys ?s = sys_keys s" "sys_messages ?s = sys_messages s"
    by (simp_all add: sys_keys_def sys_messages_def thread_new_def)
  moreover have "cursors ?s = cursors s"
    by (auto simp: cursors_def fun_eq_iff nth_append thread_new_def)
  ultimately show ?thesis using inv by (simp add: sys_inv_def)
qed

lemma subscribe_inv: "sys_inv s \<Longrightarrow> sys_inv (s\<lparr>sy_driver := subscribe sender (sy_driver s)\<rparr>)"
proof -
  assume inv: "sys_inv s"
  let ?s = "s\<lparr>sy_driver := subscribe sender (sy_driver s)\<rparr>"
  have "sys_keys ?s = sys_keys s" "sys_messages ?s = sys_messages s" "cursors ?s = cursors s"
    by (simp_all add: sys_keys_def sys_messages_def cursors_def fun_eq_iff)
  then show ?thesis using inv by (auto simp: sys_inv_def driver_ok_def subscribe_def)
qed

lemma new_span_step:
  assumes inv: "sys_inv s" and ok: "sys_ok s (NewSpan t attrs slot rnd now)"
  shows "\<exists>s'. sys_step pred s (NewSpan t attrs slot rnd now) = Some s' \<and> sys_inv s'"
proof -
  have c: "cache_ok (vw_cache (sys_view s t))" using inv by (simp add: sys_inv_def)
  obtain i v ns where "new_span pred slot attrs rnd now (sys_view s t) = Some (i, v)" "op_effect (sys_view s t) v ns []"
    using new_span_cases [OF c, of attrs slot pred rnd now] ok by auto
  then show ?thesis using thread_step_quiet [OF inv, of t v ns] ok by simp
qed

lemma sys_progress:
  assumes inv: "sys_inv s" and ok: "sys_ok s a"
  shows "\<exists>s'. sys_step pred s a = Some s' \<and> sys_inv s'"
proof -
  have c: "cache_ok (vw_cache (sys_view s t))" for t using inv by (simp add: sys_inv_def)
  note quiet = thread_step_quiet [OF inv]
  show ?thesis
  proof (cases a)
    case SpawnThread
    then show ?thesis using spawn_inv [OF inv] by simp
  next
    case (NewSpan t attrs slot rnd now)
    then show ?thesis using new_span_step [OF inv] ok by blast
  next
    case (RecordFields t i vals)
    obtain v where "record_fields i vals (sys_view s t) = Some v" "op_effect (sys_view s t) v [] []"
      using record_fields_effect [OF c] by blast
    then show ?thesis using quiet [of t v "[]"] ok RecordFields by simp
  next
    case (EmitEvent t parent md vals now locked eo so luck)
    then show ?thesis using emit_step [OF inv] ok by blast
  next
    case (EnterSpan t i)
    then obtain a where e: "enter i (sys_view s t) = Some (stack_push \<lparr>ss_tracing_id = i, ss_actual_id = a\<rparr> (sys_view s t))"
      using enter_returns [OF c, of t i] ok by auto
    then show ?thesis using quiet [OF _ stack_push_effect(1) [OF c]] ok EnterSpan by simp
  next
    case (ExitSpan t i)
    then show ?thesis using quiet [OF _ stack_push_effect(2) [OF c]] ok by simp
  next
    case (CloseSpan t i now eo so luck)
    obtain b v where "try_close i now eo so luck (sys_view s t) = Some (b, v)" "op_effect (sys_view s t) v [] []"
      using try_close_effect [OF c] by blast
    then show ?thesis using quiet [of t v "[]"] ok CloseSpan by simp
  next
    case (FlushPending t eo so luck)
    then show ?thesis using quiet [OF _ flush_effect [OF c]] ok by simp
  next
    case (Subscribe sender)
    then show ?thesis using subscribe_inv [OF inv] by simp
  next
    case (EventBatch batch luck)
    then show ?thesis using event_batch_inv [OF inv] ok by simp
  next
    case (SpanBatch outcome batch luck)
    then show ?thesis using span_batch_inv [OF inv] ok by simp
  qed
qed

interpretation sys_machine: guarded_machine "sys_step pred" sys_ok sys_inv for pred
  by unfold_locales (rule sys_progress)

lemma sys_new_inv:
  assumes "cfg_lane_count config \<le> 2 ^ 62" "capacity + 3 < 2 ^ 56"
  shows "sys_inv (sys_new capacity config)"
proof -
  let ?s = "sys_new capacity config"
  have "open_spans (cache_new capacity config) = []"
    by (simp add: open_spans_def cache_new_def Let_def)
  then have "sys_keys ?s = {#}" "sys_messages ?s = {}" "cursors ?s = (\<lambda>_. 0)"
    by (simp_all add: sys_keys_def sys_messages_def cursors_def fun_eq_iff sys_new_def with_predicate_and_config_def
        cache_new_def Let_def)
  then show ?thesis
    using cache_new_ok [OF assms]
    by (simp add: sys_inv_def ids_unique_def sys_new_def with_predicate_and_config_def driver_new_def driver_ok_def
        side_attributed_def key_attributed_def side_of_def reserved_def cache_new_def Let_def ID_BATCH_def)
qed

text \<open>The spans in the system: open, waiting in a thread, on the way to the driver, or fanned out.\<close>

definition all_spans :: "system \<Rightarrow> span_record list" where
  "all_spans s = open_spans (sy_cache s) @ concat (map th_pending_span (sy_threads s)) @
     sc_span_channel (sy_cache s) @ sy_delivered s"

lemma all_spans_keys: "keys_of (all_spans s) = sys_keys s"
  by (simp add: all_spans_def sys_keys_def add_ac)

lemma distinct_subseq: "subseq xs ys \<Longrightarrow> distinct ys \<Longrightarrow> distinct xs"
  by (induction xs ys rule: list_emb.induct) (auto dest: list_emb_set)

lemma inbox_delivered:
  assumes "sys_inv s" "b \<in> set (dr_subscribers (sy_driver s))"
  shows "subseq (sb_inbox b) (sy_delivered s)" "set (sb_inbox b) \<subseteq> set (sy_delivered s)"
  using assms subseq_order.order_refl by (auto simp: sys_inv_def driver_ok_def dest: list_emb_set)

lemma spans_distinct: "sys_inv s \<Longrightarrow> distinct (map sr_id (all_spans s))"
  by (intro ids_unique_distinct) (simp add: all_spans_keys sys_inv_def)

lemma inbox_distinct:
  assumes "sys_inv s" "b \<in> set (dr_subscribers (sy_driver s))"
  shows "distinct (map sr_id (sb_inbox b))"
proof -
  have "distinct (map sr_id (sy_delivered s))" using spans_distinct [OF assms(1)] by (simp add: all_spans_def)
  then show ?thesis using subseq_map [OF inbox_delivered(1) [OF assms], of sr_id] by (metis distinct_subseq)
qed

lemma inbox_attributed:
  assumes "sys_inv s" "b \<in> set (dr_subscribers (sy_driver s))" "r \<in> set (sb_inbox b)" "e \<in> set (sr_events r)"
  shows "(sr_id r, rr_value e) \<in> set (sy_emitted s)"
proof -
  have "r \<in> set (all_spans s)" using inbox_delivered(2) [OF assms(1,2)] assms(3) by (auto simp: all_spans_def)
  then have "key_of r \<in># sys_keys s" by (simp flip: all_spans_keys add: keys_of_def)
  then have "key_attributed (set (sy_emitted s)) (key_of r)" using assms(1) by (simp add: sys_inv_def)
  then show ?thesis using assms(4) by (simp add: key_attributed_def key_of_def)
qed

text \<open>C3. Whatever the threads, the driver and the channels do, in any interleaving: no operation
  panics, no two spans in the system ever have the same id, no matter how far they got, and a
  subscriber is sent every span at most once, in the driver's order.\<close>

theorem system_never_panics:
  assumes "cfg_lane_count config \<le> 2 ^ 62" "capacity + 3 < 2 ^ 56"
    and "sys_machine.all_ok pred (sys_new capacity config) as"
  shows "\<exists>s. run_opt (sys_step pred) (sys_new capacity config) as = Some s \<and>
    distinct (map sr_id (all_spans s)) \<and>
    (\<forall>b \<in> set (dr_subscribers (sy_driver s)).
       subseq (sb_inbox b) (sy_delivered s) \<and> distinct (map sr_id (sb_inbox b)))"
proof -
  obtain s where run: "run_opt (sys_step pred) (sys_new capacity config) as = Some s" and inv: "sys_inv s"
    using sys_machine.run_returns [OF sys_new_inv [OF assms(1,2)] assms(3)] by blast
  show ?thesis using run spans_distinct [OF inv] inbox_distinct [OF inv] inbox_delivered(1) [OF inv] by blast
qed

text \<open>C6. No event is ever shown under another span, and parked events are bounded: every event on a
  span that reached a subscriber was accepted with that span's id as its parent, and the driver holds
  events of at most \<open>max capacity 1\<close> spans.\<close>

theorem events_reach_their_span:
  assumes "cfg_lane_count config \<le> 2 ^ 62" "capacity + 3 < 2 ^ 56"
    and "sys_machine.all_ok pred (sys_new capacity config) as"
    and "run_opt (sys_step pred) (sys_new capacity config) as = Some s"
  shows "(\<forall>b \<in> set (dr_subscribers (sy_driver s)). \<forall>r \<in> set (sb_inbox b). \<forall>e \<in> set (sr_events r).
      (sr_id r, rr_value e) \<in> set (sy_emitted s)) \<and>
    length (dr_side_events (sy_driver s)) \<le> max (dr_capacity (sy_driver s)) 1"
proof -
  have inv: "sys_inv s" by (rule sys_machine.run_inv [OF sys_new_inv [OF assms(1,2)] assms(3,4)])
  then show ?thesis using inbox_attributed [OF inv] by (simp add: sys_inv_def driver_ok_def)
qed

section \<open>A run\<close>

text \<open>An executable form of \<open>sys_ok\<close>, up to the choice of slab keys.\<close>

fun quick_ok :: "system \<Rightarrow> action \<Rightarrow> bool" where
  "quick_ok s SpawnThread = True"
| "quick_ok s (NewSpan t attrs slot rnd now) \<longleftrightarrow> t < length (sy_threads s) \<and> parent_valid (sy_cache s) (at_parent attrs)"
| "quick_ok s (RecordFields t i vals) \<longleftrightarrow> t < length (sy_threads s)"
| "quick_ok s (EmitEvent t parent md vals now locked eo so luck) \<longleftrightarrow> t < length (sy_threads s) \<and>
     (case parent of None \<Rightarrow> True | Some i \<Rightarrow> id_valid (sy_cache s) i)"
| "quick_ok s (EnterSpan t i) \<longleftrightarrow> t < length (sy_threads s) \<and> id_valid (sy_cache s) i"
| "quick_ok s (ExitSpan t i) \<longleftrightarrow> t < length (sy_threads s)"
| "quick_ok s (CloseSpan t i now eo so luck) \<longleftrightarrow> t < length (sy_threads s)"
| "quick_ok s (FlushPending t eo so luck) \<longleftrightarrow> t < length (sy_threads s)"
| "quick_ok s (Subscribe sender) = True"
| "quick_ok s (EventBatch batch luck) \<longleftrightarrow> mset batch \<subseteq># mset (sc_event_channel (sy_cache s))"
| "quick_ok s (SpanBatch outcome batch luck) \<longleftrightarrow> mset batch \<subseteq># mset (sc_span_channel (sy_cache s))"

fun quick_run :: "(span_parent \<Rightarrow> metadata \<Rightarrow> u64 \<Rightarrow> bool) \<Rightarrow> system \<Rightarrow> action list \<Rightarrow> bool" where
  "quick_run pred s [] = True"
| "quick_run pred s (a # as) \<longleftrightarrow> sc_id_high_water (sy_cache s) < 2 ^ 63 \<and> quick_ok s a \<and>
     (case sys_step pred s a of None \<Rightarrow> True | Some s' \<Rightarrow> quick_run pred s' as)"

definition good_slots :: "action \<Rightarrow> bool" where
  "good_slots a = (case a of NewSpan t attrs slot rnd now \<Rightarrow> \<forall>cap. slot_ok slot cap | _ \<Rightarrow> True)"

lemma quick_ok_sound:
  "quick_ok s a \<Longrightarrow> good_slots a \<Longrightarrow> unat (sc_id_high_water (sy_cache s)) + 1024 < 2 ^ 64 \<Longrightarrow> sys_ok s a"
  by (cases a) (auto simp: good_slots_def split: option.splits)

lemma quick_run_sound: "quick_run pred s as \<Longrightarrow> list_all good_slots as \<Longrightarrow> sys_machine.all_ok pred s as"
proof (induction pred s as rule: quick_run.induct)
  case (2 pred s a as)
  have "unat (sc_id_high_water (sy_cache s)) < 2 ^ 63"
    using 2(2) by (simp add: word_less_nat_alt)
  then have "sys_ok s a" using 2(2,3) quick_ok_sound [of s a] by simp
  then show ?case using 2 by (auto split: option.splits)
qed simp

definition sample_config :: cache_config where
  "sample_config = config_default\<lparr>cfg_lane_count := 1, cfg_pending_batch := 1\<rparr>"

definition sample_actions :: "action list" where
  "sample_actions = [SpawnThread, Subscribe 0, NewSpan 0 sample_attrs (first_gap 0) 0 5, EnterSpan 0 2,
     EmitEvent 0 None empty_metadata [(''m'', VStr ''hi'')] 6 True SendOk SendOk [], ExitSpan 0 2,
     CloseSpan 0 2 9 SendOk SendOk [],
     EventBatch [message_of 1024 empty_metadata [(''m'', VStr ''hi'')] 6 0] [],
     SpanBatch (\<lambda>_. SendOk) [\<lparr>sr_id = 1024, sr_parent_id = None, sr_metadata = empty_metadata,
       sr_fields = [(''x'', FBool True)], sr_events = [], sr_opened_at = 5, sr_closed_at = Some 9\<rparr>] []]"

lemma sample_actions_ok: "sys_machine.all_ok (\<lambda>_ _ _. True) (sys_new 2 sample_config) sample_actions"
proof (rule quick_run_sound)
  show "quick_run (\<lambda>_ _ _. True) (sys_new 2 sample_config) sample_actions" by code_simp
  show "list_all good_slots sample_actions" using first_gap_ok
    by (auto simp: sample_actions_def good_slots_def)
qed

definition inbox_summary :: "system option \<Rightarrow> (u64 \<times> nat) list list" where
  "inbox_summary s = (case s of None \<Rightarrow> []
     | Some s \<Rightarrow> map (\<lambda>b. map (\<lambda>r. (sr_id r, length (sr_events r))) (sb_inbox b)) (dr_subscribers (sy_driver s)))"

lemma sample_inbox:
  "inbox_summary (run_opt (sys_step (\<lambda>_ _ _. True)) (sys_new 2 sample_config) sample_actions) = [[(1024, 1)]]"
  by code_simp

lemma system_never_panics_witness:
  "\<exists>s. run_opt (sys_step (\<lambda>_ _ _. True)) (sys_new 2 sample_config) sample_actions = Some s \<and>
     inbox_summary (Some s) = [[(1024, 1)]] \<and> distinct (map sr_id (all_spans s))"
  using system_never_panics [OF _ _ sample_actions_ok] sample_inbox by (auto simp: sample_config_def)

lemma events_reach_their_span_witness:
  "\<exists>s b r e. run_opt (sys_step (\<lambda>_ _ _. True)) (sys_new 2 sample_config) sample_actions = Some s \<and>
     dr_subscribers (sy_driver s) = [b] \<and> sb_inbox b = [r] \<and> sr_events r = [e] \<and> sr_id r = 1024 \<and>
     (1024, rr_value e) \<in> set (sy_emitted s)"
proof (cases "run_opt (sys_step (\<lambda>_ _ _. True)) (sys_new 2 sample_config) sample_actions")
  case None
  then show ?thesis using sample_inbox by (simp add: inbox_summary_def)
next
  case (Some s)
  then obtain b r e where s: "dr_subscribers (sy_driver s) = [b]" "sb_inbox b = [r]" "sr_events r = [e]" "sr_id r = 1024"
    using sample_inbox by (auto simp: inbox_summary_def length_Suc_conv)
  have "cfg_lane_count sample_config \<le> 2 ^ 62" "(2::nat) + 3 < 2 ^ 56" by (simp_all add: sample_config_def)
  from events_reach_their_span [OF this sample_actions_ok Some] show ?thesis
    using Some s by auto
qed

end
