(* ===== verification/Text.thy ===== *)
theory Text
  imports AggSplits
begin

text \<open>
  Text and ordering helpers of the console: Rust characters and strings (a string is its UTF-8
  bytes, a \<open>char\<close> the bytes of one character), comparators, stable sorting, formatting
  (\<open>aggregate/util.rs\<close>) and the modal input buffers of the reducer (\<open>model/core.rs\<close>).
\<close>

section \<open>Orderings\<close>

text \<open>\<open>std::cmp::Ordering\<close>\<close>

datatype ordering = Lt | Eq | Gt

definition cmp :: "'a::linorder \<Rightarrow> 'a \<Rightarrow> ordering" where
  "cmp a b = (if a < b then Lt else if a = b then Eq else Gt)"

fun or_then :: "ordering \<Rightarrow> ordering \<Rightarrow> ordering" where
  "or_then Eq o2 = o2"
| "or_then o1 o2 = o1"

text \<open>\<open>slice::sort_by\<close>: stable, by a comparator.\<close>

fun insert_by :: "('a \<Rightarrow> 'a \<Rightarrow> ordering) \<Rightarrow> 'a \<Rightarrow> 'a list \<Rightarrow> 'a list" where
  "insert_by c x [] = [x]"
| "insert_by c x (y # ys) = (if c y x = Lt then y # insert_by c x ys else x # y # ys)"

definition sort_by :: "('a \<Rightarrow> 'a \<Rightarrow> ordering) \<Rightarrow> 'a list \<Rightarrow> 'a list" where
  "sort_by c xs = foldr (insert_by c) xs []"

lemma mset_sort_by [simp]: "mset (sort_by c xs) = mset xs"
proof -
  have "mset (insert_by c x ys) = add_mset x (mset ys)" for x ys by (induction ys) auto
  then show ?thesis by (induction xs) (simp_all add: sort_by_def)
qed

lemma set_sort_by [simp]: "set (sort_by c xs) = set xs"
  using mset_sort_by by (metis set_mset_mset)

lemma length_sort_by [simp]: "length (sort_by c xs) = length xs"
  using mset_sort_by by (metis size_mset)

lemma sort_by_Nil [simp]: "sort_by c [] = []"
  by (simp add: sort_by_def)

section \<open>Characters\<close>

type_synonym rust_char = string

definition is_ascii_digit :: "rust_char \<Rightarrow> bool" where
  "is_ascii_digit c = (case c of [d] \<Rightarrow> is_digit d | _ \<Rightarrow> False)"

definition is_ascii_lowercase :: "rust_char \<Rightarrow> bool" where
  "is_ascii_lowercase c = (case c of [d] \<Rightarrow> CHR ''a'' \<le> d \<and> d \<le> CHR ''z'' | _ \<Rightarrow> False)"

definition is_control :: "rust_char \<Rightarrow> bool" where
  "is_control c =
     (case c of
        [d] \<Rightarrow> (of_char d :: nat) < 32 \<or> (of_char d :: nat) = 127
      | [d, e] \<Rightarrow> (of_char d :: nat) = 194 \<and> 128 \<le> (of_char e :: nat) \<and> (of_char e :: nat) < 160
      | _ \<Rightarrow> False)"

definition is_continuation :: "char \<Rightarrow> bool" where
  "is_continuation c = (128 \<le> (of_char c :: nat) \<and> (of_char c :: nat) < 192)"

text \<open>\<open>String::pop\<close>: the bytes of the last character go.\<close>

definition pop_char :: "string \<Rightarrow> string" where
  "pop_char s = rev (tl (dropWhile is_continuation (rev s)))"

definition lowercase :: "string \<Rightarrow> string" where
  "lowercase s = map to_ascii_lowercase s"

definition is_ascii_space :: "char \<Rightarrow> bool" where
  "is_ascii_space c = ((of_char c :: nat) \<in> {9, 10, 11, 12, 13, 32})"

definition trim :: "string \<Rightarrow> string" where
  "trim s = rev (dropWhile is_ascii_space (rev (dropWhile is_ascii_space s)))"

definition ends_with :: "string \<Rightarrow> char \<Rightarrow> bool" where
  "ends_with s c = (s \<noteq> [] \<and> last s = c)"

section \<open>Modal buffers\<close>

definition open_modal :: "string option \<Rightarrow> string option" where
  "open_modal slot = Some []"

definition close_modal :: "string option \<Rightarrow> string option" where
  "close_modal slot = None"

definition backspace_modal :: "string option \<Rightarrow> string option" where
  "backspace_modal slot = map_option pop_char slot"

definition push_digit_or_decimal :: "string \<Rightarrow> rust_char \<Rightarrow> string \<times> bool" where
  "push_digit_or_decimal buf c =
     (if is_ascii_digit c \<or> (c = ''.'' \<and> CHR ''.'' \<notin> set buf) then (buf @ c, True) else (buf, False))"

section \<open>Formatting\<close>

text \<open>\<open>{:.1}\<close> of a non-negative finite value.\<close>

definition fmt_fixed1 :: "f64 \<Rightarrow> string" where
  "fmt_fixed1 x =
     (let t = round_half_even (f64_val x * 10)
      in show_uint (t div 10) @ ''.'' @ show_uint (t mod 10))"

definition fmt_ns :: "u64 \<Rightarrow> string" where
  "fmt_ns ns =
     (if ns \<ge> 1000000000 then fmt_fixed1 (f64_div (f64_of_u64 ns) (Fin 1000000000)) @ ''s''
      else if ns \<ge> 1000000 then fmt_fixed1 (f64_div (f64_of_u64 ns) (Fin 1000000)) @ ''ms''
      else if ns \<ge> 1000 then fmt_fixed1 (f64_div (f64_of_u64 ns) (Fin 1000)) @ map char_of [194 :: nat, 181] @ ''s''
      else show_uint (uint ns) @ ''ns'')"

section \<open>Trees\<close>

text \<open>The prefixes drawn for a bar, a tee and an elbow.\<close>

definition bar_text :: string where "bar_text = map char_of [226 :: nat, 148, 130, 32, 32]"
definition tee_text :: string where "tee_text = map char_of [226 :: nat, 148, 156, 226, 148, 128, 32]"
definition elbow_text :: string where "elbow_text = map char_of [226 :: nat, 148, 148, 226, 148, 128, 32]"

fun sibling_scan :: "string list \<Rightarrow> string \<Rightarrow> string list list \<Rightarrow> bool" where
  "sibling_scan prefix needle [] = False"
| "sibling_scan prefix needle (sj # rest) =
     (if length sj < length prefix then False
      else if take (length prefix) sj \<noteq> prefix then False
      else if length sj < Suc (length prefix) then sibling_scan prefix needle rest
      else if sj ! length prefix \<noteq> needle then True
      else sibling_scan prefix needle rest)"

definition has_sibling_after :: "(bucket_key \<times> 'a) list \<Rightarrow> nat \<Rightarrow> nat \<Rightarrow> bool" where
  "has_sibling_after rs i d =
     (let s = bk_stack (fst (rs ! i))
      in if d = 0 \<or> d > length s then False
         else sibling_scan (take (d - 1) s) (s ! (d - 1)) (map (bk_stack \<circ> fst) (drop (i + 1) rs)))"

definition tree_label :: "(bucket_key \<times> 'a) list \<Rightarrow> nat \<Rightarrow> string" where
  "tree_label rs i =
     (let stack = bk_stack (fst (rs ! i)); n = length stack
      in if n = 0 then []
         else if n = 1 then stack ! 0
         else concat (map (\<lambda>d. let sib = has_sibling_after rs i d
                in if d < n then (if sib then bar_text else ''   '')
                   else (if sib then tee_text else elbow_text)) [2..<Suc n]) @ stack ! (n - 1))"

section \<open>Split-key candidates\<close>

definition candidate_split_keys_for :: "aggregator \<Rightarrow> string list \<Rightarrow> string list" where
  "candidate_split_keys_for a target =
     sorted_list_of_set (set (concat (map (\<lambda>(s, stack). if stack = target then map fst (ws_fields s) else [])
       (iter_with_stack a))))"

end
