(* ===== verification/GraphStore.thy ===== *)
theory GraphStore
  imports Text
begin

text \<open>
  The graph view's data (\<open>tracing-console/src/model/graph.rs\<close>): bins, the per-series ring of bins,
  their projection and summaries, the parsers of the input boxes and the state of the graph view.
  Arithmetic is that of a release build (words wrap). None is a panic: a division by a zero window,
  an index past the end, or a deque grown past what memory can address. The hash map of series is an
  association list; every reader sorts by key. The hash behind the colours is an argument.
\<close>

section \<open>Modes\<close>

datatype metric = Total | SelfTime | Count

fun metric_next :: "metric \<Rightarrow> metric" where
  "metric_next Total = SelfTime"
| "metric_next SelfTime = Count"
| "metric_next Count = Total"

definition is_count :: "metric \<Rightarrow> bool" where
  "is_count m = (m = Count)"

datatype agg_mode = Min | Max | Avg | Percentile f64

fun agg_mode_eq :: "agg_mode \<Rightarrow> agg_mode \<Rightarrow> bool" where
  "agg_mode_eq Min Min = True"
| "agg_mode_eq Max Max = True"
| "agg_mode_eq Avg Avg = True"
| "agg_mode_eq (Percentile a) (Percentile b) = f64_eq a b"
| "agg_mode_eq _ _ = False"

datatype time_labels = Delta | Unix | Local

fun time_labels_next :: "time_labels \<Rightarrow> time_labels" where
  "time_labels_next Delta = Unix"
| "time_labels_next Unix = Local"
| "time_labels_next Local = Delta"

datatype graph_focus = Chart | GraphDetails

datatype sort_column = SplitKey string | ByCount | ByMin | ByAvg | ByMax | ByLast

section \<open>Bins\<close>

definition BIN_CAP :: usize where "BIN_CAP = 600"
definition BIN_SAMPLE_CAP :: usize where "BIN_SAMPLE_CAP = 4096"

record bin =
  bn_count :: u64
  bn_sum_ns :: u128
  bn_min_ns :: u64
  bn_max_ns :: u64
  bn_samples :: "u64 list"

definition bin_new :: bin where
  "bin_new = \<lparr>bn_count = 0, bn_sum_ns = 0, bn_min_ns = 0, bn_max_ns = 0, bn_samples = []\<rparr>"

definition bin_record :: "u64 \<Rightarrow> bin \<Rightarrow> bin" where
  "bin_record value b =
     \<lparr>bn_count = bn_count b + 1,
      bn_sum_ns = bn_sum_ns b + ucast value,
      bn_min_ns = (if bn_count b = 0 then value else min (bn_min_ns b) value),
      bn_max_ns = (if bn_count b = 0 then value else max (bn_max_ns b) value),
      bn_samples = (if length (bn_samples b) < BIN_SAMPLE_CAP then bn_samples b @ [value] else bn_samples b)\<rparr>"

definition percentile_idx :: "f64 \<Rightarrow> usize \<Rightarrow> usize" where
  "percentile_idx p n = f64_to_usize (f64_round (f64_mul (f64_div p (Fin 100)) (f64_of_int (int (n - 1)))))"

definition bin_aggregate :: "agg_mode \<Rightarrow> bin \<Rightarrow> u64" where
  "bin_aggregate mode b =
     (if bn_count b = 0 then 0
      else case mode of
        Min \<Rightarrow> bn_min_ns b
      | Max \<Rightarrow> bn_max_ns b
      | Avg \<Rightarrow> ucast (bn_sum_ns b div ucast (bn_count b))
      | Percentile p \<Rightarrow>
          (if bn_samples b = [] then 0
           else let sorted = sort (bn_samples b); n = length sorted
                in sorted ! min (percentile_idx p n) (n - 1)))"

definition bin_value :: "bin \<Rightarrow> agg_mode \<Rightarrow> metric \<Rightarrow> u64" where
  "bin_value b agg m = (if is_count m then bn_count b else bin_aggregate agg b)"

section \<open>The store\<close>

type_synonym series_key = "(string \<times> string) list"

record series =
  se_bins :: "bin option list"
  se_base_idx :: u64

definition series_default :: series where
  "series_default = \<lparr>se_bins = [], se_base_idx = 0\<rparr>"

record graph_store =
  gs_origin_ns :: u64
  gs_window_ns :: u64
  gs_latest_bin_idx :: u64
  gs_series :: "(series_key \<times> series) list"

definition window_ns_from_secs :: "f64 \<Rightarrow> u64" where
  "window_ns_from_secs secs =
     (if \<not> f64_is_finite secs \<or> f64_le secs (Fin 0) then 1000000000
      else f64_to_u64 (f64_round (f64_mul secs (Fin 1000000000))))"

definition store_new :: "f64 \<Rightarrow> graph_store" where
  "store_new window_secs = \<lparr>gs_origin_ns = 0, gs_window_ns = window_ns_from_secs window_secs,
     gs_latest_bin_idx = 0, gs_series = []\<rparr>"

definition store_window_secs :: "graph_store \<Rightarrow> f64" where
  "store_window_secs st = f64_div (f64_of_u64 (gs_window_ns st)) (Fin 1000000000)"

text \<open>A deque of more slots than this exceeds \<open>isize::MAX\<close> bytes: growing to it aborts.\<close>

definition DEQUE_MAX :: nat where "DEQUE_MAX = 2 ^ 57"

text \<open>\<open>while bins.len() < needed { push_back(None) }\<close>\<close>

definition fill_back :: "nat \<Rightarrow> bin option list \<Rightarrow> bin option list option" where
  "fill_back needed bins =
     (if needed > DEQUE_MAX then None else Some (bins @ replicate (needed - length bins) None))"

text \<open>\<open>while bins.len() > BIN_CAP { pop_front(); base_idx += 1 }\<close>\<close>

fun evict_front :: "bin option list \<Rightarrow> u64 \<Rightarrow> bin option list \<times> u64" where
  "evict_front [] base = ([], base)"
| "evict_front (b # bins) base =
     (if length (b # bins) > BIN_CAP then evict_front bins (base + 1) else (b # bins, base))"

definition put_sample :: "u64 \<Rightarrow> u64 \<Rightarrow> series \<Rightarrow> series option" where
  "put_sample bin_idx value s =
     (let base = (if se_bins s = [] then bin_idx else se_base_idx s);
          needed_back = bin_idx + 1 - base
      in case fill_back (unat needed_back) (se_bins s) of
           None \<Rightarrow> None
         | Some bins \<Rightarrow>
             (let (bins, base) = evict_front bins base;
                  slot = unat (bin_idx - base)
              in if slot \<ge> length bins then None
                 else let b = (case bins ! slot of None \<Rightarrow> bin_new | Some b \<Rightarrow> b)
                      in Some \<lparr>se_bins = bins[slot := Some (bin_record value b)], se_base_idx = base\<rparr>))"

definition lookup_series :: "series_key \<Rightarrow> graph_store \<Rightarrow> series" where
  "lookup_series key st = (case map_of (gs_series st) key of None \<Rightarrow> series_default | Some s \<Rightarrow> s)"

definition store_record :: "series_key \<Rightarrow> u64 \<Rightarrow> u64 \<Rightarrow> graph_store \<Rightarrow> graph_store option" where
  "store_record key t_ns value st =
     (let st = (if gs_origin_ns st = 0 then st\<lparr>gs_origin_ns := sat_sub t_ns (gs_window_ns st div 2)\<rparr> else st)
      in if t_ns < gs_origin_ns st then Some st
         else if gs_window_ns st = 0 then None
         else let bin_idx = (t_ns - gs_origin_ns st) div gs_window_ns st;
                  st = st\<lparr>gs_latest_bin_idx := max (gs_latest_bin_idx st) bin_idx\<rparr>
              in map_option (\<lambda>s. st\<lparr>gs_series := AList.update key s (gs_series st)\<rparr>)
                   (put_sample bin_idx value (lookup_series key st)))"

definition store_wipe :: "graph_store \<Rightarrow> graph_store" where
  "store_wipe st = st\<lparr>gs_series := [], gs_origin_ns := 0, gs_latest_bin_idx := 0\<rparr>"

definition reset_window :: "f64 \<Rightarrow> graph_store \<Rightarrow> graph_store" where
  "reset_window window_secs st = store_wipe (st\<lparr>gs_window_ns := window_ns_from_secs window_secs\<rparr>)"

section \<open>Projection\<close>

record series_projection =
  sj_key :: series_key
  sj_points :: "(f64 \<times> f64) list"

definition cmp_f64 :: "f64 \<Rightarrow> f64 \<Rightarrow> ordering" where
  "cmp_f64 a b = (if f64_lt a b then Lt else if f64_lt b a then Gt else Eq)"

text \<open>The points of the slots from \<open>abs_idx\<close> on.\<close>

fun slot_points :: "graph_store \<Rightarrow> agg_mode \<Rightarrow> metric \<Rightarrow> u64 \<Rightarrow> u64 \<Rightarrow> bin option list \<Rightarrow> (f64 \<times> f64) list" where
  "slot_points st agg m oldest abs_idx [] = []"
| "slot_points st agg m oldest abs_idx (slot # slots) =
     (if abs_idx < oldest \<or> is_count m \<and> abs_idx = gs_latest_bin_idx st
      then slot_points st agg m oldest (abs_idx + 1) slots
      else case slot of
             None \<Rightarrow> slot_points st agg m oldest (abs_idx + 1) slots
           | Some b \<Rightarrow>
               (let bins_back = f64_of_u64 (sat_sub (gs_latest_bin_idx st) abs_idx);
                    x = f64_neg (f64_mul bins_back (store_window_secs st));
                    y = f64_of_u64 (bin_value b agg m)
                in (x, y) # slot_points st agg m oldest (abs_idx + 1) slots))"

definition project :: "agg_mode \<Rightarrow> metric \<Rightarrow> f64 \<Rightarrow> graph_store \<Rightarrow> series_projection list" where
  "project agg m x_max_secs st =
     (if gs_series st = [] \<or> gs_window_ns st = 0 then []
      else let visible_bins = max (f64_to_u64 (f64_ceil (f64_div x_max_secs (store_window_secs st)))) 1;
               oldest = sat_sub (gs_latest_bin_idx st) visible_bins
           in sort_key sj_key (map (\<lambda>(key, s).
                \<lparr>sj_key = key,
                 sj_points = sort_by (\<lambda>a b. cmp_f64 (fst a) (fst b))
                   (slot_points st agg m oldest (se_base_idx s) (se_bins s))\<rparr>) (gs_series st)))"

section \<open>Summaries\<close>

record series_summary =
  sm_key :: series_key
  sm_count :: u64
  sm_min_ns :: u64
  sm_max_ns :: u64
  sm_avg_ns :: u64
  sm_last_ns :: u64

definition filled :: "series \<Rightarrow> bin list" where
  "filled s = List.map_filter id (se_bins s)"

definition count_summary :: "series_key \<Rightarrow> series \<Rightarrow> series_summary" where
  "count_summary key s =
     (let bin_counts = map bn_count (filled s); total = sum_list bin_counts
      in \<lparr>sm_key = key, sm_count = total,
          sm_min_ns = (if bin_counts = [] then 0 else fold min bin_counts (hd bin_counts)),
          sm_max_ns = (if bin_counts = [] then 0 else fold max bin_counts (hd bin_counts)),
          sm_avg_ns = (if bin_counts = [] then 0 else total div of_nat (length bin_counts)),
          sm_last_ns = (if filled s = [] then 0 else bn_count (last (filled s)))\<rparr>)"

definition value_summary :: "agg_mode \<Rightarrow> series_key \<Rightarrow> series \<Rightarrow> series_summary" where
  "value_summary agg key s =
     (let bins = filled s;
          count = sum_list (map bn_count bins);
          total = sum_list (map bn_sum_ns bins);
          min_ns = fold min (map bn_min_ns bins) (- 1);
          max_ns = fold max (map bn_max_ns bins) 0
      in \<lparr>sm_key = key, sm_count = count,
          sm_min_ns = (if count = 0 then 0 else min_ns),
          sm_max_ns = max_ns,
          sm_avg_ns = (if count = 0 then 0 else ucast (total div ucast count)),
          sm_last_ns = (if bins = [] then 0 else bin_aggregate agg (last bins))\<rparr>)"

definition summarize :: "agg_mode \<Rightarrow> metric \<Rightarrow> graph_store \<Rightarrow> series_summary list" where
  "summarize agg m st =
     sort_key sm_key (map (\<lambda>(key, s). if is_count m then count_summary key s else value_summary agg key s) (gs_series st))"

section \<open>Input parsers\<close>

definition parse_lookback_input :: "string \<Rightarrow> f64 option" where
  "parse_lookback_input s =
     (let s = trim s
      in if s = [] then None
         else let (num, multiplier) =
                (if ends_with s (CHR ''m'') then (butlast s, Fin 60)
                 else if ends_with s (CHR ''s'') then (butlast s, Fin 1) else (s, Fin 1))
              in case parse_f64 num of
                   None \<Rightarrow> None
                 | Some v \<Rightarrow> if \<not> f64_is_finite v \<or> f64_le v (Fin 0) then None else Some (f64_mul v multiplier))"

definition parse_agg_input :: "string \<Rightarrow> agg_mode option" where
  "parse_agg_input s =
     (let s = lowercase (trim s)
      in if s = ''a'' \<or> s = ''avg'' then Some Avg
         else if s = ''min'' then Some Min
         else if s = ''max'' then Some Max
         else case s of
                [] \<Rightarrow> None
              | c # rest \<Rightarrow>
                  (if c \<noteq> CHR ''p'' \<or> rest = [] then None
                   else case parse_f64 rest of
                          None \<Rightarrow> None
                        | Some v \<Rightarrow>
                            (if \<not> f64_is_finite v \<or> f64_lt v (Fin 0) then None
                             else if f64_eq v (Fin 0) then Some Min
                             else if f64_le (Fin 100) v then Some Max
                             else Some (Percentile v))))"

section \<open>The graph view\<close>

record graph_state =
  g_locked_stack :: "string list"
  g_aggregation :: agg_mode
  g_metric :: metric
  g_window_secs :: f64
  g_lookback_secs :: f64
  g_split_keys :: "string set"
  g_hidden_series :: "series_key set"
  g_details_selected :: usize
  g_focus :: graph_focus
  g_sort_column :: sort_column
  g_agg_input :: "string option"
  g_window_input :: "string option"
  g_lookback_input :: "string option"
  g_time_labels :: time_labels
  g_store :: graph_store

definition graph_new :: "string list \<Rightarrow> graph_state" where
  "graph_new locked_stack =
     \<lparr>g_locked_stack = locked_stack, g_aggregation = Avg, g_metric = Total, g_window_secs = Fin 1,
      g_lookback_secs = Fin 60, g_split_keys = {}, g_hidden_series = {}, g_details_selected = 0,
      g_focus = Chart, g_sort_column = ByCount, g_agg_input = None, g_window_input = None,
      g_lookback_input = None, g_time_labels = Delta, g_store = store_new (Fin 1)\<rparr>"

definition series_table_columns :: "graph_state \<Rightarrow> sort_column list" where
  "series_table_columns g =
     map SplitKey (sorted_list_of_set (g_split_keys g)) @ [ByCount, ByMin, ByAvg, ByMax, ByLast]"

definition alpha_series_keys :: "graph_state \<Rightarrow> series_key list" where
  "alpha_series_keys g = sort (map fst (gs_series (g_store g)))"

definition color_index_of :: "(string list \<Rightarrow> series_key \<Rightarrow> u64) \<Rightarrow> graph_state \<Rightarrow> series_key \<Rightarrow> usize" where
  "color_index_of hash g key = unat (hash (g_locked_stack g) key)"

definition split_value :: "string \<Rightarrow> series_key \<Rightarrow> string" where
  "split_value k key = (case find (\<lambda>p. fst p = k) key of None \<Rightarrow> [] | Some p \<Rightarrow> snd p)"

definition sm_or :: "(series_summary \<Rightarrow> u64) \<Rightarrow> series_summary option \<Rightarrow> u64" where
  "sm_or f s = (case s of None \<Rightarrow> 0 | Some s \<Rightarrow> f s)"

definition cmp_primary :: "sort_column \<Rightarrow> (series_key \<rightharpoonup> series_summary) \<Rightarrow> series_key \<Rightarrow> series_key \<Rightarrow> ordering" where
  "cmp_primary col summary a b =
     (case col of
        SplitKey k \<Rightarrow> cmp (split_value k a) (split_value k b)
      | ByCount \<Rightarrow> cmp (sm_or sm_count (summary b)) (sm_or sm_count (summary a))
      | ByMin \<Rightarrow> cmp (sm_or sm_min_ns (summary a)) (sm_or sm_min_ns (summary b))
      | ByAvg \<Rightarrow> cmp (sm_or sm_avg_ns (summary b)) (sm_or sm_avg_ns (summary a))
      | ByMax \<Rightarrow> cmp (sm_or sm_max_ns (summary b)) (sm_or sm_max_ns (summary a))
      | ByLast \<Rightarrow> cmp (sm_or sm_last_ns (summary b)) (sm_or sm_last_ns (summary a)))"

definition series_keys :: "graph_state \<Rightarrow> series_key list" where
  "series_keys g =
     (let summary = map_of (map (\<lambda>s. (sm_key s, s)) (summarize (g_aggregation g) (g_metric g) (g_store g)))
      in sort_by (\<lambda>a b. or_then (cmp_primary (g_sort_column g) summary a b) (cmp a b)) (alpha_series_keys g))"

definition record_span :: "aggregator \<Rightarrow> wire_span \<Rightarrow> graph_state \<Rightarrow> graph_state option" where
  "record_span a sp g =
     (case ws_closed_at_ns sp of
        None \<Rightarrow> Some g
      | Some closed_ns \<Rightarrow>
          (let total = sat_sub closed_ns (ws_opened_at_ns sp);
               value = (case g_metric g of
                          Total \<Rightarrow> total
                        | SelfTime \<Rightarrow> sat_sub total (child_sum_for a (ws_id sp))
                        | Count \<Rightarrow> 1);
               key = collect_splits_for a (ws_id sp) (g_split_keys g)
           in map_option (\<lambda>st. g\<lparr>g_store := st\<rparr>) (store_record key closed_ns value (g_store g))))"

definition record_id :: "aggregator \<Rightarrow> graph_state \<Rightarrow> u64 \<Rightarrow> graph_state option" where
  "record_id a g i = (case span_by_id a i of None \<Rightarrow> Some g | Some sp \<Rightarrow> record_span a sp g)"

definition rehydrate :: "aggregator \<Rightarrow> graph_state \<Rightarrow> graph_state option" where
  "rehydrate a g =
     run_opt (record_id a) (g\<lparr>g_store := reset_window (g_window_secs g) (g_store g)\<rparr>)
       (map (ws_id \<circ> fst) (filter (\<lambda>p. snd p = g_locked_stack g) (iter_with_stack a)))"

end
