(* ===== verification/Explore.thy ===== *)
theory Explore
  imports Text
begin

text \<open>
  The explore and trace-detail views (\<open>tracing-console/src/model/explore.rs\<close>): their states, the
  filtered and sorted list of span instances, the tree of one trace and the walk to its root. The
  functions of the code that take the model read only its aggregator. The recursion over the tree
  may follow a cycle of parent links, so it is a partial function; None is a walk that never ends.
\<close>

datatype explore_sort_column = Timestamp | Latency | Field string

datatype sort_direction = Asc | Desc

fun default_direction :: "explore_sort_column \<Rightarrow> sort_direction" where
  "default_direction Timestamp = Desc"
| "default_direction Latency = Desc"
| "default_direction (Field _) = Asc"

fun flip_direction :: "sort_direction \<Rightarrow> sort_direction" where
  "flip_direction Asc = Desc"
| "flip_direction Desc = Asc"

text \<open>The arrows are U+25B2 and U+25BC.\<close>

fun direction_arrow :: "sort_direction \<Rightarrow> string" where
  "direction_arrow Asc = map char_of [226 :: nat, 150, 178]"
| "direction_arrow Desc = map char_of [226 :: nat, 150, 188]"

record explore_state =
  es_locked_stack :: "string list"
  es_restore_level :: "wire_level_filter option"
  es_selected :: usize
  es_sort :: explore_sort_column
  es_direction :: sort_direction
  es_search_input :: "string option"
  es_query :: string

definition explore_new :: "string list \<Rightarrow> wire_level_filter option \<Rightarrow> explore_state" where
  "explore_new locked_stack restore_level =
     \<lparr>es_locked_stack = locked_stack, es_restore_level = restore_level, es_selected = 0,
      es_sort = Timestamp, es_direction = default_direction Timestamp, es_search_input = None, es_query = []\<rparr>"

definition effective_query :: "explore_state \<Rightarrow> string" where
  "effective_query es = (case es_search_input es of None \<Rightarrow> es_query es | Some b \<Rightarrow> b)"

record trace_detail =
  td_root_id :: u64
  td_selected_idx :: usize
  td_collapsed :: "u64 set"
  td_explore :: explore_state

datatype trace_row =
    SpanRow u64 usize bool bool
  | EventRow u64 usize usize

section \<open>The tree of a trace\<close>

definition span_map :: "aggregator \<Rightarrow> u64 \<rightharpoonup> wire_span" where
  "span_map a = map_of (rev (map (\<lambda>p. (ws_id (fst p), fst p)) (iter_with_stack a)))"

definition opened_of :: "(u64 \<rightharpoonup> wire_span) \<Rightarrow> u64 \<Rightarrow> u64" where
  "opened_of smap i = (case smap i of None \<Rightarrow> 0 | Some s \<Rightarrow> ws_opened_at_ns s)"

definition children_of :: "aggregator \<Rightarrow> u64 \<Rightarrow> u64 list" where
  "children_of a p =
     sort_key (opened_of (span_map a))
       (map (ws_id \<circ> fst) (filter (\<lambda>q. ws_parent_id (fst q) = Some p) (iter_with_stack a)))"

datatype trace_item = EventItem usize u64 | ChildItem u64 u64

fun item_time :: "trace_item \<Rightarrow> u64" where
  "item_time (EventItem i t) = t"
| "item_time (ChildItem i t) = t"

definition trace_items :: "(u64 \<Rightarrow> u64 list) \<Rightarrow> (u64 \<rightharpoonup> wire_span) \<Rightarrow> wire_span \<Rightarrow> trace_item list" where
  "trace_items kids smap sp =
     sort_key item_time
       (map (\<lambda>(i, e). EventItem i (we_recorded_at_ns e)) (enumerate 0 (ws_events sp)) @
        map (\<lambda>c. ChildItem c (opened_of smap c)) (kids (ws_id sp)))"

partial_function (option) walk_trace :: "(u64 \<Rightarrow> u64 list) \<Rightarrow> (u64 \<rightharpoonup> wire_span) \<Rightarrow> u64 set
    \<Rightarrow> trace_row list \<Rightarrow> wire_span \<times> usize \<Rightarrow> trace_row list option" where
  "walk_trace kids smap collapsed out sd =
     (let sp = fst sd; depth = snd sd;
          has_children = (kids (ws_id sp) \<noteq> [] \<or> ws_events sp \<noteq> []);
          expanded = (ws_id sp \<notin> collapsed);
          out = out @ [SpanRow (ws_id sp) depth has_children expanded]
      in if \<not> expanded then Some out
         else run_opt (\<lambda>out item.
                case item of
                  EventItem i t \<Rightarrow> Some (out @ [EventRow (ws_id sp) i (depth + 1)])
                | ChildItem c t \<Rightarrow>
                    (case smap c of
                       None \<Rightarrow> Some out
                     | Some child \<Rightarrow> walk_trace kids smap collapsed out (child, depth + 1)))
              out (trace_items kids smap sp))"

declare walk_trace.simps [code]

definition visible_trace_rows :: "aggregator \<Rightarrow> trace_detail \<Rightarrow> trace_row list option" where
  "visible_trace_rows a td =
     (case span_map a (td_root_id td) of
        None \<Rightarrow> Some []
      | Some rt \<Rightarrow> walk_trace (children_of a) (span_map a) (td_collapsed td) [] (rt, 0))"

section \<open>The list of instances\<close>

definition locked_stack_spans :: "aggregator \<Rightarrow> explore_state \<Rightarrow> wire_span list" where
  "locked_stack_spans a es = map fst (filter (\<lambda>p. snd p = es_locked_stack es) (iter_with_stack a))"

definition fields_match :: "(string \<times> wire_field_value) list \<Rightarrow> string \<Rightarrow> bool" where
  "fields_match fs q =
     list_ex (\<lambda>(k, v). str_contains (lowercase k) q \<or> str_contains (lowercase (to_string_value v)) q) fs"

definition span_matches_query :: "wire_span \<Rightarrow> string \<Rightarrow> bool" where
  "span_matches_query s q =
     (str_contains (lowercase (ws_name s)) q \<or> fields_match (ws_fields s) q \<or>
      list_ex (\<lambda>e. str_contains (lowercase (we_name e)) q \<or> fields_match (we_fields e) q) (ws_events s))"

definition latency_ns :: "wire_span \<Rightarrow> u64" where
  "latency_ns s = (case ws_closed_at_ns s of None \<Rightarrow> 0 | Some c \<Rightarrow> sat_sub c (ws_opened_at_ns s))"

definition field_string :: "wire_span \<Rightarrow> string \<Rightarrow> string" where
  "field_string s key = (case ws_field s key of None \<Rightarrow> [] | Some v \<Rightarrow> to_string_value v)"

definition sort_spans :: "explore_sort_column \<Rightarrow> sort_direction \<Rightarrow> wire_span list \<Rightarrow> wire_span list" where
  "sort_spans col dir spans =
     (let spans = (case col of
                     Timestamp \<Rightarrow> sort_key ws_opened_at_ns spans
                   | Latency \<Rightarrow> sort_key latency_ns spans
                   | Field k \<Rightarrow> sort_key (\<lambda>s. field_string s k) spans)
      in if dir = Desc then rev spans else spans)"

definition matching_spans :: "aggregator \<Rightarrow> explore_state \<Rightarrow> wire_span list" where
  "matching_spans a es =
     (let q = lowercase (effective_query es)
      in sort_spans (es_sort es) (es_direction es)
           (filter (\<lambda>s. q = [] \<or> span_matches_query s q) (locked_stack_spans a es)))"

definition distinguishing_fields :: "wire_span list \<Rightarrow> string list" where
  "distinguishing_fields spans =
     (let fs = concat (map ws_fields spans)
      in filter (\<lambda>k. length (remdups (map (to_string_value \<circ> snd) (filter (\<lambda>p. fst p = k) fs))) > 1)
           (sorted_list_of_set (set (map fst fs))))"

fun position :: "'a \<Rightarrow> 'a list \<Rightarrow> nat option" where
  "position x [] = None"
| "position x (y # ys) = (if y = x then Some 0 else map_option Suc (position x ys))"

definition cycle_sort :: "string list \<Rightarrow> int \<Rightarrow> explore_state \<Rightarrow> explore_state" where
  "cycle_sort fs delta es =
     (let columns = [Timestamp, Latency] @ map Field fs;
          idx = (case position (es_sort es) columns of None \<Rightarrow> 0 | Some i \<Rightarrow> i);
          nxt = nat ((int idx + delta) mod int (length columns));
          col = columns ! nxt
      in es\<lparr>es_sort := col, es_direction := default_direction col\<rparr>)"

definition cycle_sort_left :: "string list \<Rightarrow> explore_state \<Rightarrow> explore_state" where
  "cycle_sort_left fs es = cycle_sort fs (- 1) es"

definition cycle_sort_right :: "string list \<Rightarrow> explore_state \<Rightarrow> explore_state" where
  "cycle_sort_right fs es = cycle_sort fs 1 es"

section \<open>The root of a trace\<close>

fun root_walk :: "nat \<Rightarrow> aggregator \<Rightarrow> u64 \<Rightarrow> u64 option" where
  "root_walk 0 a cur = None"
| "root_walk (Suc n) a cur =
     (case span_by_id a cur of
        None \<Rightarrow> None
      | Some s \<Rightarrow> (case ws_parent_id s of None \<Rightarrow> Some cur | Some p \<Rightarrow> root_walk n a p))"

definition find_root_id :: "aggregator \<Rightarrow> u64 \<Rightarrow> u64 option" where
  "find_root_id a span_id = root_walk 256 a span_id"

end
