(* ===== verification/Model.thy ===== *)
theory Model
  imports GraphStore Explore
begin

text \<open>
  The console's model and its reducer (\<open>tracing-console/src/model/core.rs\<close>, \<open>update.rs\<close> and
  \<open>ViewMode\<close> of \<open>graph.rs\<close>): every update of the user interface and of the stream, one definition
  per arm or group of arms of \<open>Model::apply\<close>. \<open>Instant::now()\<close> is the argument \<open>now\<close>, in
  nanoseconds of the monotonic clock, read once per update. None is a panic or a call that does
  not return.
\<close>

section \<open>The receive rate\<close>

definition BUCKETS :: usize where "BUCKETS = 9"
definition WINDOW_SECS :: f64 where "WINDOW_SECS = Fin 4"

record rate_tracker =
  rt_buckets :: "u32 list"
  rt_head :: usize
  rt_bucket_start :: "nat option"

definition rate_default :: rate_tracker where
  "rate_default = \<lparr>rt_buckets = replicate BUCKETS 0, rt_head = 0, rt_bucket_start = None\<rparr>"

definition sat_inc :: "u32 \<Rightarrow> u32" where
  "sat_inc v = (if v = - 1 then v else v + 1)"

fun rate_advance :: "nat \<Rightarrow> rate_tracker \<Rightarrow> rate_tracker" where
  "rate_advance 0 r = r"
| "rate_advance (Suc n) r =
     (let head = (rt_head r + 1) mod BUCKETS
      in rate_advance n (r\<lparr>rt_head := head, rt_buckets := (rt_buckets r)[head := 0]\<rparr>))"

definition rate_record :: "nat \<Rightarrow> rate_tracker \<Rightarrow> rate_tracker" where
  "rate_record now r =
     (let r = (case rt_bucket_start r of
                 None \<Rightarrow> r\<lparr>rt_bucket_start := Some now\<rparr>
               | Some start \<Rightarrow>
                   (let elapsed_ms = (now - start) div 1000000 mod 2 ^ 64
                    in if elapsed_ms \<ge> 500
                       then let advances = min (elapsed_ms div 500) BUCKETS
                            in (rate_advance advances r)\<lparr>rt_bucket_start := Some (start + 500000000 * advances)\<rparr>
                       else r))
      in r\<lparr>rt_buckets := (rt_buckets r)[rt_head r := sat_inc (rt_buckets r ! rt_head r)]\<rparr>)"

definition rate_sum :: "rate_tracker \<Rightarrow> u64" where
  "rate_sum r = sum_list (map (\<lambda>(i, v). ucast v) (filter (\<lambda>(i, v). i \<noteq> rt_head r) (enumerate 0 (rt_buckets r))))"

definition rate_hz :: "rate_tracker \<Rightarrow> f64" where
  "rate_hz r =
     (if rt_bucket_start r = None then Fin 0 else f64_div (f64_of_u64 (rate_sum r)) WINDOW_SECS)"

section \<open>The model\<close>

datatype confirm_status = Confirming | Running | Failed string | Restart

record confirm_version_switch =
  cv_server_version :: string
  cv_status :: confirm_status

text \<open>\<open>CARGO_PKG_VERSION\<close>, of the workspace.\<close>

definition CLIENT_VERSION :: string where "CLIENT_VERSION = ''0.1.4''"

record visible_row =
  vr_key :: bucket_key
  vr_stats :: stack_stats
  vr_depth :: usize
  vr_has_children :: bool
  vr_is_expanded :: bool

datatype focus = Stacks | Details

definition LEVEL_OPTIONS :: "wire_level_filter list" where
  "LEVEL_OPTIONS = [LfOff, LfInfo, LfDebug, LfTrace]"

datatype connection_status = Connecting | IsConnected | IsDisconnected string

datatype view_mode = TableView | GraphView graph_state | ExploreView explore_state | TraceView trace_detail

record model =
  m_agg :: aggregator
  m_expanded :: "string list set"
  m_selected :: usize
  m_details_selected :: usize
  m_focus :: focus
  m_connection :: connection_status
  m_status :: "string option"
  m_history_budget :: usize
  m_cache_level :: "wire_level_filter option"
  m_cache_chance :: "f64 option"
  m_server_version :: "string option"
  m_confirm :: "confirm_version_switch option"
  m_quit_deadline :: "nat option"
  m_chance_input :: "string option"
  m_view :: view_mode
  m_rate :: rate_tracker

definition model_new :: "usize \<Rightarrow> model" where
  "model_new budget =
     \<lparr>m_agg = agg_new budget, m_expanded = {}, m_selected = 0, m_details_selected = 0,
      m_focus = Stacks, m_connection = Connecting, m_status = None, m_history_budget = budget,
      m_cache_level = None, m_cache_chance = None, m_server_version = None, m_confirm = None,
      m_quit_deadline = None, m_chance_input = None, m_view = TableView, m_rate = rate_default\<rparr>"

definition expire_quit_confirm_if_due :: "nat \<Rightarrow> model \<Rightarrow> model" where
  "expire_quit_confirm_if_due now m =
     (case m_quit_deadline m of
        None \<Rightarrow> m
      | Some deadline \<Rightarrow> if now \<ge> deadline then m\<lparr>m_quit_deadline := None\<rparr> else m)"

datatype (plugins del: code quickcheck_random quickcheck_exhaustive quickcheck_narrowing transfer lifting) update =
    SpanReceived wire_span
  | SelectUp | SelectDown | ExpandSelected | ExpandAllSelected | CollapseSelected
  | SwitchFocus | ToggleSplitSelected
  | ServerInfoReceived wire_server_info
  | CacheLevelReceived wire_level_filter
  | RequestCacheLevel wire_level_filter
  | CacheChanceReceived f64
  | BeginChanceInput | ChanceInputChar rust_char | ChanceInputBackspace | ChanceInputCancel | ChanceInputCommit
  | ToggleGraph | SetGraphAgg agg_mode | ToggleGraphMetric
  | BeginGraphAggInput | GraphAggInputChar rust_char | GraphAggInputBackspace | GraphAggInputCancel
  | GraphAggInputCommit
  | BeginGraphWindowInput | GraphWindowInputChar rust_char | GraphWindowInputBackspace
  | GraphWindowInputCancel | GraphWindowInputCommit
  | BeginGraphLookbackInput | GraphLookbackInputChar rust_char | GraphLookbackInputBackspace
  | GraphLookbackInputCancel | GraphLookbackInputCommit
  | ToggleGraphTimeLabels
  | EnterExplore | ExitExplore | ExploreSelectUp | ExploreSelectDown | ExploreSortLeft | ExploreSortRight
  | ExploreInvertSort | BeginExploreSearch | ExploreSearchChar rust_char | ExploreSearchBackspace
  | ExploreSearchCancel | ExploreSearchCommit | ExploreOpenTrace
  | ExitTraceDetail | TraceDetailSelectUp | TraceDetailSelectDown | TraceDetailExpand | TraceDetailCollapse
  | EnterTable | EnterGraph
  | GraphSwitchFocus | GraphSelectUp | GraphSelectDown | GraphToggleSplit | GraphSortColumnLeft
  | GraphSortColumnRight
  | Connected | Disconnected string | Status string | Quit
  | BeginConfirmVersionSwitch | ConfirmVersionSwitchYes | ConfirmVersionSwitchNo
  | QuitConfirmDismiss | InstallerSucceeded | InstallerFailed string

datatype effect =
    NoEffect
  | EffQuit
  | RequestSetLevel wire_level_filter
  | RequestSetChance f64
  | RunUpdateInstaller "string option"
  | EffRestart

text \<open>\<open>if let ViewMode::Graph(gs) = &mut self.view\<close>, and the same for the explore views.\<close>

definition with_graph :: "(graph_state \<Rightarrow> graph_state) \<Rightarrow> model \<Rightarrow> model" where
  "with_graph f m = (case m_view m of GraphView gs \<Rightarrow> m\<lparr>m_view := GraphView (f gs)\<rparr> | _ \<Rightarrow> m)"

definition try_graph :: "(graph_state \<Rightarrow> graph_state option) \<Rightarrow> model \<Rightarrow> model option" where
  "try_graph f m = (case m_view m of
     GraphView gs \<Rightarrow> map_option (\<lambda>gs. m\<lparr>m_view := GraphView gs\<rparr>) (f gs) | _ \<Rightarrow> Some m)"

definition with_explore :: "(explore_state \<Rightarrow> explore_state) \<Rightarrow> model \<Rightarrow> model" where
  "with_explore f m = (case m_view m of ExploreView es \<Rightarrow> m\<lparr>m_view := ExploreView (f es)\<rparr> | _ \<Rightarrow> m)"

definition with_trace :: "(trace_detail \<Rightarrow> trace_detail) \<Rightarrow> model \<Rightarrow> model" where
  "with_trace f m = (case m_view m of TraceView td \<Rightarrow> m\<lparr>m_view := TraceView (f td)\<rparr> | _ \<Rightarrow> m)"

section \<open>The rows of the table\<close>

fun child_scan :: "string list \<Rightarrow> (bucket_key \<times> stack_stats) list \<Rightarrow> bool" where
  "child_scan stack [] = False"
| "child_scan stack ((key, _) # rest) =
     (if \<not> starts_with (bk_stack key) stack then False
      else if length (bk_stack key) > length stack then True
      else child_scan stack rest)"

definition row_visible :: "string list set \<Rightarrow> string list \<Rightarrow> bool" where
  "row_visible expanded stack = list_all (\<lambda>k. take k stack \<in> expanded) [1..<length stack]"

fun visible_from :: "string list set \<Rightarrow> (bucket_key \<times> stack_stats) list \<Rightarrow> visible_row list" where
  "visible_from expanded [] = []"
| "visible_from expanded ((key, stats) # rest) =
     (if \<not> row_visible expanded (bk_stack key) then visible_from expanded rest
      else \<lparr>vr_key = key, vr_stats = stats, vr_depth = length (bk_stack key) - 1,
            vr_has_children = child_scan (bk_stack key) rest,
            vr_is_expanded = (bk_stack key \<in> expanded)\<rparr> # visible_from expanded rest)"

definition visible_rows :: "model \<Rightarrow> visible_row list" where
  "visible_rows m = visible_from (m_expanded m) (rows (m_agg m))"

definition selected_visible_row :: "model \<Rightarrow> visible_row option" where
  "selected_visible_row m =
     (let rs = visible_rows m in if rs = [] then None else Some (rs ! min (m_selected m) (length rs - 1)))"

definition candidate_split_keys :: "model \<Rightarrow> string list" where
  "candidate_split_keys m =
     (case selected_visible_row m of
        None \<Rightarrow> []
      | Some row \<Rightarrow> candidate_split_keys_for (m_agg m) (bk_stack (vr_key row)))"

definition current_pane_len :: "model \<Rightarrow> usize" where
  "current_pane_len m =
     (case m_focus m of Stacks \<Rightarrow> length (visible_rows m) | Details \<Rightarrow> length (candidate_split_keys m))"

definition current_selected :: "model \<Rightarrow> usize" where
  "current_selected m = (case m_focus m of Stacks \<Rightarrow> m_selected m | Details \<Rightarrow> m_details_selected m)"

definition set_current_selected :: "usize \<Rightarrow> model \<Rightarrow> model" where
  "set_current_selected i m =
     (case m_focus m of Stacks \<Rightarrow> m\<lparr>m_selected := i\<rparr> | Details \<Rightarrow> m\<lparr>m_details_selected := i\<rparr>)"

text \<open>\<open>slice::get\<close>\<close>

definition get_at :: "'a list \<Rightarrow> nat \<Rightarrow> 'a option" where
  "get_at xs i = (if i < length xs then Some (xs ! i) else None)"

definition trace_selected_span_id :: "model \<Rightarrow> u64 option option" where
  "trace_selected_span_id m =
     (case m_view m of
        TraceView td \<Rightarrow>
          map_option (\<lambda>rs. if rs = [] then None
              else case rs ! min (td_selected_idx td) (length rs - 1) of
                     SpanRow i _ _ _ \<Rightarrow> Some i
                   | EventRow _ _ _ \<Rightarrow> None)
            (visible_trace_rows (m_agg m) td)
      | _ \<Rightarrow> Some None)"

section \<open>The reducer: spans and the table\<close>

definition graph_takes :: "aggregator \<Rightarrow> graph_state \<Rightarrow> u64 \<Rightarrow> graph_state option" where
  "graph_takes a gs i =
     (if resolved_stack a i = Some (g_locked_stack gs)
      then case span_by_id a i of None \<Rightarrow> Some gs | Some sp \<Rightarrow> record_span a sp gs
      else Some gs)"

definition span_received :: "wire_span \<Rightarrow> nat \<Rightarrow> model \<Rightarrow> model option" where
  "span_received sp now m =
     (case absorb sp (m_agg m) of
        None \<Rightarrow> None
      | Some (a, inserted_ids) \<Rightarrow>
          try_graph (\<lambda>gs. run_opt (graph_takes a) gs inserted_ids)
            (m\<lparr>m_rate := rate_record now (m_rate m), m_agg := a\<rparr>))"

definition select_up :: "model \<Rightarrow> model" where
  "select_up m =
     (if current_pane_len m = 0 then m else set_current_selected (current_selected m - 1) m)"

definition select_down :: "model \<Rightarrow> model" where
  "select_down m =
     (let n = current_pane_len m
      in if n = 0 then m else set_current_selected (min (current_selected m + 1) (n - 1)) m)"

definition expand_selected :: "model \<Rightarrow> model" where
  "expand_selected m =
     (if m_focus m \<noteq> Stacks then m
      else case get_at (visible_rows m) (m_selected m) of
             None \<Rightarrow> m
           | Some r \<Rightarrow> if vr_has_children r
                       then m\<lparr>m_expanded := insert (bk_stack (vr_key r)) (m_expanded m)\<rparr> else m)"

definition expand_all_selected :: "model \<Rightarrow> model" where
  "expand_all_selected m =
     (if m_focus m \<noteq> Stacks then m
      else case get_at (visible_rows m) (m_selected m) of
             None \<Rightarrow> m
           | Some r \<Rightarrow>
               (let root_stack = bk_stack (vr_key r)
                in m\<lparr>m_expanded := m_expanded m \<union>
                     set (concat (map (\<lambda>(k, _).
                       if starts_with (bk_stack k) root_stack \<and> length (bk_stack k) > length root_stack
                       then map (\<lambda>len. take len (bk_stack k)) [length root_stack..<length (bk_stack k)]
                       else []) (rows (m_agg m))))\<rparr>))"

definition retain_outside :: "string list \<Rightarrow> model \<Rightarrow> model" where
  "retain_outside stack m = m\<lparr>m_expanded := {s \<in> m_expanded m. \<not> starts_with s stack}\<rparr>"

fun find_index :: "('a \<Rightarrow> bool) \<Rightarrow> 'a list \<Rightarrow> nat option" where
  "find_index P [] = None"
| "find_index P (x # xs) = (if P x then Some 0 else map_option Suc (find_index P xs))"

definition collapse_selected :: "model \<Rightarrow> model" where
  "collapse_selected m =
     (if m_focus m \<noteq> Stacks then m
      else case get_at (visible_rows m) (m_selected m) of
             None \<Rightarrow> m
           | Some r \<Rightarrow>
               (if vr_is_expanded r then retain_outside (bk_stack (vr_key r)) m
                else if vr_depth r > 0 then
                  (let parent_stack = butlast (bk_stack (vr_key r));
                       m = retain_outside parent_stack m
                   in case find_index (\<lambda>row. bk_stack (vr_key row) = parent_stack) (visible_rows m) of
                        None \<Rightarrow> m
                      | Some idx \<Rightarrow> m\<lparr>m_selected := idx\<rparr>)
                else m))"

definition switch_focus :: "model \<Rightarrow> model" where
  "switch_focus m =
     (case m_focus m of
        Stacks \<Rightarrow> m\<lparr>m_focus := Details, m_details_selected := 0\<rparr>
      | Details \<Rightarrow> m\<lparr>m_focus := Stacks\<rparr>)"

text \<open>\<open>if !set.remove(&x) { set.insert(x) }\<close>\<close>

definition toggle :: "'a \<Rightarrow> 'a set \<Rightarrow> 'a set" where
  "toggle x s = (if x \<in> s then s - {x} else insert x s)"

definition toggle_split_selected :: "model \<Rightarrow> model option" where
  "toggle_split_selected m =
     (if m_focus m \<noteq> Details then Some m
      else case get_at (candidate_split_keys m) (m_details_selected m) of
             None \<Rightarrow> Some m
           | Some k \<Rightarrow>
               map_option (\<lambda>a. m\<lparr>m_agg := a, m_expanded := {}, m_selected := 0\<rparr>)
                 (set_split_keys (toggle k (split_keys (m_agg m))) (m_agg m)))"

section \<open>The reducer: the connection, the level and the chance\<close>

definition server_update :: "update \<Rightarrow> model \<Rightarrow> model" where
  "server_update u m =
     (case u of
        Connected \<Rightarrow> m\<lparr>m_connection := IsConnected, m_status := None\<rparr>
      | Disconnected reason \<Rightarrow> m\<lparr>m_connection := IsDisconnected reason\<rparr>
      | Status msg \<Rightarrow> m\<lparr>m_status := Some msg\<rparr>
      | CacheLevelReceived f \<Rightarrow> m\<lparr>m_cache_level := Some f\<rparr>
      | ServerInfoReceived info \<Rightarrow> m\<lparr>m_server_version := Some (wsi_version info)\<rparr>
      | CacheChanceReceived pct \<Rightarrow> m\<lparr>m_cache_chance := Some pct\<rparr>
      | _ \<Rightarrow> m)"

definition chance_input_update :: "update \<Rightarrow> model \<Rightarrow> model" where
  "chance_input_update u m =
     (case u of
        BeginChanceInput \<Rightarrow> m\<lparr>m_chance_input := open_modal (m_chance_input m)\<rparr>
      | ChanceInputChar c \<Rightarrow> m\<lparr>m_chance_input := map_option (\<lambda>buf. fst (push_digit_or_decimal buf c)) (m_chance_input m)\<rparr>
      | ChanceInputBackspace \<Rightarrow> m\<lparr>m_chance_input := backspace_modal (m_chance_input m)\<rparr>
      | ChanceInputCancel \<Rightarrow> m\<lparr>m_chance_input := close_modal (m_chance_input m)\<rparr>
      | _ \<Rightarrow> m)"

definition chance_input_commit :: "model \<Rightarrow> model \<times> effect" where
  "chance_input_commit m =
     (case m_chance_input m of
        None \<Rightarrow> (m, NoEffect)
      | Some buf \<Rightarrow>
          (m\<lparr>m_chance_input := None\<rparr>,
           case parse_f64 buf of
             None \<Rightarrow> NoEffect
           | Some v \<Rightarrow> if f64_is_finite v \<and> f64_le (Fin 0) v \<and> f64_le v (Fin 100)
                       then RequestSetChance v else NoEffect))"

section \<open>The reducer: the graph view\<close>

definition toggle_graph :: "model \<Rightarrow> model option" where
  "toggle_graph m =
     (let view = (case m_view m of
                    TableView \<Rightarrow>
                      (case selected_visible_row m of
                         Some row \<Rightarrow> GraphView (graph_new (bk_stack (vr_key row)))
                       | None \<Rightarrow> TableView)
                  | _ \<Rightarrow> TableView)
      in try_graph (rehydrate (m_agg m)) (m\<lparr>m_view := view\<rparr>))"

definition set_graph_agg :: "agg_mode \<Rightarrow> model \<Rightarrow> model" where
  "set_graph_agg mode m = with_graph (g_aggregation_update (\<lambda>_. mode)) m"

definition toggle_graph_metric :: "model \<Rightarrow> model option" where
  "toggle_graph_metric m = try_graph (\<lambda>gs. rehydrate (m_agg m) (g_metric_update metric_next gs)) m"

definition agg_input_char :: "rust_char \<Rightarrow> string \<Rightarrow> string" where
  "agg_input_char c buf =
     (let c = lowercase c
      in if (is_ascii_lowercase c \<or> is_ascii_digit c \<or> c = ''.'') \<and> \<not> (c = ''.'' \<and> CHR ''.'' \<in> set buf)
         then buf @ c else buf)"

definition agg_input_update :: "update \<Rightarrow> model \<Rightarrow> model" where
  "agg_input_update u m =
     (case u of
        BeginGraphAggInput \<Rightarrow> with_graph (g_agg_input_update open_modal) m
      | GraphAggInputChar c \<Rightarrow> with_graph (g_agg_input_update (map_option (agg_input_char c))) m
      | GraphAggInputBackspace \<Rightarrow> with_graph (g_agg_input_update backspace_modal) m
      | GraphAggInputCancel \<Rightarrow> with_graph (g_agg_input_update close_modal) m
      | GraphAggInputCommit \<Rightarrow> (with_graph (\<lambda>gs. case g_agg_input gs of
         None \<Rightarrow> gs
       | Some buf \<Rightarrow>
           (let gs = gs\<lparr>g_agg_input := None\<rparr>
            in case parse_agg_input buf of None \<Rightarrow> gs | Some mode \<Rightarrow> gs\<lparr>g_aggregation := mode\<rparr>)) m)
      | _ \<Rightarrow> m)"

definition window_input_update :: "update \<Rightarrow> model \<Rightarrow> model" where
  "window_input_update u m =
     (case u of
        BeginGraphWindowInput \<Rightarrow> with_graph (g_window_input_update open_modal) m
      | GraphWindowInputChar c \<Rightarrow> with_graph (g_window_input_update (map_option (\<lambda>buf. fst (push_digit_or_decimal buf c)))) m
      | GraphWindowInputBackspace \<Rightarrow> with_graph (g_window_input_update backspace_modal) m
      | GraphWindowInputCancel \<Rightarrow> with_graph (g_window_input_update close_modal) m
      | _ \<Rightarrow> m)"

definition window_input_commit :: "model \<Rightarrow> model option" where
  "window_input_commit m =
     try_graph (\<lambda>gs. case g_window_input gs of
         None \<Rightarrow> Some gs
       | Some buf \<Rightarrow>
           (let gs = gs\<lparr>g_window_input := None\<rparr>
            in case parse_f64 buf of
                 None \<Rightarrow> Some gs
               | Some v \<Rightarrow> if f64_is_finite v \<and> f64_lt (Fin 0) v
                           then rehydrate (m_agg m) (gs\<lparr>g_window_secs := v\<rparr>) else Some gs)) m"

definition lookback_input_char :: "rust_char \<Rightarrow> string \<Rightarrow> string" where
  "lookback_input_char c buf =
     (let has_suffix = ends_with buf (CHR ''s'') \<or> ends_with buf (CHR ''m'')
      in if has_suffix then buf
         else let (buf', kept) = push_digit_or_decimal buf c
              in if \<not> kept \<and> (c = ''s'' \<or> c = ''m'') \<and> buf' \<noteq> [] then buf' @ c else buf')"

definition lookback_input_update :: "update \<Rightarrow> model \<Rightarrow> model" where
  "lookback_input_update u m =
     (case u of
        BeginGraphLookbackInput \<Rightarrow> with_graph (g_lookback_input_update open_modal) m
      | GraphLookbackInputChar c \<Rightarrow> with_graph (g_lookback_input_update (map_option (lookback_input_char c))) m
      | GraphLookbackInputBackspace \<Rightarrow> with_graph (g_lookback_input_update backspace_modal) m
      | GraphLookbackInputCancel \<Rightarrow> with_graph (g_lookback_input_update close_modal) m
      | GraphLookbackInputCommit \<Rightarrow> (with_graph (\<lambda>gs. case g_lookback_input gs of
         None \<Rightarrow> gs
       | Some buf \<Rightarrow>
           (let gs = gs\<lparr>g_lookback_input := None\<rparr>
            in case parse_lookback_input buf of None \<Rightarrow> gs | Some secs \<Rightarrow> gs\<lparr>g_lookback_secs := secs\<rparr>)) m)
      | _ \<Rightarrow> m)"

definition graph_switch_focus :: "graph_state \<Rightarrow> graph_state" where
  "graph_switch_focus gs =
     (case g_focus gs of
        Chart \<Rightarrow> gs\<lparr>g_focus := GraphDetails\<rparr>
      | GraphDetails \<Rightarrow>
          (let gs = gs\<lparr>g_focus := Chart\<rparr>
           in gs\<lparr>g_details_selected := min (g_details_selected gs) (length (series_keys gs) - 1)\<rparr>))"

definition graph_candidates :: "aggregator \<Rightarrow> graph_state \<Rightarrow> string list" where
  "graph_candidates a gs =
     (case g_focus gs of Chart \<Rightarrow> [] | GraphDetails \<Rightarrow> candidate_split_keys_for a (g_locked_stack gs))"

definition graph_select_down :: "aggregator \<Rightarrow> graph_state \<Rightarrow> graph_state" where
  "graph_select_down a gs =
     (let total = length (series_keys gs) + length (graph_candidates a gs)
      in if total = 0 then gs else gs\<lparr>g_details_selected := min (g_details_selected gs + 1) (total - 1)\<rparr>)"

definition toggle_split_key :: "aggregator \<Rightarrow> string list \<Rightarrow> string \<Rightarrow> graph_state \<Rightarrow> graph_state option" where
  "toggle_split_key a candidates k gs =
     (let gs = gs\<lparr>g_split_keys := toggle k (g_split_keys gs), g_hidden_series := {}\<rparr>;
          gs = (case g_sort_column gs of
                  SplitKey sk \<Rightarrow> if sk \<notin> g_split_keys gs then gs\<lparr>g_sort_column := ByCount\<rparr> else gs
                | _ \<Rightarrow> gs)
      in map_option (\<lambda>gs. case position k candidates of
             None \<Rightarrow> gs
           | Some pos \<Rightarrow> gs\<lparr>g_details_selected := length (series_keys gs) + pos\<rparr>) (rehydrate a gs))"

definition graph_toggle_split :: "aggregator \<Rightarrow> graph_state \<Rightarrow> graph_state option" where
  "graph_toggle_split a gs =
     (let candidates = graph_candidates a gs;
          series = series_keys gs
      in if g_details_selected gs < length series
         then Some (gs\<lparr>g_hidden_series := toggle (series ! g_details_selected gs) (g_hidden_series gs)\<rparr>)
         else case get_at candidates (g_details_selected gs - length series) of
                None \<Rightarrow> Some gs
              | Some k \<Rightarrow> toggle_split_key a candidates k gs)"

definition sort_column_left :: "graph_state \<Rightarrow> graph_state" where
  "sort_column_left gs =
     (let cols = series_table_columns gs
      in gs\<lparr>g_sort_column :=
           (case position (g_sort_column gs) cols of
              Some i \<Rightarrow> if i > 0 then cols ! (i - 1) else last cols
            | None \<Rightarrow> last cols)\<rparr>)"

definition sort_column_right :: "graph_state \<Rightarrow> graph_state" where
  "sort_column_right gs =
     (let cols = series_table_columns gs
      in gs\<lparr>g_sort_column :=
           (case position (g_sort_column gs) cols of
              Some i \<Rightarrow> if i + 1 < length cols then cols ! (i + 1) else hd cols
            | None \<Rightarrow> hd cols)\<rparr>)"

definition enter_graph :: "model \<Rightarrow> (model \<times> effect) option" where
  "enter_graph m =
     (let lock = (\<lambda>locked eff. map_option (\<lambda>gs. (m\<lparr>m_view := GraphView gs\<rparr>, eff))
                    (rehydrate (m_agg m) (graph_new locked)));
          restore = (\<lambda>es. RequestSetLevel (case es_restore_level es of None \<Rightarrow> LfTrace | Some l \<Rightarrow> l))
      in case m_view m of
           TableView \<Rightarrow> (case selected_visible_row m of
               Some row \<Rightarrow> lock (bk_stack (vr_key row)) NoEffect
             | None \<Rightarrow> Some (m, NoEffect))
         | GraphView _ \<Rightarrow> Some (m, NoEffect)
         | ExploreView es \<Rightarrow> lock (es_locked_stack es) (restore es)
         | TraceView td \<Rightarrow> lock (es_locked_stack (td_explore td)) (restore (td_explore td)))"

section \<open>The reducer: the explore views\<close>

definition enter_explore :: "model \<Rightarrow> model \<times> effect" where
  "enter_explore m =
     (let go = (\<lambda>locked. (m\<lparr>m_view := ExploreView (explore_new locked (m_cache_level m))\<rparr>, RequestSetLevel LfOff))
      in case m_view m of
           TableView \<Rightarrow> (case selected_visible_row m of
               None \<Rightarrow> (m, NoEffect)
             | Some row \<Rightarrow> go (bk_stack (vr_key row)))
         | GraphView gs \<Rightarrow> go (g_locked_stack gs)
         | TraceView td \<Rightarrow> (m\<lparr>m_view := ExploreView (td_explore td)\<rparr>, NoEffect)
         | ExploreView _ \<Rightarrow> (m, NoEffect))"

definition exit_explore :: "model \<Rightarrow> model \<times> effect" where
  "exit_explore m =
     (let leave = (\<lambda>es. (m\<lparr>m_view := TableView\<rparr>,
                         RequestSetLevel (case es_restore_level es of None \<Rightarrow> LfTrace | Some l \<Rightarrow> l)))
      in case m_view m of
           ExploreView es \<Rightarrow> leave es
         | TraceView td \<Rightarrow> leave (td_explore td)
         | _ \<Rightarrow> (m, NoEffect))"

definition enter_table :: "model \<Rightarrow> model \<times> effect" where
  "enter_table m =
     (let restore = (\<lambda>es. RequestSetLevel (case es_restore_level es of None \<Rightarrow> LfTrace | Some l \<Rightarrow> l))
      in (m\<lparr>m_view := TableView\<rparr>,
          case m_view m of
            ExploreView es \<Rightarrow> restore es
          | TraceView td \<Rightarrow> restore (td_explore td)
          | _ \<Rightarrow> NoEffect))"

definition explore_select_down :: "aggregator \<Rightarrow> explore_state \<Rightarrow> explore_state" where
  "explore_select_down a es =
     (let row_count = length (matching_spans a es)
      in if row_count > 0 \<and> es_selected es + 1 < row_count then es\<lparr>es_selected := es_selected es + 1\<rparr> else es)"

definition explore_sort :: "bool \<Rightarrow> aggregator \<Rightarrow> explore_state \<Rightarrow> explore_state" where
  "explore_sort delta_right a es =
     (let fs = distinguishing_fields (matching_spans a es)
      in if delta_right then cycle_sort_right fs es else cycle_sort_left fs es)"

definition explore_search :: "update \<Rightarrow> explore_state \<Rightarrow> explore_state" where
  "explore_search u es =
     (case u of
        BeginExploreSearch \<Rightarrow> es\<lparr>es_search_input := open_modal (es_search_input es), es_selected := 0\<rparr>
      | ExploreSearchChar c \<Rightarrow> es\<lparr>es_search_input := map_option (\<lambda>buf. if is_control c then buf else buf @ c) (es_search_input es)\<rparr>
      | ExploreSearchBackspace \<Rightarrow> es\<lparr>es_search_input := backspace_modal (es_search_input es)\<rparr>
      | ExploreSearchCancel \<Rightarrow> es\<lparr>es_search_input := close_modal (es_search_input es), es_selected := 0\<rparr>
      | ExploreSearchCommit \<Rightarrow> ((case es_search_input es of
        None \<Rightarrow> es
      | Some buf \<Rightarrow> es\<lparr>es_search_input := None, es_query := buf, es_selected := 0\<rparr>))
      | _ \<Rightarrow> es)"

definition explore_open_trace :: "model \<Rightarrow> model" where
  "explore_open_trace m =
     (case m_view m of
        ExploreView es \<Rightarrow>
          (let spans = matching_spans (m_agg m) es
           in if spans = [] then m
              else case find_root_id (m_agg m) (ws_id (spans ! min (es_selected es) (length spans - 1))) of
                     None \<Rightarrow> m
                   | Some root_id \<Rightarrow>
                       m\<lparr>m_view := TraceView \<lparr>td_root_id = root_id, td_selected_idx = 0, td_collapsed = {},
                                             td_explore = es\<rparr>\<rparr>)
      | _ \<Rightarrow> m)"

definition exit_trace_detail :: "model \<Rightarrow> model" where
  "exit_trace_detail m =
     (case m_view m of TraceView td \<Rightarrow> m\<lparr>m_view := ExploreView (td_explore td)\<rparr> | _ \<Rightarrow> m\<lparr>m_view := TableView\<rparr>)"

definition trace_select_down :: "model \<Rightarrow> model option" where
  "trace_select_down m =
     (case m_view m of
        TraceView td \<Rightarrow>
          map_option (\<lambda>rs. if length rs > 0 \<and> td_selected_idx td + 1 < length rs
              then m\<lparr>m_view := TraceView (td\<lparr>td_selected_idx := td_selected_idx td + 1\<rparr>)\<rparr> else m)
            (visible_trace_rows (m_agg m) td)
      | _ \<Rightarrow> Some m)"

definition trace_fold :: "(u64 \<Rightarrow> u64 set \<Rightarrow> u64 set) \<Rightarrow> model \<Rightarrow> model option" where
  "trace_fold f m =
     map_option (\<lambda>sel. case sel of None \<Rightarrow> m | Some i \<Rightarrow> with_trace (td_collapsed_update (f i)) m)
       (trace_selected_span_id m)"

section \<open>The reducer: quitting and switching versions\<close>

definition quit_pressed :: "nat \<Rightarrow> model \<Rightarrow> model \<times> effect" where
  "quit_pressed now m =
     (case m_quit_deadline m of
        Some deadline \<Rightarrow> if now < deadline then (m\<lparr>m_quit_deadline := None\<rparr>, EffQuit)
                         else (m\<lparr>m_quit_deadline := Some (now + 2000000000)\<rparr>, NoEffect)
      | None \<Rightarrow> (m\<lparr>m_quit_deadline := Some (now + 2000000000)\<rparr>, NoEffect))"

definition begin_confirm :: "model \<Rightarrow> model" where
  "begin_confirm m =
     (case (m_confirm m, m_server_version m) of
        (None, Some v) \<Rightarrow>
          if v \<noteq> CLIENT_VERSION
          then m\<lparr>m_confirm := Some \<lparr>cv_server_version = v, cv_status = Confirming\<rparr>\<rparr> else m
      | _ \<Rightarrow> m)"

definition confirm_yes :: "model \<Rightarrow> model \<times> effect" where
  "confirm_yes m =
     (case m_confirm m of
        None \<Rightarrow> (m, NoEffect)
      | Some c \<Rightarrow>
          (case cv_status c of
             Confirming \<Rightarrow> (m\<lparr>m_confirm := Some (c\<lparr>cv_status := Running\<rparr>)\<rparr>,
                             RunUpdateInstaller (Some (cv_server_version c)))
           | Restart \<Rightarrow> (m, EffRestart)
           | _ \<Rightarrow> (m, NoEffect)))"

definition confirm_no :: "model \<Rightarrow> model" where
  "confirm_no m =
     (case m_confirm m of
        None \<Rightarrow> m
      | Some c \<Rightarrow> if cv_status c \<noteq> Running then m\<lparr>m_confirm := None\<rparr> else m)"

definition set_confirm_status :: "confirm_status \<Rightarrow> model \<Rightarrow> model" where
  "set_confirm_status s m = m\<lparr>m_confirm := map_option (cv_status_update (\<lambda>_. s)) (m_confirm m)\<rparr>"

section \<open>The reducer\<close>

definition pure :: "model \<Rightarrow> (model \<times> effect) option" where
  "pure m = Some (m, NoEffect)"

definition try_pure :: "model option \<Rightarrow> (model \<times> effect) option" where
  "try_pure r = map_option (\<lambda>m. (m, NoEffect)) r"

definition apply_update :: "update \<Rightarrow> nat \<Rightarrow> model \<Rightarrow> (model \<times> effect) option" where
  "apply_update u now m =
     (case u of
        SpanReceived sp \<Rightarrow> try_pure (span_received sp now m)
      | SelectUp \<Rightarrow> pure (select_up m)
      | SelectDown \<Rightarrow> pure (select_down m)
      | ExpandSelected \<Rightarrow> pure (expand_selected m)
      | ExpandAllSelected \<Rightarrow> pure (expand_all_selected m)
      | CollapseSelected \<Rightarrow> pure (collapse_selected m)
      | SwitchFocus \<Rightarrow> pure (switch_focus m)
      | ToggleSplitSelected \<Rightarrow> try_pure (toggle_split_selected m)
      | Connected \<Rightarrow> pure (server_update Connected m)
      | Disconnected r \<Rightarrow> pure (server_update (Disconnected r) m)
      | Status s \<Rightarrow> pure (server_update (Status s) m)
      | CacheLevelReceived f \<Rightarrow> pure (server_update (CacheLevelReceived f) m)
      | ServerInfoReceived i \<Rightarrow> pure (server_update (ServerInfoReceived i) m)
      | RequestCacheLevel f \<Rightarrow> Some (m, RequestSetLevel f)
      | CacheChanceReceived p \<Rightarrow> pure (server_update (CacheChanceReceived p) m)
      | BeginChanceInput \<Rightarrow> pure (chance_input_update BeginChanceInput m)
      | ChanceInputChar c \<Rightarrow> pure (chance_input_update (ChanceInputChar c) m)
      | ChanceInputBackspace \<Rightarrow> pure (chance_input_update ChanceInputBackspace m)
      | ChanceInputCancel \<Rightarrow> pure (chance_input_update ChanceInputCancel m)
      | ChanceInputCommit \<Rightarrow> Some (chance_input_commit m)
      | ToggleGraph \<Rightarrow> try_pure (toggle_graph m)
      | SetGraphAgg mode \<Rightarrow> pure (set_graph_agg mode m)
      | ToggleGraphMetric \<Rightarrow> try_pure (toggle_graph_metric m)
      | BeginGraphAggInput \<Rightarrow> pure (agg_input_update BeginGraphAggInput m)
      | GraphAggInputChar c \<Rightarrow> pure (agg_input_update (GraphAggInputChar c) m)
      | GraphAggInputBackspace \<Rightarrow> pure (agg_input_update GraphAggInputBackspace m)
      | GraphAggInputCancel \<Rightarrow> pure (agg_input_update GraphAggInputCancel m)
      | GraphAggInputCommit \<Rightarrow> pure (agg_input_update GraphAggInputCommit m)
      | BeginGraphWindowInput \<Rightarrow> pure (window_input_update BeginGraphWindowInput m)
      | GraphWindowInputChar c \<Rightarrow> pure (window_input_update (GraphWindowInputChar c) m)
      | GraphWindowInputBackspace \<Rightarrow> pure (window_input_update GraphWindowInputBackspace m)
      | GraphWindowInputCancel \<Rightarrow> pure (window_input_update GraphWindowInputCancel m)
      | GraphWindowInputCommit \<Rightarrow> try_pure (window_input_commit m)
      | BeginGraphLookbackInput \<Rightarrow> pure (lookback_input_update BeginGraphLookbackInput m)
      | GraphLookbackInputChar c \<Rightarrow> pure (lookback_input_update (GraphLookbackInputChar c) m)
      | GraphLookbackInputBackspace \<Rightarrow> pure (lookback_input_update GraphLookbackInputBackspace m)
      | GraphLookbackInputCancel \<Rightarrow> pure (lookback_input_update GraphLookbackInputCancel m)
      | GraphLookbackInputCommit \<Rightarrow> pure (lookback_input_update GraphLookbackInputCommit m)
      | ToggleGraphTimeLabels \<Rightarrow> pure (with_graph (g_time_labels_update time_labels_next) m)
      | GraphSwitchFocus \<Rightarrow> pure (with_graph graph_switch_focus m)
      | GraphSelectUp \<Rightarrow> pure (with_graph (g_details_selected_update (\<lambda>i. i - 1)) m)
      | GraphSelectDown \<Rightarrow> pure (with_graph (graph_select_down (m_agg m)) m)
      | GraphToggleSplit \<Rightarrow> try_pure (try_graph (graph_toggle_split (m_agg m)) m)
      | GraphSortColumnLeft \<Rightarrow> pure (with_graph sort_column_left m)
      | GraphSortColumnRight \<Rightarrow> pure (with_graph sort_column_right m)
      | EnterExplore \<Rightarrow> Some (enter_explore m)
      | ExitExplore \<Rightarrow> Some (exit_explore m)
      | ExploreSelectUp \<Rightarrow> pure (with_explore (es_selected_update (\<lambda>i. i - 1)) m)
      | ExploreSelectDown \<Rightarrow> pure (with_explore (explore_select_down (m_agg m)) m)
      | ExploreSortLeft \<Rightarrow> pure (with_explore (explore_sort False (m_agg m)) m)
      | ExploreSortRight \<Rightarrow> pure (with_explore (explore_sort True (m_agg m)) m)
      | ExploreInvertSort \<Rightarrow> pure (with_explore (es_direction_update flip_direction) m)
      | BeginExploreSearch \<Rightarrow> pure (with_explore (explore_search BeginExploreSearch) m)
      | ExploreSearchChar c \<Rightarrow> pure (with_explore (explore_search (ExploreSearchChar c)) m)
      | ExploreSearchBackspace \<Rightarrow> pure (with_explore (explore_search ExploreSearchBackspace) m)
      | ExploreSearchCancel \<Rightarrow> pure (with_explore (explore_search ExploreSearchCancel) m)
      | ExploreSearchCommit \<Rightarrow> pure (with_explore (explore_search ExploreSearchCommit) m)
      | ExploreOpenTrace \<Rightarrow> pure (explore_open_trace m)
      | ExitTraceDetail \<Rightarrow> pure (exit_trace_detail m)
      | TraceDetailSelectUp \<Rightarrow> pure (with_trace (td_selected_idx_update (\<lambda>i. i - 1)) m)
      | TraceDetailSelectDown \<Rightarrow> try_pure (trace_select_down m)
      | TraceDetailExpand \<Rightarrow> try_pure (trace_fold (\<lambda>i c. c - {i}) m)
      | TraceDetailCollapse \<Rightarrow> try_pure (trace_fold insert m)
      | EnterTable \<Rightarrow> Some (enter_table m)
      | EnterGraph \<Rightarrow> enter_graph m
      | Quit \<Rightarrow> Some (quit_pressed now m)
      | QuitConfirmDismiss \<Rightarrow> pure (m\<lparr>m_quit_deadline := None\<rparr>)
      | BeginConfirmVersionSwitch \<Rightarrow> pure (begin_confirm m)
      | ConfirmVersionSwitchYes \<Rightarrow> Some (confirm_yes m)
      | ConfirmVersionSwitchNo \<Rightarrow> pure (confirm_no m)
      | InstallerSucceeded \<Rightarrow> pure (set_confirm_status Restart m)
      | InstallerFailed output \<Rightarrow> pure (set_confirm_status (Failed output) m))"

end
