(* ===== verification/Keys.thy ===== *)
theory Keys
  imports Model
begin

text \<open>
  The keyboard thread of the console and the flags it reads (\<open>tracing-console/src/runtime.rs\<close>,
  \<open>keyboard_loop\<close> and the flag computation of \<open>run_tui\<close>): which update a key stands for, by the
  modal that is open, the view and the quit prompt. \<open>key_code\<close> is crossterm's \<open>KeyCode\<close>, as far as
  the code matches on it; a character is its UTF-8 bytes. \<open>continue\<close> without an update is None.
\<close>

section \<open>Flags\<close>

definition MODAL_NONE :: u8 where "MODAL_NONE = 0"
definition MODAL_CHANCE :: u8 where "MODAL_CHANCE = 1"
definition MODAL_GRAPH_AGG :: u8 where "MODAL_GRAPH_AGG = 2"
definition MODAL_GRAPH_WINDOW :: u8 where "MODAL_GRAPH_WINDOW = 3"
definition MODAL_GRAPH_LOOKBACK :: u8 where "MODAL_GRAPH_LOOKBACK = 4"
definition MODAL_EXPLORE_SEARCH :: u8 where "MODAL_EXPLORE_SEARCH = 5"
definition MODAL_CONFIRM_VERSION_SWITCH :: u8 where "MODAL_CONFIRM_VERSION_SWITCH = 6"

lemmas modal_tags = MODAL_NONE_def MODAL_CHANCE_def MODAL_GRAPH_AGG_def MODAL_GRAPH_WINDOW_def
  MODAL_GRAPH_LOOKBACK_def MODAL_EXPLORE_SEARCH_def MODAL_CONFIRM_VERSION_SWITCH_def

definition VIEW_TABLE :: u8 where "VIEW_TABLE = 0"
definition VIEW_GRAPH :: u8 where "VIEW_GRAPH = 1"
definition VIEW_EXPLORE :: u8 where "VIEW_EXPLORE = 2"
definition VIEW_TRACE_DETAIL :: u8 where "VIEW_TRACE_DETAIL = 3"

lemmas view_tags = VIEW_TABLE_def VIEW_GRAPH_def VIEW_EXPLORE_def VIEW_TRACE_DETAIL_def

text \<open>What \<open>run_tui\<close> stores after every applied update.\<close>

definition modal_kind_of :: "model \<Rightarrow> u8" where
  "modal_kind_of m =
     (if m_confirm m \<noteq> None then MODAL_CONFIRM_VERSION_SWITCH
      else if m_chance_input m \<noteq> None then MODAL_CHANCE
      else case m_view m of
          GraphView gs \<Rightarrow>
            if g_agg_input gs \<noteq> None then MODAL_GRAPH_AGG
            else if g_window_input gs \<noteq> None then MODAL_GRAPH_WINDOW
            else if g_lookback_input gs \<noteq> None then MODAL_GRAPH_LOOKBACK
            else MODAL_NONE
        | ExploreView es \<Rightarrow> if es_search_input es \<noteq> None then MODAL_EXPLORE_SEARCH else MODAL_NONE
        | _ \<Rightarrow> MODAL_NONE)"

definition view_tag_of :: "model \<Rightarrow> u8" where
  "view_tag_of m =
     (case m_view m of
        TableView \<Rightarrow> VIEW_TABLE
      | GraphView _ \<Rightarrow> VIEW_GRAPH
      | ExploreView _ \<Rightarrow> VIEW_EXPLORE
      | TraceView _ \<Rightarrow> VIEW_TRACE_DETAIL)"

record flags =
  fl_modal_kind :: u8
  fl_current_view :: u8
  fl_quit_confirm_active :: bool

definition flags_of :: "model \<Rightarrow> flags" where
  "flags_of m =
     \<lparr>fl_modal_kind = modal_kind_of m, fl_current_view = view_tag_of m,
      fl_quit_confirm_active = (m_quit_deadline m \<noteq> None)\<rparr>"

definition flags_initial :: flags where
  "flags_initial = \<lparr>fl_modal_kind = MODAL_NONE, fl_current_view = VIEW_TABLE, fl_quit_confirm_active = False\<rparr>"

section \<open>Routing a key\<close>

datatype key_code =
    KeyChar rust_char
  | KeyBackspace | KeyEnter | KeyEsc | KeyTab | KeyBackTab | KeyUp | KeyDown | KeyLeft | KeyRight
  | KeyOther nat

definition route_modal :: "u8 \<Rightarrow> key_code \<Rightarrow> update option" where
  "route_modal modal k =
     (if modal = MODAL_CHANCE then
        (case k of KeyChar c \<Rightarrow> Some (ChanceInputChar c) | KeyBackspace \<Rightarrow> Some ChanceInputBackspace
         | KeyEnter \<Rightarrow> Some ChanceInputCommit | KeyEsc \<Rightarrow> Some ChanceInputCancel | _ \<Rightarrow> None)
      else if modal = MODAL_GRAPH_AGG then
        (case k of KeyChar c \<Rightarrow> Some (GraphAggInputChar c) | KeyBackspace \<Rightarrow> Some GraphAggInputBackspace
         | KeyEnter \<Rightarrow> Some GraphAggInputCommit | KeyEsc \<Rightarrow> Some GraphAggInputCancel | _ \<Rightarrow> None)
      else if modal = MODAL_GRAPH_WINDOW then
        (case k of KeyChar c \<Rightarrow> Some (GraphWindowInputChar c) | KeyBackspace \<Rightarrow> Some GraphWindowInputBackspace
         | KeyEnter \<Rightarrow> Some GraphWindowInputCommit | KeyEsc \<Rightarrow> Some GraphWindowInputCancel | _ \<Rightarrow> None)
      else if modal = MODAL_GRAPH_LOOKBACK then
        (case k of KeyChar c \<Rightarrow> Some (GraphLookbackInputChar c) | KeyBackspace \<Rightarrow> Some GraphLookbackInputBackspace
         | KeyEnter \<Rightarrow> Some GraphLookbackInputCommit | KeyEsc \<Rightarrow> Some GraphLookbackInputCancel | _ \<Rightarrow> None)
      else if modal = MODAL_EXPLORE_SEARCH then
        (case k of KeyChar c \<Rightarrow> Some (ExploreSearchChar c) | KeyBackspace \<Rightarrow> Some ExploreSearchBackspace
         | KeyEnter \<Rightarrow> Some ExploreSearchCommit | KeyEsc \<Rightarrow> Some ExploreSearchCancel | _ \<Rightarrow> None)
      else if modal = MODAL_CONFIRM_VERSION_SWITCH then
        (case k of
           KeyChar c \<Rightarrow> if c = ''y'' \<or> c = ''Y'' then Some ConfirmVersionSwitchYes
                        else if c = ''n'' \<or> c = ''N'' then Some ConfirmVersionSwitchNo else None
         | KeyEsc \<Rightarrow> Some ConfirmVersionSwitchNo | _ \<Rightarrow> None)
      else None)"

definition route_level :: "key_code \<Rightarrow> wire_level_filter option" where
  "route_level k =
     (case k of
        KeyChar c \<Rightarrow>
          if c = ''O'' then Some LfOff else if c = ''I'' then Some LfInfo
          else if c = ''D'' then Some LfDebug else if c = ''T'' then Some LfTrace else None
      | _ \<Rightarrow> None)"

definition route_graph :: "key_code \<Rightarrow> update option" where
  "route_graph k =
     (case k of
        KeyChar c \<Rightarrow>
          if c = ''q'' then Some Quit
          else if c = ''s'' then Some EnterTable
          else if c = ''e'' then Some EnterExplore
          else if c = ''a'' then Some BeginGraphAggInput
          else if c = ''m'' then Some ToggleGraphMetric
          else if c = ''w'' then Some BeginGraphWindowInput
          else if c = ''l'' then Some BeginGraphLookbackInput
          else if c = ''u'' then Some ToggleGraphTimeLabels
          else if c = ''j'' then Some GraphSelectDown
          else if c = ''k'' then Some GraphSelectUp
          else if c = ''h'' then Some GraphSortColumnLeft
          else if c = '' '' then Some GraphToggleSplit
          else None
      | KeyEsc \<Rightarrow> Some ToggleGraph
      | KeyTab \<Rightarrow> Some GraphSwitchFocus
      | KeyBackTab \<Rightarrow> Some GraphSwitchFocus
      | KeyDown \<Rightarrow> Some GraphSelectDown
      | KeyUp \<Rightarrow> Some GraphSelectUp
      | KeyLeft \<Rightarrow> Some GraphSortColumnLeft
      | KeyRight \<Rightarrow> Some GraphSortColumnRight
      | _ \<Rightarrow> None)"

definition route_explore :: "key_code \<Rightarrow> update option" where
  "route_explore k =
     (case k of
        KeyChar c \<Rightarrow>
          if c = ''q'' then Some Quit
          else if c = ''s'' then Some EnterTable
          else if c = ''g'' then Some EnterGraph
          else if c = ''/'' then Some BeginExploreSearch
          else if c = ''i'' then Some ExploreInvertSort
          else if c = ''j'' then Some ExploreSelectDown
          else if c = ''k'' then Some ExploreSelectUp
          else if c = ''h'' then Some ExploreSortLeft
          else if c = ''l'' then Some ExploreSortRight
          else None
      | KeyEsc \<Rightarrow> Some ExitExplore
      | KeyDown \<Rightarrow> Some ExploreSelectDown
      | KeyUp \<Rightarrow> Some ExploreSelectUp
      | KeyLeft \<Rightarrow> Some ExploreSortLeft
      | KeyRight \<Rightarrow> Some ExploreSortRight
      | KeyEnter \<Rightarrow> Some ExploreOpenTrace
      | _ \<Rightarrow> None)"

definition route_trace :: "key_code \<Rightarrow> update option" where
  "route_trace k =
     (case k of
        KeyChar c \<Rightarrow>
          if c = ''q'' then Some Quit
          else if c = ''s'' then Some EnterTable
          else if c = ''g'' then Some EnterGraph
          else if c = ''e'' then Some ExitTraceDetail
          else None
      | KeyEsc \<Rightarrow> Some ExitTraceDetail
      | KeyDown \<Rightarrow> Some TraceDetailSelectDown
      | KeyUp \<Rightarrow> Some TraceDetailSelectUp
      | KeyRight \<Rightarrow> Some TraceDetailExpand
      | KeyLeft \<Rightarrow> Some TraceDetailCollapse
      | _ \<Rightarrow> None)"

definition route_table :: "key_code \<Rightarrow> update option" where
  "route_table k =
     (case k of
        KeyChar c \<Rightarrow>
          if c = ''q'' then Some Quit
          else if c = ''j'' then Some SelectDown
          else if c = ''k'' then Some SelectUp
          else if c = ''l'' then Some ExpandSelected
          else if c = ''h'' then Some CollapseSelected
          else if c = '' '' then Some ToggleSplitSelected
          else if c = ''C'' then Some BeginChanceInput
          else if c = ''g'' then Some ToggleGraph
          else if c = ''e'' then Some EnterExplore
          else None
      | KeyEsc \<Rightarrow> Some Quit
      | KeyDown \<Rightarrow> Some SelectDown
      | KeyUp \<Rightarrow> Some SelectUp
      | KeyRight \<Rightarrow> Some ExpandSelected
      | KeyEnter \<Rightarrow> Some ExpandAllSelected
      | KeyLeft \<Rightarrow> Some CollapseSelected
      | KeyTab \<Rightarrow> Some SwitchFocus
      | KeyBackTab \<Rightarrow> Some SwitchFocus
      | _ \<Rightarrow> None)"

definition route_key :: "flags \<Rightarrow> key_code \<Rightarrow> update option" where
  "route_key fl k =
     (if fl_modal_kind fl \<noteq> MODAL_NONE then route_modal (fl_modal_kind fl) k
      else case route_level k of
        Some level \<Rightarrow> Some (RequestCacheLevel level)
      | None \<Rightarrow>
          if fl_quit_confirm_active fl \<and> k = KeyEsc then Some QuitConfirmDismiss
          else if k = KeyChar ''v'' then Some BeginConfirmVersionSwitch
          else if fl_current_view fl = VIEW_GRAPH then route_graph k
          else if fl_current_view fl = VIEW_EXPLORE then route_explore k
          else if fl_current_view fl = VIEW_TRACE_DETAIL then route_trace k
          else route_table k)"

section \<open>The loop\<close>

text \<open>
  One turn: what \<open>poll\<close> and \<open>read\<close> answer, and what \<open>send\<close> answers when there is an update to
  send. The turn says what was sent and whether the thread goes on.
\<close>

datatype poll_result = PollTimeout | PollFailed | PollKey key_code | PollOther

definition keyboard_turn :: "flags \<Rightarrow> poll_result \<Rightarrow> send_outcome \<Rightarrow> update option \<times> bool" where
  "keyboard_turn fl p outcome =
     (case p of
        PollTimeout \<Rightarrow> (None, True)
      | PollFailed \<Rightarrow> (None, False)
      | PollOther \<Rightarrow> (None, True)
      | PollKey k \<Rightarrow>
          (case route_key fl k of
             None \<Rightarrow> (None, True)
           | Some u \<Rightarrow> (if outcome = SendOk then Some u else None, outcome \<noteq> SendClosed)))"

fun keyboard_loop :: "(flags \<times> poll_result \<times> send_outcome) list \<Rightarrow> update list \<times> bool" where
  "keyboard_loop [] = ([], True)"
| "keyboard_loop ((fl, p, outcome) # turns) =
     (let (sent, go) = keyboard_turn fl p outcome; us = (case sent of None \<Rightarrow> [] | Some u \<Rightarrow> [u])
      in if go then (us @ fst (keyboard_loop turns), snd (keyboard_loop turns)) else (us, False))"

lemmas route_defs = route_key_def route_modal_def route_level_def route_graph_def route_explore_def
  route_trace_def route_table_def

end
