(* ===== verification/Installer.thy ===== *)
theory Installer
  imports Text
begin

text \<open>
  The installer and the command line (\<open>tracing-console/src/installer.rs\<close>, \<open>args.rs\<close>): which shell
  command a version turns into, what of the installer's output is put on the screen, and the
  arguments the runtime reads. Running \<open>bash\<close> and parsing the command line (clap) are not modelled;
  the text Rust prints for \<open>{:?}\<close> of a string is the parameter \<open>dbg\<close>.
\<close>

section \<open>The command\<close>

definition INSTALLER_URL :: string where
  "INSTALLER_URL = ''https://raw.githubusercontent.com/kvc0/tracing-console/main/install.sh''"

definition version_is_safe :: "string \<Rightarrow> bool" where
  "version_is_safe v = (v \<noteq> [] \<and> length v < 32 \<and> list_all (\<lambda>c. is_digit c \<or> c = CHR ''.'') v)"

definition installer_command :: "string option \<Rightarrow> string" where
  "installer_command version =
     (case version of
        None \<Rightarrow> ''set -o pipefail; curl -fsSL '' @ INSTALLER_URL @ '' | bash''
      | Some v \<Rightarrow> ''set -o pipefail; curl -fsSL '' @ INSTALLER_URL @ '' | bash -s -- '' @ v)"

text \<open>\<open>run\<close> and \<open>run_capturing\<close> up to the launch: the refusal, or the arguments \<open>bash\<close> is given.\<close>

datatype launch_error = UnsafeVersion string | LaunchFailed string

definition installer_launch :: "string option \<Rightarrow> launch_error + string list" where
  "installer_launch version =
     (case version of
        Some v \<Rightarrow> if \<not> version_is_safe v then Inl (UnsafeVersion v) else Inr [''-c'', installer_command version]
      | None \<Rightarrow> Inr [''-c'', installer_command version])"

definition launch_error_text :: "(string \<Rightarrow> string) \<Rightarrow> launch_error \<Rightarrow> string" where
  "launch_error_text dbg e =
     (case e of
        UnsafeVersion v \<Rightarrow> ''refusing to run installer for unsafe version string: '' @ dbg v
      | LaunchFailed msg \<Rightarrow> msg)"

section \<open>The output\<close>

text \<open>\<open>str::chars\<close>.\<close>

function chars :: "string \<Rightarrow> rust_char list" where
  "chars [] = []"
| "chars (c # s) = (c # takeWhile is_continuation s) # chars (dropWhile is_continuation s)"
  by pat_completeness auto
termination
  by (relation "measure length") (auto simp: le_imp_less_Suc length_dropWhile_le)

definition esc_char :: rust_char where "esc_char = [char_of (27 :: nat)]"

definition truncated_text :: string where
  "truncated_text = [char_of (10 :: nat), char_of (226 :: nat), char_of (128 :: nat), char_of (166 :: nat)] @ ''(truncated)''"

definition MAX_BYTES :: nat where "MAX_BYTES = 4096"

text \<open>The rest after the final byte of a control sequence.\<close>

definition csi_final :: "rust_char \<Rightarrow> bool" where
  "csi_final c = (case c of [d] \<Rightarrow> CHR ''@'' \<le> d \<and> d \<le> CHR ''~'' | _ \<Rightarrow> False)"

fun csi_rest :: "rust_char list \<Rightarrow> rust_char list" where
  "csi_rest [] = []"
| "csi_rest (c # cs) = (if csi_final c then cs else csi_rest cs)"

lemma csi_rest_length: "length (csi_rest cs) \<le> length cs"
  by (induction cs) auto

definition csi_skip :: "rust_char list \<Rightarrow> rust_char list" where
  "csi_skip cs = (case cs of c # r \<Rightarrow> if c = ''['' then csi_rest r else cs | [] \<Rightarrow> [])"

lemma csi_skip_length: "length (csi_skip cs) \<le> length cs"
  using csi_rest_length by (auto simp: csi_skip_def le_SucI split: list.split)

definition newline :: rust_char where "newline = [char_of (10 :: nat)]"
definition tabulator :: rust_char where "tabulator = [char_of (9 :: nat)]"

function sanitize_from :: "string \<Rightarrow> rust_char list \<Rightarrow> string" where
  "sanitize_from out [] = out"
| "sanitize_from out (c # cs) =
     (if MAX_BYTES \<le> length out then out @ truncated_text
      else if c = esc_char then sanitize_from out (csi_skip cs)
      else if c = newline \<or> c = tabulator then sanitize_from (out @ c) cs
      else if is_control c then sanitize_from (out @ '' '') cs
      else sanitize_from (out @ c) cs)"
  by pat_completeness auto
termination
  by (relation "measure (\<lambda>(out, cs). length cs)") (auto simp: le_imp_less_Suc csi_skip_length)

definition sanitize_for_modal :: "string \<Rightarrow> string" where
  "sanitize_for_modal s = sanitize_from [] (chars s)"

text \<open>\<open>run_capturing\<close> after \<open>bash\<close> returned, with its output decoded.\<close>

record installer_outcome =
  io_success :: bool
  io_status :: string
  io_combined_output :: string

definition combine_output :: "string \<Rightarrow> string \<Rightarrow> string" where
  "combine_output stderr stdout =
     (let combined = stderr
      in if stdout \<noteq> []
         then (if combined \<noteq> [] \<and> \<not> ends_with combined (char_of (10 :: nat)) then combined @ newline else combined) @ stdout
         else combined)"

definition capture :: "bool \<Rightarrow> string \<Rightarrow> string \<Rightarrow> string \<Rightarrow> installer_outcome" where
  "capture success status stderr stdout =
     \<lparr>io_success = success, io_status = status,
      io_combined_output = sanitize_for_modal (combine_output stderr stdout)\<rparr>"

section \<open>Arguments\<close>

definition DEFAULT_HOST :: string where "DEFAULT_HOST = ''127.0.0.1:7777''"
definition DEFAULT_HISTORY_BUDGET :: usize where "DEFAULT_HISTORY_BUDGET = 4096"
definition DEFAULT_STREAM_BUFFER :: usize where "DEFAULT_STREAM_BUFFER = 4096"

datatype level_arg = ArgOff | ArgError | ArgWarn | ArgInfo | ArgDebug | ArgTrace

fun level_arg_to_wire :: "level_arg \<Rightarrow> wire_level_filter" where
  "level_arg_to_wire ArgOff = LfOff"
| "level_arg_to_wire ArgError = LfError"
| "level_arg_to_wire ArgWarn = LfWarn"
| "level_arg_to_wire ArgInfo = LfInfo"
| "level_arg_to_wire ArgDebug = LfDebug"
| "level_arg_to_wire ArgTrace = LfTrace"

datatype mode_flag = ModeTui | ModeStates | ModeStats

record args =
  ar_addr :: string
  ar_mode :: mode_flag
  ar_stats_hz :: f64
  ar_no_color :: bool
  ar_history :: usize
  ar_stream_buffer :: usize
  ar_set_level :: "level_arg option"
  ar_set_chance :: "f64 option"
  ar_update :: bool

definition args_default :: args where
  "args_default =
     \<lparr>ar_addr = DEFAULT_HOST, ar_mode = ModeTui, ar_stats_hz = Fin 1, ar_no_color = False,
      ar_history = DEFAULT_HISTORY_BUDGET, ar_stream_buffer = DEFAULT_STREAM_BUFFER,
      ar_set_level = None, ar_set_chance = None, ar_update = False\<rparr>"

end
