(* ===== verification/Runtime.thy ===== *)
theory Runtime
  imports Keys Installer
begin

text \<open>
  The runtime of the console (\<open>tracing-console/src/runtime.rs\<close>): the network task, the loop of the
  terminal mode around the reducer and the \<open>--states\<close> mode. What the sockets, the channels, the
  clock and the installer answer are the arguments of the steps. Raw mode, drawing and replacing
  the process are not modelled.
\<close>

section \<open>Requests of the runtime\<close>

datatype outgoing = OutSetCacheLevel wire_level_filter | OutSetCacheChance f64

definition outgoing_body :: "outgoing \<Rightarrow> request_body" where
  "outgoing_body out = (case out of OutSetCacheLevel f \<Rightarrow> SetCacheLevel f | OutSetCacheChance pct \<Rightarrow> SetCacheChance pct)"

text \<open>What \<open>run\<close> queues before any mode starts.\<close>

definition initial_outgoing :: "args \<Rightarrow> outgoing list" where
  "initial_outgoing a =
     (case ar_set_level a of Some level \<Rightarrow> [OutSetCacheLevel (level_arg_to_wire level)] | None \<Rightarrow> []) @
     (case ar_set_chance a of Some chance \<Rightarrow> [OutSetCacheChance chance] | None \<Rightarrow> [])"

section \<open>The network task\<close>

definition resp_to_update :: "response \<Rightarrow> update option" where
  "resp_to_update resp =
     (case rs_body resp of
        RsSpan s \<Rightarrow> Some (SpanReceived s)
      | RsCacheLevel f \<Rightarrow> Some (CacheLevelReceived f)
      | RsCacheChance pct \<Rightarrow> Some (CacheChanceReceived pct)
      | RsServerInfo info \<Rightarrow> Some (ServerInfoReceived info)
      | _ \<Rightarrow> None)"

definition resp_updates :: "response \<Rightarrow> update list" where
  "resp_updates resp = (case resp_to_update resp of Some u \<Rightarrow> [u] | None \<Rightarrow> [])"

definition MAX_BATCH :: usize where "MAX_BATCH = 256"

text \<open>What \<open>stream.next()\<close> yields; the list of a turn is what is ready before a poll finds nothing.\<close>

datatype stream_item = ItemOk response | ItemErr string | ItemEnd

record gathered =
  ga_batch :: "update list"
  ga_ended_at :: "string option"
  ga_dropped :: bool
  ga_rest :: "stream_item list"

definition gather_item :: "stream_item \<Rightarrow> gathered \<Rightarrow> gathered" where
  "gather_item item g =
     (case item of
        ItemEnd \<Rightarrow> g\<lparr>ga_dropped := True\<rparr>
      | ItemErr e \<Rightarrow> g\<lparr>ga_ended_at := Some (''stream error: '' @ e)\<rparr>
      | ItemOk resp \<Rightarrow> g\<lparr>ga_batch := ga_batch g @ resp_updates resp\<rparr>)"

fun drain :: "stream_item list \<Rightarrow> gathered \<Rightarrow> gathered" where
  "drain [] g = g\<lparr>ga_rest := []\<rparr>"
| "drain (item # items) g =
     (if ga_dropped g \<or> ga_ended_at g \<noteq> None \<or> MAX_BATCH \<le> length (ga_batch g)
      then g\<lparr>ga_rest := item # items\<rparr>
      else drain items (gather_item item g))"

text \<open>The first item comes through the \<open>select!\<close>, whatever the size of the batch.\<close>

definition gather :: "stream_item \<Rightarrow> stream_item list \<Rightarrow> gathered" where
  "gather first items =
     drain items (gather_item first \<lparr>ga_batch = [], ga_ended_at = None, ga_dropped = False, ga_rest = []\<rparr>)"

datatype net_phase = NetDialing | NetStreaming | NetGone

text \<open>\<open>nt_updates\<close> is what the update channel took, \<open>nt_requests\<close> what was given to the connections.\<close>

record net =
  nt_phase :: net_phase
  nt_next_id :: u64
  nt_requests :: "request list"
  nt_updates :: "update list"

definition net_new :: net where
  "net_new = \<lparr>nt_phase = NetDialing, nt_next_id = 1, nt_requests = [], nt_updates = []\<rparr>"

definition tx_send :: "send_outcome \<Rightarrow> update list \<Rightarrow> net \<Rightarrow> net" where
  "tx_send outcome us n = (if outcome = SendOk then n\<lparr>nt_updates := nt_updates n @ us\<rparr> else n)"

definition take_id :: "net \<Rightarrow> u64 \<times> net" where
  "take_id n = (nt_next_id n, n\<lparr>nt_next_id := nt_next_id n + 1\<rparr>)"

text \<open>\<open>connecting to \<close>, the address, an ellipsis.\<close>

definition connecting_text :: "string \<Rightarrow> string" where
  "connecting_text addr = ''connecting to '' @ addr @ [char_of (226 :: nat), char_of (128 :: nat), char_of (166 :: nat)]"

datatype dial_result = DialFailed string | StartFailed string | Started

text \<open>One round up to the stream; \<open>o1\<close>, \<open>o2\<close>, \<open>o3\<close> are the answers of its sends.\<close>

definition net_dial ::
  "(control_code \<Rightarrow> u8) \<Rightarrow> string \<Rightarrow> dial_result \<Rightarrow> send_outcome \<Rightarrow> send_outcome \<Rightarrow> send_outcome \<Rightarrow> net \<Rightarrow> net" where
  "net_dial cc addr d o1 o2 o3 n =
     (let n = tx_send o1 [Status (connecting_text addr)] n
      in case d of
           DialFailed e \<Rightarrow> tx_send o2 [Disconnected (''connect failed: '' @ e)] n
         | _ \<Rightarrow>
             (let n = tx_send o2 [Connected] n;
                  (i, n) = take_id n;
                  start = (request_new cc StartStream)\<lparr>rq_id := i\<rparr>
              in case d of
                   StartFailed e \<Rightarrow> tx_send o3 [Disconnected (''StartStream failed: '' @ e)] n
                 | _ \<Rightarrow> n\<lparr>nt_phase := NetStreaming, nt_requests := nt_requests n @ [start]\<rparr>))"

text \<open>After the stream: the last message of the round, then either the end or the next round.\<close>

definition net_finish :: "bool \<Rightarrow> send_outcome \<Rightarrow> net \<Rightarrow> net" where
  "net_finish runtime_gone outcome n =
     (tx_send outcome [Disconnected ''stream ended''] n)\<lparr>nt_phase := (if runtime_gone then NetGone else NetDialing)\<rparr>"

definition net_items :: "stream_item \<Rightarrow> stream_item list \<Rightarrow> send_outcome \<Rightarrow> send_outcome \<Rightarrow> send_outcome \<Rightarrow> net \<Rightarrow> net" where
  "net_items first items o1 o2 o3 n =
     (let g = gather first items
      in if ga_batch g \<noteq> [] \<and> o1 = SendClosed then net_finish True o3 n
         else let n = (if ga_batch g \<noteq> [] then tx_send o1 (ga_batch g) n else n)
              in case ga_ended_at g of
                   Some msg \<Rightarrow> net_finish False o3 (tx_send o2 [Disconnected msg] n)
                 | None \<Rightarrow> if ga_dropped g then net_finish False o3 n else n)"

text \<open>\<open>req\<close> is what the queue of outgoing requests yields; \<open>accepted\<close>, whether \<open>send_unary\<close> took it.\<close>

definition net_outgoing :: "(control_code \<Rightarrow> u8) \<Rightarrow> outgoing option \<Rightarrow> bool \<Rightarrow> send_outcome \<Rightarrow> net \<Rightarrow> net" where
  "net_outgoing cc req accepted o3 n =
     (case req of
        None \<Rightarrow> net_finish True o3 n
      | Some out \<Rightarrow>
          (let request = request_new cc (outgoing_body out);
               (i, n) = take_id n;
               request = request\<lparr>rq_id := i\<rparr>
           in if accepted then n\<lparr>nt_requests := nt_requests n @ [request]\<rparr> else n))"

datatype net_event =
    NetDial dial_result send_outcome send_outcome send_outcome
  | NetItems stream_item "stream_item list" send_outcome send_outcome send_outcome
  | NetOutgoing "outgoing option" bool send_outcome

fun net_step :: "(control_code \<Rightarrow> u8) \<Rightarrow> string \<Rightarrow> net \<Rightarrow> net_event \<Rightarrow> net option" where
  "net_step cc addr n (NetDial d o1 o2 o3) =
     (if nt_phase n = NetDialing then Some (net_dial cc addr d o1 o2 o3 n) else None)"
| "net_step cc addr n (NetItems first items o1 o2 o3) =
     (if nt_phase n = NetStreaming then Some (net_items first items o1 o2 o3 n) else None)"
| "net_step cc addr n (NetOutgoing req accepted o3) =
     (if nt_phase n = NetStreaming then Some (net_outgoing cc req accepted o3 n) else None)"

section \<open>The installer task\<close>

definition trim_end :: "string \<Rightarrow> string" where
  "trim_end s =
     concat (rev (dropWhile (\<lambda>c. c \<in> {'' '', newline, tabulator, map char_of [194 :: nat, 160],
         map char_of [225 :: nat, 154, 128], map char_of [226 :: nat, 128, 168], map char_of [226 :: nat, 128, 169],
         map char_of [226 :: nat, 128, 175], map char_of [226 :: nat, 129, 159], map char_of [227 :: nat, 128, 128]} \<or>
       c \<in> set (map (\<lambda>k. map char_of [226 :: nat, 128, k]) [128..<139])) (rev (chars s))))"

definition installer_update :: "(string \<Rightarrow> string) \<Rightarrow> launch_error + installer_outcome \<Rightarrow> update" where
  "installer_update dbg r =
     (case r of
        Inr out \<Rightarrow>
          if io_success out then InstallerSucceeded
          else InstallerFailed
            (if io_combined_output out = [] then ''installer exited with status '' @ io_status out
             else ''installer exited with status '' @ io_status out @ newline @ newline @ trim_end (io_combined_output out))
      | Inl e \<Rightarrow> InstallerFailed (''failed to launch installer: '' @ launch_error_text dbg e))"

section \<open>The terminal mode\<close>

datatype tui_exit = TuiQuit | TuiRestart | TuiClosed

text \<open>\<open>tu_outgoing\<close> is what the queue of outgoing requests took, \<open>tu_installs\<close> the installers spawned.\<close>

record tui =
  tu_model :: model
  tu_flags :: flags
  tu_outgoing :: "outgoing list"
  tu_installs :: "string option list"
  tu_exit :: "tui_exit option"

definition tui_new :: "usize \<Rightarrow> tui" where
  "tui_new budget =
     \<lparr>tu_model = model_new budget, tu_flags = flags_initial, tu_outgoing = [], tu_installs = [], tu_exit = None\<rparr>"

definition out_send :: "send_outcome \<Rightarrow> outgoing \<Rightarrow> tui \<Rightarrow> tui" where
  "out_send outcome out t = (if outcome = SendOk then t\<lparr>tu_outgoing := tu_outgoing t @ [out]\<rparr> else t)"

definition tui_effect :: "effect \<Rightarrow> send_outcome \<Rightarrow> tui \<Rightarrow> tui" where
  "tui_effect e outcome t =
     (case e of
        NoEffect \<Rightarrow> t
      | EffQuit \<Rightarrow> t\<lparr>tu_exit := Some TuiQuit\<rparr>
      | RequestSetLevel f \<Rightarrow> out_send outcome (OutSetCacheLevel f) t
      | RequestSetChance pct \<Rightarrow> out_send outcome (OutSetCacheChance pct) t
      | EffRestart \<Rightarrow> t\<lparr>tu_exit := Some TuiRestart\<rparr>
      | RunUpdateInstaller version \<Rightarrow> t\<lparr>tu_installs := tu_installs t @ [version]\<rparr>)"

text \<open>One update of a batch: its time, and the answer of the send its effect may cause.\<close>

definition tui_apply :: "nat \<times> update \<times> send_outcome \<Rightarrow> tui \<Rightarrow> tui option" where
  "tui_apply x t =
     (case x of (now, u, outcome) \<Rightarrow>
        case apply_update u now (tu_model t) of
          None \<Rightarrow> None
        | Some (m, e) \<Rightarrow>
            (let t = tui_effect e outcome (t\<lparr>tu_model := m\<rparr>)
             in Some (if tu_exit t \<noteq> None then t else t\<lparr>tu_flags := flags_of m\<rparr>)))"

fun tui_batch :: "(nat \<times> update \<times> send_outcome) list \<Rightarrow> tui \<Rightarrow> tui option" where
  "tui_batch [] t = Some t"
| "tui_batch (x # xs) t =
     (case tui_apply x t of
        None \<Rightarrow> None
      | Some t' \<Rightarrow> if tu_exit t' \<noteq> None then Some t' else tui_batch xs t')"

definition tui_tick :: "nat \<Rightarrow> tui \<Rightarrow> tui" where
  "tui_tick now t =
     (let m = expire_quit_confirm_if_due now (tu_model t)
      in t\<lparr>tu_model := m, tu_flags := (tu_flags t)\<lparr>fl_quit_confirm_active := (m_quit_deadline m \<noteq> None)\<rparr>\<rparr>)"

datatype tui_event = TuiBatch "(nat \<times> update \<times> send_outcome) list option" | TuiTick nat

definition tui_step :: "tui \<Rightarrow> tui_event \<Rightarrow> tui option" where
  "tui_step t ev =
     (if tu_exit t \<noteq> None then None
      else case ev of
          TuiBatch (Some items) \<Rightarrow> tui_batch items t
        | TuiBatch None \<Rightarrow> Some (t\<lparr>tu_exit := Some TuiClosed\<rparr>)
        | TuiTick now \<Rightarrow> Some (tui_tick now t))"

text \<open>Where the restarted program is looked for. Joining a path: a separator only where none is.\<close>

definition path_join :: "string \<Rightarrow> string \<Rightarrow> string" where
  "path_join base rel = (if base = [] \<or> ends_with base (CHR ''/'') then base @ rel else base @ ''/'' @ rel)"

definition home_local_bin :: "string option \<Rightarrow> string" where
  "home_local_bin home =
     path_join (path_join (case home of Some h \<Rightarrow> h | None \<Rightarrow> []) ''.local'') ''bin''"

section \<open>The states mode\<close>

text \<open>The updates printed, one line each, and whether the loop ended by \<open>Quit\<close>.\<close>

fun run_states :: "(nat \<times> update) list \<Rightarrow> model \<Rightarrow> (update list \<times> bool) option" where
  "run_states [] m = Some ([], False)"
| "run_states ((now, u) # us) m =
     (case apply_update u now m of
        None \<Rightarrow> None
      | Some (m', e) \<Rightarrow>
          if e = EffQuit then Some ([u], True)
          else map_option (\<lambda>(printed, q). (u # printed, q)) (run_states us m'))"

end
