(* ===== verification/ExploreProps.thy ===== *)
theory ExploreProps
  imports Explore
begin

text \<open>
  Properties of the explore views: the walk over a trace returns on every state of the aggregator
  and shows exactly the spans below the root that no collapsed span hides; the list of instances
  is the filtered instances in the chosen order; the sort column cycles.
\<close>

section \<open>The trace tree\<close>

text \<open>\<open>shown par coll r d i e\<close>: from root \<open>r\<close> at depth \<open>d\<close>, span \<open>i\<close> is shown at depth \<open>e\<close>.\<close>

inductive shown :: "(u64 \<Rightarrow> u64 option) \<Rightarrow> u64 set \<Rightarrow> u64 \<Rightarrow> nat \<Rightarrow> u64 \<Rightarrow> nat \<Rightarrow> bool"
  for par coll r d where
  shown_root: "shown par coll r d r d"
| shown_kid: "shown par coll r d p e \<Longrightarrow> p \<notin> coll \<Longrightarrow> par i = Some p \<Longrightarrow> shown par coll r d i (Suc e)"

inductive_cases shownE: "shown par coll r d i e"

lemma shown_down: "shown par coll c (Suc d) i e \<Longrightarrow> r \<notin> coll \<Longrightarrow> par c = Some r \<Longrightarrow> shown par coll r d i e"
  by (induction rule: shown.induct) (auto intro: shown.intros)

lemma shown_split: "shown par coll r d i e \<Longrightarrow>
    i = r \<and> e = d \<or> r \<notin> coll \<and> (\<exists>c. par c = Some r \<and> shown par coll c (Suc d) i e)"
  by (induction rule: shown.induct) (blast intro: shown.intros)+

lemma shown_unfold: "shown par coll r d i e \<longleftrightarrow>
    i = r \<and> e = d \<or> r \<notin> coll \<and> (\<exists>c. par c = Some r \<and> shown par coll c (Suc d) i e)"
  using shown_split shown_down shown_root by metis

lemma shown_pos:
  assumes "\<And>i p. par i = Some p \<Longrightarrow> pos p < (pos i :: nat)"
  shows "shown par coll r d i e \<Longrightarrow> pos r \<le> pos i"
  by (induction rule: shown.induct) (auto dest!: assms)

lemma shown_disjoint:
  assumes pos: "\<And>i p. par i = Some p \<Longrightarrow> pos p < (pos i :: nat)"
    and c: "par c = Some p" "par c' = Some p"
  shows "shown par coll c d i e \<Longrightarrow> shown par coll c' d i e' \<Longrightarrow> c = c'"
proof (induction arbitrary: e' rule: shown.induct)
  case shown_root
  have "pos p < pos c'" using pos c by blast
  from shown_root show ?case
  proof (cases rule: shown.cases)
    case (shown_kid q f)
    with c have "pos c' \<le> pos p" using shown_pos [of par pos coll c' d p, OF pos] by auto
    with \<open>pos p < pos c'\<close> show ?thesis by simp
  qed simp
next
  case (shown_kid q f i)
  have "pos p < pos c" using pos c by blast
  with shown_kid.hyps c have "i \<noteq> c'"
    using shown_pos [of par pos coll c d p, OF pos] by auto
  from shown_kid.prems show ?case
  proof (cases rule: shown.cases)
    case shown_root
    with \<open>i \<noteq> c'\<close> show ?thesis by simp
  next
    case (shown_kid p' e'')
    with shown_kid.hyps shown_kid.IH \<open>par i = Some q\<close> show ?thesis by simp
  qed
qed

text \<open>The rows of the trace from a root, as a set.\<close>

definition rows_from :: "(u64 \<Rightarrow> u64 option) \<Rightarrow> (u64 \<rightharpoonup> wire_span) \<Rightarrow> u64 set \<Rightarrow> u64 \<Rightarrow> nat \<Rightarrow> trace_row set" where
  "rows_from par smap coll r d =
     {SpanRow i e ((\<exists>c. par c = Some i) \<or> ws_events (the (smap i)) \<noteq> []) (i \<notin> coll) | i e. shown par coll r d i e} \<union>
     {EventRow i n (Suc e) | i n e. shown par coll r d i e \<and> i \<notin> coll \<and> n < length (ws_events (the (smap i)))}"

lemma rows_from_unfold:
  "rows_from par smap coll r d =
     insert (SpanRow r d ((\<exists>c. par c = Some r) \<or> ws_events (the (smap r)) \<noteq> []) (r \<notin> coll))
       (if r \<in> coll then {} else
          {EventRow r n (Suc d) | n. n < length (ws_events (the (smap r)))} \<union>
          (\<Union>c \<in> {c. par c = Some r}. rows_from par smap coll c (Suc d)))" (is "?L = ?R")
proof -
  have "x \<in> ?L \<longleftrightarrow> x \<in> ?R" for x
    by (subst rows_from_def, subst shown_unfold, subst shown_unfold) (auto simp: rows_from_def)
  then show ?thesis by blast
qed

fun row_id :: "trace_row \<Rightarrow> u64" where
  "row_id (SpanRow i e h x) = i"
| "row_id (EventRow i n e) = i"

lemma rows_from_shown: "x \<in> rows_from par smap coll r d \<Longrightarrow> \<exists>e. shown par coll r d (row_id x) e"
  by (auto simp: rows_from_def)

lemma run_opt_concat:
  "(\<And>x out. x \<in> set xs \<Longrightarrow> F out x = Some (out @ g x)) \<Longrightarrow>
     run_opt F out xs = Some (out @ concat (map g xs))"
  by (induction xs arbitrary: out) auto

lemma distinct_concat_map:
  "distinct xs \<Longrightarrow> (\<And>x. x \<in> set xs \<Longrightarrow> distinct (g x)) \<Longrightarrow>
     (\<And>x y. x \<in> set xs \<Longrightarrow> y \<in> set xs \<Longrightarrow> x \<noteq> y \<Longrightarrow> set (g x) \<inter> set (g y) = {}) \<Longrightarrow>
     distinct (concat (map g xs))"
proof (induction xs)
  case (Cons x xs)
  then have "distinct (concat (map g xs))" by simp
  moreover have "set (g x) \<inter> set (concat (map g xs)) = {}"
    using Cons.prems(1) Cons.prems(3) [of x] by fastforce
  ultimately show ?case using Cons.prems by simp
qed simp

lemma set_items: "set (trace_items kids smap sp) =
   {EventItem n (we_recorded_at_ns (ws_events sp ! n)) | n. n < length (ws_events sp)} \<union>
   (\<lambda>c. ChildItem c (opened_of smap c)) ` set (kids (ws_id sp))"
  by (auto simp: trace_items_def in_set_enumerate_eq image_iff)

lemma distinct_items:
  assumes "distinct (kids (ws_id sp))"
  shows "distinct (trace_items kids smap sp)"
  using assms
  by (auto simp: trace_items_def distinct_map inj_on_def distinct_enumerate in_set_enumerate_eq)

lemma walk_rows:
  assumes pos: "\<And>i p. par i = Some p \<Longrightarrow> pos p < (pos i :: nat)"
    and bound: "\<And>i p. par i = Some p \<Longrightarrow> pos i < N"
    and kids: "\<And>p. distinct (kids p) \<and> set (kids p) = {i. par i = Some p}"
    and smap: "\<And>i s. smap i = Some s \<Longrightarrow> ws_id s = i"
    and dom: "\<And>i p. par i = Some p \<Longrightarrow> smap i \<noteq> None"
  shows "smap i = Some sp \<Longrightarrow> \<exists>rs. (\<forall>out. walk_trace kids smap coll out (sp, d) = Some (out @ rs)) \<and>
      distinct rs \<and> set rs = rows_from par smap coll i d"
proof (induction "N - pos i" arbitrary: i sp d rule: less_induct)
  case less
  have i: "ws_id sp = i" "the (smap i) = sp" using smap less.prems by auto
  let ?sub = "\<lambda>c rs. (\<forall>out. walk_trace kids smap coll out (the (smap c), Suc d) = Some (out @ rs)) \<and>
      distinct rs \<and> set rs = rows_from par smap coll c (Suc d)"
  have "\<exists>rs. ?sub c rs" if "par c = Some i" for c
    using less.hyps [of c "the (smap c)" "Suc d"] pos [OF that] bound [OF that] dom [OF that] by auto
  then obtain g where g: "\<And>c. par c = Some i \<Longrightarrow> ?sub c (g c)" by metis
  define h where "h = (\<lambda>it. case it of EventItem n t \<Rightarrow> [EventRow i n (Suc d)] | ChildItem c t \<Rightarrow> g c)"
  let ?items = "trace_items kids smap sp"
  let ?head = "SpanRow i d (kids i \<noteq> [] \<or> ws_events sp \<noteq> []) (i \<notin> coll)"
  have "kids i = [] \<longleftrightarrow> {c. par c = Some i} = {}" using kids [of i] by (metis set_empty)
  then have head: "(kids i \<noteq> []) = (\<exists>c. par c = Some i)" by auto
  have kid: "par c = Some i" if "ChildItem c t \<in> set ?items" for c t
    using that kids i by (auto simp: set_items)
  have out: "walk_trace kids smap coll out (sp, d) =
      Some (out @ ?head # (if i \<in> coll then [] else concat (map h ?items)))" for out
  proof -
    have "run_opt (\<lambda>out item. case item of
              EventItem n t \<Rightarrow> Some (out @ [EventRow i n (Suc d)])
            | ChildItem c t \<Rightarrow> (case smap c of None \<Rightarrow> Some out
                | Some child \<Rightarrow> walk_trace kids smap coll out (child, Suc d)))
          (out @ [?head]) ?items = Some ((out @ [?head]) @ concat (map h ?items))"
    proof (rule run_opt_concat)
      fix it out' assume it: "it \<in> set ?items"
      show "(case it of
              EventItem n t \<Rightarrow> Some (out' @ [EventRow i n (Suc d)])
            | ChildItem c t \<Rightarrow> (case smap c of None \<Rightarrow> Some out'
                | Some child \<Rightarrow> walk_trace kids smap coll out' (child, Suc d))) = Some (out' @ h it)"
      proof (cases it)
        case (ChildItem c t)
        with it have "par c = Some i" using kid by blast
        with g dom show ?thesis by (fastforce simp: ChildItem h_def)
      qed (simp add: h_def i)
    qed
    then show ?thesis
      by (subst walk_trace.simps) (cases "i \<in> coll"; simp add: Let_def i cong: trace_item.case_cong option.case_cong)
  qed
  have disj: "set (h x) \<inter> set (h y) = {}" if "x \<in> set ?items" "y \<in> set ?items" "x \<noteq> y" for x y
  proof -
    have own: "i \<noteq> row_id r" if "r \<in> set (g c)" "par c = Some i" for r c
      using that g [of c] rows_from_shown [of r par smap coll c "Suc d"] pos [of c i]
        shown_pos [of par pos coll c "Suc d" "row_id r", OF pos] by fastforce
    have sep: "c = c'" if "r \<in> set (g c)" "r \<in> set (g c')" "par c = Some i" "par c' = Some i" for r c c'
      using that g [of c] g [of c'] rows_from_shown [of r par smap coll c "Suc d"]
        rows_from_shown [of r par smap coll c' "Suc d"]
        shown_disjoint [of par pos c i c' coll "Suc d" "row_id r", OF pos] by fastforce
    show ?thesis
    proof (cases x)
      case x: (EventItem n t)
      show ?thesis
      proof (cases y)
        case (EventItem m u)
        with that x show ?thesis by (auto simp: h_def set_items)
      next
        case (ChildItem c u)
        then have "par c = Some i" using that kid by blast
        with own x ChildItem show ?thesis by (fastforce simp: h_def)
      qed
    next
      case x: (ChildItem c t)
      then have c: "par c = Some i" using that kid by blast
      show ?thesis
      proof (cases y)
        case (EventItem m u)
        with own x c show ?thesis by (fastforce simp: h_def)
      next
        case (ChildItem c' u)
        then have "par c' = Some i" using that kid by blast
        moreover have "c \<noteq> c'" using that x ChildItem by (auto simp: set_items)
        ultimately show ?thesis using sep c x ChildItem by (fastforce simp: h_def)
      qed
    qed
  qed
  have rest: "set (concat (map h ?items)) =
      {EventRow i n (Suc d) | n. n < length (ws_events sp)} \<union>
      (\<Union>c \<in> {c. par c = Some i}. rows_from par smap coll c (Suc d))"
    using kids [of i] g by (auto simp: set_items h_def i)
  have "distinct (concat (map h ?items))"
    using kids i g kid disj
    by (intro distinct_concat_map distinct_items) (auto simp: h_def split: trace_item.splits)
  moreover have "?head \<notin> set (concat (map h ?items))"
  proof
    assume "?head \<in> set (concat (map h ?items))"
    then obtain c where c: "par c = Some i" "?head \<in> rows_from par smap coll c (Suc d)"
      unfolding rest by auto
    with rows_from_shown [OF c(2)] obtain e where "shown par coll c (Suc d) i e" by auto
    with shown_pos [of par pos coll c "Suc d" i, OF pos] pos [OF c(1)] show False by fastforce
  qed
  ultimately show ?case
    using out rest by (intro exI [of _ "?head # (if i \<in> coll then [] else concat (map h ?items))"])
      (auto simp: rows_from_unfold [of par smap coll i d] i head)
qed

lemma iter_spans: "map fst (iter_with_stack a) = ring_spans a"
proof -
  have "map fst (List.map_filter (\<lambda>i. map_option (\<lambda>e. (e_span e, bk_stack (e_bucket e))) (by_id a i)) is) =
      List.map_filter (span_by_id a) is" for "is"
    by (induction "is") (auto simp: List.map_filter_simps span_by_id_def split: option.splits)
  then show ?thesis by (simp add: iter_with_stack_def ring_spans_def)
qed

lemma span_by_id_id: "ring_ok a \<Longrightarrow> span_by_id a i = Some s \<Longrightarrow> ws_id s = i"
  by (auto simp: ring_ok_def span_by_id_def)

lemma set_ring_spans:
  assumes "ring_ok a"
  shows "s \<in> set (ring_spans a) \<longleftrightarrow> span_by_id a (ws_id s) = Some s"
proof -
  have "s \<in> set (List.map_filter (span_by_id a) is) \<longleftrightarrow> (\<exists>i \<in> set is. span_by_id a i = Some s)" for "is"
    by (induction "is") (auto simp: List.map_filter_simps split: option.splits)
  moreover have "span_by_id a i = Some s \<Longrightarrow> ws_id s = i \<and> i \<in> set (order a)" for i
    using assms by (auto simp: ring_ok_def span_by_id_def)
  ultimately show ?thesis unfolding ring_spans_def by blast
qed

lemma ring_spans_ids: "ring_ok a \<Longrightarrow> map ws_id (ring_spans a) = order a"
proof -
  assume ok: "ring_ok a"
  have "set is \<subseteq> dom (by_id a) \<Longrightarrow> map ws_id (List.map_filter (span_by_id a) is) = is" for "is"
    using ok by (induction "is") (auto simp: List.map_filter_simps span_by_id_def ring_ok_def split: option.splits)
  with ok show ?thesis by (simp add: ring_spans_def ring_ok_def)
qed

lemma span_map_ring:
  assumes "ring_ok a"
  shows "span_map a = span_by_id a"
proof -
  let ?m = "rev (map (\<lambda>s. (ws_id s, s)) (ring_spans a))"
  have m: "span_map a = map_of ?m"
    by (simp add: span_map_def iter_spans [symmetric] comp_def)
  have "distinct (map ws_id (ring_spans a))"
    using assms by (simp add: ring_spans_ids) (simp add: ring_ok_def)
  then have d: "distinct (map fst ?m)" by (simp add: rev_map [symmetric] comp_def)
  have "span_map a i = Some s \<longleftrightarrow> span_by_id a i = Some s" for i s
  proof -
    have "span_map a i = Some s \<longleftrightarrow> ws_id s = i \<and> s \<in> set (ring_spans a)"
      unfolding m map_of_eq_Some_iff [OF d] by auto
    also have "\<dots> \<longleftrightarrow> ws_id s = i \<and> span_by_id a i = Some s"
      using set_ring_spans [OF assms] by auto
    also have "\<dots> \<longleftrightarrow> span_by_id a i = Some s"
      using assms by (auto simp: ring_ok_def span_by_id_def)
    finally show ?thesis .
  qed
  then show ?thesis by (metis ext not_None_eq)
qed

lemma kids_ring:
  assumes "ring_ok a"
  shows "distinct (children_of a p)" "set (children_of a p) = {i. ring_parent (by_id a) i = Some p}"
proof -
  have eq: "map (ws_id \<circ> fst) (filter (\<lambda>q. ws_parent_id (fst q) = Some p) (iter_with_stack a)) =
      map ws_id (filter (\<lambda>s. ws_parent_id s = Some p) (ring_spans a))"
    by (simp add: iter_spans [symmetric] filter_map comp_def)
  have "distinct (map ws_id (ring_spans a))"
    using assms by (simp add: ring_spans_ids) (simp add: ring_ok_def)
  then have "distinct (map ws_id (filter (\<lambda>s. ws_parent_id s = Some p) (ring_spans a)))"
    by (rule distinct_map_filter)
  then show "distinct (children_of a p)" by (simp only: children_of_def eq distinct_sort)
  show "set (children_of a p) = {i. ring_parent (by_id a) i = Some p}"
  proof (rule set_eqI)
    fix i
    have "i \<in> set (children_of a p) \<longleftrightarrow>
        (\<exists>s. span_by_id a (ws_id s) = Some s \<and> ws_parent_id s = Some p \<and> i = ws_id s)"
      using set_ring_spans [OF assms] by (auto simp: children_of_def eq simp del: map_map)
    also have "\<dots> \<longleftrightarrow> (\<exists>s. span_by_id a i = Some s \<and> ws_parent_id s = Some p)"
      using assms by (metis span_by_id_id)
    finally have "i \<in> set (children_of a p) \<longleftrightarrow> (\<exists>s. span_by_id a i = Some s \<and> ws_parent_id s = Some p)" .
    then show "i \<in> set (children_of a p) \<longleftrightarrow> i \<in> {i. ring_parent (by_id a) i = Some p}"
      by (auto simp: span_by_id_def ring_parent_def split: option.splits)
  qed
qed

definition ring_pos :: "aggregator \<Rightarrow> u64 \<Rightarrow> nat" where
  "ring_pos a i = (if i \<in> set (order a) then Suc (length (takeWhile (\<lambda>j. j \<noteq> i) (order a))) else 0)"

lemma parent_earlier:
  "sorted_wrt (\<lambda>i j. R i \<noteq> Some j) xs \<Longrightarrow> distinct xs \<Longrightarrow> i \<in> set xs \<Longrightarrow> p \<in> set xs \<Longrightarrow> R i = Some p \<Longrightarrow> i \<noteq> p \<Longrightarrow>
     length (takeWhile (\<lambda>j. j \<noteq> p) xs) < length (takeWhile (\<lambda>j. j \<noteq> i) xs)"
  by (induction xs) auto

lemma ring_pos:
  assumes "ring_ok a" "ring_parent (by_id a) i = Some p"
  shows "ring_pos a p < ring_pos a i" "ring_pos a i < length (order a) + 2"
proof -
  have i: "i \<in> set (order a)" using assms by (auto simp: ring_parent_def ring_ok_def split: option.splits)
  have "i \<noteq> p" using assms by (auto simp: ring_ok_def)
  with assms i show "ring_pos a p < ring_pos a i"
    using parent_earlier [of "ring_parent (by_id a)" "order a" i p] by (auto simp: ring_pos_def ring_ok_def)
  show "ring_pos a i < length (order a) + 2"
    using length_takeWhile_le [of "\<lambda>j. j \<noteq> i" "order a"] by (simp add: ring_pos_def)
qed

lemma trace_rows_spec:
  assumes "agg_inv a"
  shows "\<exists>rs. visible_trace_rows a td = Some rs \<and> distinct rs \<and>
    set rs = (if by_id a (td_root_id td) = None then {}
              else rows_from (ring_parent (by_id a)) (span_by_id a) (td_collapsed td) (td_root_id td) 0)"
proof (cases "span_by_id a (td_root_id td)")
  case None
  with assms show ?thesis
    by (auto simp: visible_trace_rows_def span_map_ring agg_inv_def) (simp add: span_by_id_def)
next
  case (Some sp)
  from assms have ok: "ring_ok a" by (simp add: agg_inv_def)
  have kids: "distinct (children_of a p) \<and> set (children_of a p) = {i. ring_parent (by_id a) i = Some p}" for p
    using kids_ring [OF ok] by simp
  have dom: "span_by_id a i \<noteq> None" if "ring_parent (by_id a) i = Some p" for i p
    using that by (auto simp: span_by_id_def ring_parent_def split: option.splits)
  have "\<exists>rs. (\<forall>out. walk_trace (children_of a) (span_by_id a) (td_collapsed td) out (sp, 0) = Some (out @ rs)) \<and>
      distinct rs \<and> set rs = rows_from (ring_parent (by_id a)) (span_by_id a) (td_collapsed td) (td_root_id td) 0"
    by (rule walk_rows [where N = "length (order a) + 2" and pos = "ring_pos a" and par = "ring_parent (by_id a)"])
      (use ring_pos [OF ok] span_by_id_id [OF ok] dom kids Some in blast)+
  then obtain rs where
    "\<forall>out. walk_trace (children_of a) (span_by_id a) (td_collapsed td) out (sp, 0) = Some (out @ rs)"
    "distinct rs" "set rs = rows_from (ring_parent (by_id a)) (span_by_id a) (td_collapsed td) (td_root_id td) 0"
    by blast
  with Some ok show ?thesis
    by (auto simp: visible_trace_rows_def span_map_ring span_by_id_def)
qed

text \<open>C34. The walk over a trace returns on every state the aggregator can reach (no cycle of parent
  links is in the ring), and its rows are, each once, exactly the spans and events below the root
  that no collapsed span hides, every span at its distance from the root; an unknown root has no
  rows.\<close>

theorem trace_rows_return:
  assumes "agg_inv a"
  shows "\<exists>rs. visible_trace_rows a td = Some rs \<and> distinct rs \<and>
    set rs = (if by_id a (td_root_id td) = None then {}
              else rows_from (ring_parent (by_id a)) (span_by_id a) (td_collapsed td) (td_root_id td) 0)"
  by (rule trace_rows_spec [OF assms])

lemma trace_rows_return_witness:
  "\<exists>rs. visible_trace_rows (sample_agg 3)
      \<lparr>td_root_id = 1, td_selected_idx = 0, td_collapsed = {2}, td_explore = explore_new [''a''] None\<rparr> = Some rs \<and>
    distinct rs"
  using trace_rows_return [OF sample_agg_inv, of 3
      "\<lparr>td_root_id = 1, td_selected_idx = 0, td_collapsed = {2}, td_explore = explore_new [''a''] None\<rparr>"]
  by auto

section \<open>The list of instances\<close>

lemma str_contains_append: "str_contains s (q @ q') \<Longrightarrow> str_contains s q"
  by (auto simp: str_contains_iff)

lemma matches_append: "span_matches_query s (q @ q') \<Longrightarrow> span_matches_query s q"
  by (fastforce simp: span_matches_query_def fields_match_def list_ex_iff dest: str_contains_append)

text \<open>\<open>in_order es s t\<close>: \<open>s\<close> may be listed before \<open>t\<close>.\<close>

fun column_le :: "explore_sort_column \<Rightarrow> wire_span \<Rightarrow> wire_span \<Rightarrow> bool" where
  "column_le Timestamp s t = (ws_opened_at_ns s \<le> ws_opened_at_ns t)"
| "column_le Latency s t = (latency_ns s \<le> latency_ns t)"
| "column_le (Field k) s t = (field_string s k \<le> field_string t k)"

definition in_order :: "explore_state \<Rightarrow> wire_span \<Rightarrow> wire_span \<Rightarrow> bool" where
  "in_order es s t = (if es_direction es = Asc then column_le (es_sort es) s t else column_le (es_sort es) t s)"

lemma sort_key_wrt: "sorted_wrt (\<lambda>s t. f s \<le> f t) (sort_key f xs)"
  using sorted_sort_key [of f xs] by (simp add: sorted_map)

lemma sort_spans_wrt: "sorted_wrt (if dir = Asc then column_le col else (\<lambda>s t. column_le col t s)) (sort_spans col dir ss)"
proof -
  have "sorted_wrt (column_le Timestamp) (sort_key ws_opened_at_ns ss)"
    "sorted_wrt (column_le Latency) (sort_key latency_ns ss)"
    "sorted_wrt (column_le (Field k)) (sort_key (\<lambda>s. field_string s k) ss)" for k
    unfolding column_le.simps [abs_def] by (rule sort_key_wrt)+
  then show ?thesis by (cases col; cases dir) (simp_all add: sort_spans_def sorted_wrt_rev sort_key_wrt)
qed

lemma mset_sort_spans: "mset (sort_spans col dir ss) = mset ss"
  by (cases col; cases dir) (simp_all add: sort_spans_def)

text \<open>The list of instances is a permutation of the spans of the locked stack that match the
  query (all of them when it is empty), in the order of the chosen column and direction; typing
  more characters into the search only narrows the list.\<close>

theorem matching_spans_sorted:
  "mset (matching_spans a es) =
     mset (filter (\<lambda>s. effective_query es = [] \<or> span_matches_query s (lowercase (effective_query es)))
       (locked_stack_spans a es)) \<and>
   sorted_wrt (in_order es) (matching_spans a es) \<and>
   set (matching_spans a (es\<lparr>es_search_input := Some (b @ rest)\<rparr>)) \<subseteq>
     set (matching_spans a (es\<lparr>es_search_input := Some b\<rparr>))"
proof (intro conjI)
  have empty: "lowercase q = [] \<longleftrightarrow> q = []" for q by (simp add: lowercase_def)
  show perm: "mset (matching_spans a es) =
     mset (filter (\<lambda>s. effective_query es = [] \<or> span_matches_query s (lowercase (effective_query es)))
       (locked_stack_spans a es))" for es
    by (simp add: matching_spans_def Let_def mset_sort_spans empty)
  show "sorted_wrt (in_order es) (matching_spans a es)"
    using sort_spans_wrt [of "es_direction es" "es_sort es"]
    by (cases "es_direction es") (simp_all add: matching_spans_def Let_def in_order_def [abs_def])
  show "set (matching_spans a (es\<lparr>es_search_input := Some (b @ rest)\<rparr>)) \<subseteq>
     set (matching_spans a (es\<lparr>es_search_input := Some b\<rparr>))"
    using matches_append [of _ "lowercase b" "lowercase rest"]
    by (auto simp: perm [THEN mset_eq_setD] effective_query_def locked_stack_spans_def lowercase_def)
qed

end
