(* ===== verification/ModelProps.thy ===== *)
theory ModelProps
  imports Model ExploreProps
begin

text \<open>
  Properties of the reducer over runs of updates: the part of the model that mirrors the server and
  the prompts refines a small abstract machine; from it follow the confirmation of levels, the two
  presses that quit and the stages of the version prompt. Entering and leaving the explore views
  restores the level.
\<close>

section \<open>Runs\<close>

definition ui_step :: "model \<times> effect list \<Rightarrow> nat \<times> update \<Rightarrow> (model \<times> effect list) option" where
  "ui_step st ev =
     map_option (\<lambda>(m, e). (m, snd st @ [e])) (apply_update (snd ev) (fst ev) (fst st))"

section \<open>The abstract machine of prompts and confirmed settings\<close>

record prompts =
  p_level :: "wire_level_filter option"
  p_chance :: "f64 option"
  p_deadline :: "nat option"
  p_confirm :: "confirm_version_switch option"
  p_version :: "string option"

definition prompts_of :: "model \<Rightarrow> prompts" where
  "prompts_of m = \<lparr>p_level = m_cache_level m, p_chance = m_cache_chance m, p_deadline = m_quit_deadline m,
     p_confirm = m_confirm m, p_version = m_server_version m\<rparr>"

lemma prompts_sel:
  "m_cache_level m = p_level (prompts_of m)" "m_cache_chance m = p_chance (prompts_of m)"
  "m_quit_deadline m = p_deadline (prompts_of m)" "m_confirm m = p_confirm (prompts_of m)"
  "m_server_version m = p_version (prompts_of m)"
  by (simp_all add: prompts_of_def)

definition stage :: "confirm_version_switch option \<Rightarrow> confirm_status option" where
  "stage c = map_option cv_status c"

definition prompts_step :: "update \<Rightarrow> nat \<Rightarrow> prompts \<Rightarrow> prompts" where
  "prompts_step u now p =
     (case u of
        CacheLevelReceived f \<Rightarrow> p\<lparr>p_level := Some f\<rparr>
      | CacheChanceReceived c \<Rightarrow> p\<lparr>p_chance := Some c\<rparr>
      | ServerInfoReceived i \<Rightarrow> p\<lparr>p_version := Some (wsi_version i)\<rparr>
      | Quit \<Rightarrow> p\<lparr>p_deadline := (if \<exists>d. p_deadline p = Some d \<and> now < d then None else Some (now + 2000000000))\<rparr>
      | QuitConfirmDismiss \<Rightarrow> p\<lparr>p_deadline := None\<rparr>
      | BeginConfirmVersionSwitch \<Rightarrow>
          (case (p_confirm p, p_version p) of
             (None, Some v) \<Rightarrow> if v \<noteq> CLIENT_VERSION
               then p\<lparr>p_confirm := Some \<lparr>cv_server_version = v, cv_status = Confirming\<rparr>\<rparr> else p
           | _ \<Rightarrow> p)
      | ConfirmVersionSwitchYes \<Rightarrow>
          p\<lparr>p_confirm := map_option (cv_status_update (\<lambda>s. if s = Confirming then Running else s)) (p_confirm p)\<rparr>
      | ConfirmVersionSwitchNo \<Rightarrow> p\<lparr>p_confirm := (if stage (p_confirm p) = Some Running then p_confirm p else None)\<rparr>
      | InstallerSucceeded \<Rightarrow> p\<lparr>p_confirm := map_option (cv_status_update (\<lambda>_. Restart)) (p_confirm p)\<rparr>
      | InstallerFailed out \<Rightarrow> p\<lparr>p_confirm := map_option (cv_status_update (\<lambda>_. Failed out)) (p_confirm p)\<rparr>
      | _ \<Rightarrow> p)"

named_theorems keeps "arms of the reducer that leave the prompts alone"

lemma with_view_keeps [keeps]:
  "prompts_of (with_graph f m) = prompts_of m"
  "prompts_of (with_explore g m) = prompts_of m"
  "prompts_of (with_trace h m) = prompts_of m"
  by (simp_all add: prompts_of_def with_graph_def with_explore_def with_trace_def split: view_mode.split)

lemma try_graph_keeps: "try_graph f m = Some m' \<Longrightarrow> prompts_of m' = prompts_of m"
  by (auto simp: prompts_of_def try_graph_def split: view_mode.splits)

lemma set_view_keeps [keeps]: "prompts_of (m\<lparr>m_view := v\<rparr>) = prompts_of m"
  by (simp add: prompts_of_def)

lemma table_keeps [keeps]:
  "prompts_of (set_current_selected i m) = prompts_of m"
  "prompts_of (m\<lparr>m_expanded := x\<rparr>) = prompts_of m"
  "prompts_of (m\<lparr>m_selected := n\<rparr>) = prompts_of m"
  "prompts_of (m\<lparr>m_agg := a\<rparr>) = prompts_of m"
  "prompts_of (m\<lparr>m_rate := r\<rparr>) = prompts_of m"
  "prompts_of (m\<lparr>m_chance_input := b\<rparr>) = prompts_of m"
  by (simp_all add: prompts_of_def set_current_selected_def split: focus.split)

lemma select_keeps [keeps]:
  "prompts_of (select_up m) = prompts_of m" "prompts_of (select_down m) = prompts_of m"
  by (simp_all add: select_up_def select_down_def Let_def keeps)

lemma expand_keeps [keeps]:
  "prompts_of (expand_selected m) = prompts_of m" "prompts_of (expand_all_selected m) = prompts_of m"
  by (simp_all add: expand_selected_def expand_all_selected_def Let_def keeps split: option.split)

lemma collapse_keeps [keeps]: "prompts_of (collapse_selected m) = prompts_of m"
  by (simp add: collapse_selected_def retain_outside_def Let_def keeps split: option.split)

lemma switch_focus_keeps [keeps]: "prompts_of (switch_focus m) = prompts_of m"
  by (simp add: switch_focus_def prompts_of_def split: focus.split)

lemma chance_keeps [keeps]:
  "prompts_of (chance_input_update u m) = prompts_of m"
  "prompts_of (fst (chance_input_commit m)) = prompts_of m"
  by (simp_all add: chance_input_update_def chance_input_commit_def keeps split: update.split option.split)

lemma graph_inputs_keep [keeps]:
  "prompts_of (agg_input_update u m) = prompts_of m"
  "prompts_of (window_input_update u m) = prompts_of m"
  "prompts_of (lookback_input_update u m) = prompts_of m"
  "prompts_of (set_graph_agg mode m) = prompts_of m"
  by (simp_all add: agg_input_update_def window_input_update_def lookback_input_update_def set_graph_agg_def
      keeps split: update.split)

lemma explore_keeps [keeps]:
  "prompts_of (fst (enter_explore m)) = prompts_of m"
  "prompts_of (fst (exit_explore m)) = prompts_of m"
  "prompts_of (fst (enter_table m)) = prompts_of m"
  "prompts_of (explore_open_trace m) = prompts_of m"
  "prompts_of (exit_trace_detail m) = prompts_of m"
  by (simp_all add: enter_explore_def exit_explore_def enter_table_def explore_open_trace_def
      exit_trace_detail_def Let_def keeps split: view_mode.split option.split)

lemma fallible_keeps:
  "span_received sp now m = Some m' \<Longrightarrow> prompts_of m' = prompts_of m"
  "toggle_split_selected m = Some m' \<Longrightarrow> prompts_of m' = prompts_of m"
  "toggle_graph m = Some m' \<Longrightarrow> prompts_of m' = prompts_of m"
  "toggle_graph_metric m = Some m' \<Longrightarrow> prompts_of m' = prompts_of m"
  "window_input_commit m = Some m' \<Longrightarrow> prompts_of m' = prompts_of m"
  "trace_select_down m = Some m' \<Longrightarrow> prompts_of m' = prompts_of m"
  "trace_fold f m = Some m' \<Longrightarrow> prompts_of m' = prompts_of m"
  "enter_graph m = Some (m', e) \<Longrightarrow> prompts_of m' = prompts_of m"
proof -
  show "span_received sp now m = Some m' \<Longrightarrow> prompts_of m' = prompts_of m"
    by (auto simp: span_received_def keeps dest!: try_graph_keeps split: option.splits)
  show "toggle_split_selected m = Some m' \<Longrightarrow> prompts_of m' = prompts_of m"
    by (auto simp: toggle_split_selected_def keeps split: option.splits if_splits)
  show "toggle_graph m = Some m' \<Longrightarrow> prompts_of m' = prompts_of m"
    by (auto simp: toggle_graph_def Let_def keeps dest!: try_graph_keeps)
  show "toggle_graph_metric m = Some m' \<Longrightarrow> prompts_of m' = prompts_of m"
    by (auto simp: toggle_graph_metric_def dest!: try_graph_keeps)
  show "window_input_commit m = Some m' \<Longrightarrow> prompts_of m' = prompts_of m"
    by (auto simp: window_input_commit_def dest!: try_graph_keeps)
  show "trace_select_down m = Some m' \<Longrightarrow> prompts_of m' = prompts_of m"
    by (auto simp: trace_select_down_def keeps split: view_mode.splits)
  show "trace_fold f m = Some m' \<Longrightarrow> prompts_of m' = prompts_of m"
    by (auto simp: trace_fold_def keeps split: option.splits)
  show "enter_graph m = Some (m', e) \<Longrightarrow> prompts_of m' = prompts_of m"
    by (auto simp: enter_graph_def Let_def keeps split: view_mode.splits option.splits)
qed

lemmas wrap_defs = pure_def try_pure_def

lemma server_update_prompts:
  "prompts_of (server_update u m) =
     (case u of CacheLevelReceived f \<Rightarrow> (prompts_of m)\<lparr>p_level := Some f\<rparr>
      | CacheChanceReceived c \<Rightarrow> (prompts_of m)\<lparr>p_chance := Some c\<rparr>
      | ServerInfoReceived i \<Rightarrow> (prompts_of m)\<lparr>p_version := Some (wsi_version i)\<rparr>
      | _ \<Rightarrow> prompts_of m)"
  by (simp add: server_update_def prompts_of_def split: update.split)

lemma quit_prompts:
  "prompts_of (fst (quit_pressed now m)) = prompts_step Quit now (prompts_of m)"
  "prompts_of (m\<lparr>m_quit_deadline := None\<rparr>) = prompts_step QuitConfirmDismiss now (prompts_of m)"
  by (simp_all add: quit_pressed_def prompts_step_def prompts_of_def split: option.split)

lemma confirm_prompts:
  "prompts_of (begin_confirm m) = prompts_step BeginConfirmVersionSwitch now (prompts_of m)"
  "prompts_of (fst (confirm_yes m)) = prompts_step ConfirmVersionSwitchYes now (prompts_of m)"
  "prompts_of (confirm_no m) = prompts_step ConfirmVersionSwitchNo now (prompts_of m)"
  "prompts_of (set_confirm_status Restart m) = prompts_step InstallerSucceeded now (prompts_of m)"
  "prompts_of (set_confirm_status (Failed out) m) = prompts_step (InstallerFailed out) now (prompts_of m)"
proof -
  show "prompts_of (begin_confirm m) = prompts_step BeginConfirmVersionSwitch now (prompts_of m)"
    by (simp add: begin_confirm_def prompts_step_def prompts_of_def split: option.split)
  show "prompts_of (fst (confirm_yes m)) = prompts_step ConfirmVersionSwitchYes now (prompts_of m)"
    by (simp add: confirm_yes_def prompts_step_def prompts_of_def split: option.split confirm_status.split)
  show "prompts_of (confirm_no m) = prompts_step ConfirmVersionSwitchNo now (prompts_of m)"
    by (simp add: confirm_no_def prompts_step_def prompts_of_def stage_def split: option.split)
  show "prompts_of (set_confirm_status Restart m) = prompts_step InstallerSucceeded now (prompts_of m)"
    by (simp add: set_confirm_status_def prompts_step_def prompts_of_def)
  show "prompts_of (set_confirm_status (Failed out) m) = prompts_step (InstallerFailed out) now (prompts_of m)"
    by (simp add: set_confirm_status_def prompts_step_def prompts_of_def)
qed

lemma prompts_refine:
  assumes "apply_update u now m = Some (m', e)"
  shows "prompts_of m' = prompts_step u now (prompts_of m)"
proof -
  note pairs = chance_keeps(2) [of m] explore_keeps(1-3) [of m] quit_prompts(1) [of now m] confirm_prompts(2) [where m = m and now = now]
  note plain = quit_prompts(2) confirm_prompts(1,3-5)
  show ?thesis
  proof (cases "u \<in> {Quit, QuitConfirmDismiss, BeginConfirmVersionSwitch, ConfirmVersionSwitchYes,
      ConfirmVersionSwitchNo, InstallerSucceeded} \<or> (\<exists>out. u = InstallerFailed out)")
    case True
    with assms pairs plain show ?thesis by (auto simp: apply_update_def wrap_defs)
  next
    case False
    with assms pairs show ?thesis
      by (cases u) (auto simp: apply_update_def wrap_defs server_update_prompts keeps prompts_step_def
          dest: fallible_keeps try_graph_keeps)
  qed
qed

lemma apply_effect:
  assumes "apply_update u now m = Some (m', e)"
  shows "e = EffQuit \<longleftrightarrow> u = Quit \<and> (\<exists>d. p_deadline (prompts_of m) = Some d \<and> now < d)"
    and "e = EffRestart \<longleftrightarrow> u = ConfirmVersionSwitchYes \<and> stage (p_confirm (prompts_of m)) = Some Restart"
    and "(\<exists>v. e = RunUpdateInstaller v) \<longleftrightarrow>
      u = ConfirmVersionSwitchYes \<and> stage (p_confirm (prompts_of m)) = Some Confirming"
    and "e = RunUpdateInstaller v \<Longrightarrow> v = map_option cv_server_version (p_confirm (prompts_of m))"
    and "e = RequestSetChance c \<Longrightarrow> u = ChanceInputCommit \<and> f64_is_finite c \<and> f64_le (Fin 0) c \<and> f64_le c (Fin 100)"
proof -
  have quiet: "snd (chance_input_commit m) \<in> {NoEffect} \<union> range RequestSetChance"
    "snd (enter_explore m) \<in> {NoEffect} \<union> range RequestSetLevel"
    "snd (exit_explore m) \<in> {NoEffect} \<union> range RequestSetLevel"
    "snd (enter_table m) \<in> {NoEffect} \<union> range RequestSetLevel"
    "\<And>m' e. enter_graph m = Some (m', e) \<Longrightarrow> e \<in> {NoEffect} \<union> range RequestSetLevel"
    by (auto simp: chance_input_commit_def enter_explore_def exit_explore_def enter_table_def enter_graph_def Let_def
        split: option.splits view_mode.splits)
  have chance: "snd (chance_input_commit m) = RequestSetChance c \<Longrightarrow> f64_is_finite c \<and> f64_le (Fin 0) c \<and> f64_le c (Fin 100)"
    by (auto simp: chance_input_commit_def split: option.splits if_splits)
  have yes: "snd (confirm_yes m) = (case m_confirm m of None \<Rightarrow> NoEffect | Some c \<Rightarrow>
      if cv_status c = Confirming then RunUpdateInstaller (Some (cv_server_version c))
      else if cv_status c = Restart then EffRestart else NoEffect)"
    by (auto simp: confirm_yes_def split: option.splits confirm_status.splits)
  have quit: "snd (quit_pressed now m) = (if \<exists>d. m_quit_deadline m = Some d \<and> now < d then EffQuit else NoEffect)"
    by (auto simp: quit_pressed_def split: option.splits)
  note defs = apply_update_def wrap_defs prompts_of_def stage_def
  show "e = EffQuit \<longleftrightarrow> u = Quit \<and> (\<exists>d. p_deadline (prompts_of m) = Some d \<and> now < d)"
    using assms quiet quit yes by (cases u) (auto simp: defs split: option.splits if_splits)
  show "e = EffRestart \<longleftrightarrow> u = ConfirmVersionSwitchYes \<and> stage (p_confirm (prompts_of m)) = Some Restart"
    using assms quiet quit yes by (cases u) (auto simp: defs split: option.splits if_splits)
  show "(\<exists>v. e = RunUpdateInstaller v) \<longleftrightarrow>
      u = ConfirmVersionSwitchYes \<and> stage (p_confirm (prompts_of m)) = Some Confirming"
    using assms quiet quit yes by (cases u) (auto simp: defs split: option.splits if_splits)
  show "v = map_option cv_server_version (p_confirm (prompts_of m))" if "e = RunUpdateInstaller v"
    using that assms quiet quit yes by (cases u) (auto simp: defs split: option.splits if_splits)
  show "u = ChanceInputCommit \<and> f64_is_finite c \<and> f64_le (Fin 0) c \<and> f64_le c (Fin 100)" if "e = RequestSetChance c"
    using that assms quiet quit yes chance by (cases u) (auto simp: defs split: option.splits if_splits)
qed

section \<open>Runs refine the abstract machine\<close>

abbreviation ui_run :: "model \<Rightarrow> (nat \<times> update) list \<Rightarrow> (model \<times> effect list) option" where
  "ui_run m evs \<equiv> run_opt ui_step (m, []) evs"

definition prompts_run :: "(nat \<times> update) list \<Rightarrow> prompts \<Rightarrow> prompts" where
  "prompts_run evs p = fold (\<lambda>ev. prompts_step (snd ev) (fst ev)) evs p"

lemma run_prompts:
  "run_opt ui_step (m, es) evs = Some (m', es') \<Longrightarrow> prompts_of m' = prompts_run evs (prompts_of m)"
  by (induction evs arbitrary: m es)
    (auto simp: prompts_run_def ui_step_def dest: prompts_refine split: option.splits)

lemma run_snoc:
  assumes "ui_run m (evs @ [(now, u)]) = Some (m', es @ [e])"
  shows "\<exists>m1. ui_run m evs = Some (m1, es) \<and> apply_update u now m1 = Some (m', e)"
  using assms by (auto simp: run_opt_append ui_step_def split: option.splits)

lemma run_effects:
  assumes "ui_run m evs = Some (m', es)"
    and "\<And>u now m m' e. apply_update u now m = Some (m', e) \<Longrightarrow> P e"
  shows "\<forall>e \<in> set es. P e"
proof -
  have "run_opt ui_step st evs = Some (m', es) \<Longrightarrow> \<forall>e \<in> set (snd st). P e \<Longrightarrow> \<forall>e \<in> set es. P e" for st
  proof (induction evs arbitrary: st)
    case (Cons ev evs)
    from Cons.prems(1) obtain st1 where "ui_step st ev = Some st1" "run_opt ui_step st1 evs = Some (m', es)"
      by (auto split: option.splits)
    then obtain m1 e where step: "apply_update (snd ev) (fst ev) (fst st) = Some (m1, e)"
      and rest: "run_opt ui_step (m1, snd st @ [e]) evs = Some (m', es)"
      by (auto simp: ui_step_def)
    have "\<forall>x \<in> set (snd (m1, snd st @ [e])). P x" using Cons.prems(2) assms(2) [OF step] by auto
    then show ?case by (rule Cons.IH [OF rest])
  qed simp
  from this [OF assms(1)] show ?thesis by simp
qed

definition new_prompts :: prompts where
  "new_prompts = prompts_of (model_new 0)"

lemma new_prompts: "prompts_of (model_new n) = new_prompts"
  by (simp add: new_prompts_def prompts_of_def model_new_def)

definition last_of :: "('a \<Rightarrow> 'b option) \<Rightarrow> 'a list \<Rightarrow> 'b option" where
  "last_of f xs = fold (\<lambda>x acc. case f x of None \<Rightarrow> acc | Some y \<Rightarrow> Some y) xs None"

lemma last_of_snoc [simp]:
  "last_of f [] = None" "last_of f (xs @ [x]) = (case f x of None \<Rightarrow> last_of f xs | Some y \<Rightarrow> Some y)"
  by (simp_all add: last_of_def split: option.split)

definition level_news :: "nat \<times> update \<Rightarrow> wire_level_filter option" where
  "level_news ev = (case snd ev of CacheLevelReceived f \<Rightarrow> Some f | _ \<Rightarrow> None)"

definition chance_news :: "nat \<times> update \<Rightarrow> f64 option" where
  "chance_news ev = (case snd ev of CacheChanceReceived c \<Rightarrow> Some c | _ \<Rightarrow> None)"

definition version_news :: "nat \<times> update \<Rightarrow> string option" where
  "version_news ev = (case snd ev of ServerInfoReceived i \<Rightarrow> Some (wsi_version i) | _ \<Rightarrow> None)"

lemma prompts_run_snoc [simp]:
  "prompts_run [] p = p" "prompts_run (evs @ [(now, u)]) p = prompts_step u now (prompts_run evs p)"
  by (simp_all add: prompts_run_def)

lemma step_settings:
  "p_level (prompts_step u now p) = (case level_news (now, u) of None \<Rightarrow> p_level p | Some f \<Rightarrow> Some f)"
  "p_chance (prompts_step u now p) = (case chance_news (now, u) of None \<Rightarrow> p_chance p | Some f \<Rightarrow> Some f)"
  "p_version (prompts_step u now p) = (case version_news (now, u) of None \<Rightarrow> p_version p | Some f \<Rightarrow> Some f)"
  by (simp_all add: prompts_step_def level_news_def chance_news_def version_news_def split: update.split option.split)

lemma settings_spec:
  assumes "ui_run (model_new n) evs = Some (m, es)"
  shows "m_cache_level m = last_of level_news evs \<and> m_cache_chance m = last_of chance_news evs \<and>
    m_server_version m = last_of version_news evs \<and>
    {e \<in> set es. \<exists>c. e = RequestSetChance c} \<subseteq>
      RequestSetChance ` {c. f64_is_finite c \<and> f64_le (Fin 0) c \<and> f64_le c (Fin 100)}"
proof -
  have "p_level (prompts_run evs new_prompts) = last_of level_news evs \<and>
      p_chance (prompts_run evs new_prompts) = last_of chance_news evs \<and>
      p_version (prompts_run evs new_prompts) = last_of version_news evs"
  proof (induction evs rule: rev_induct)
    case Nil
    show ?case by (simp add: new_prompts_def prompts_of_def model_new_def)
  next
    case (snoc ev evs)
    then show ?case by (cases ev) (simp add: step_settings split: option.split)
  qed
  moreover have "prompts_of m = prompts_run evs new_prompts"
    using run_prompts [OF assms] by (simp add: new_prompts)
  moreover have "\<forall>e \<in> set es. \<forall>c. e = RequestSetChance c \<longrightarrow> f64_is_finite c \<and> f64_le (Fin 0) c \<and> f64_le c (Fin 100)"
    using apply_effect(5) by (intro run_effects [OF assms]) blast
  ultimately show ?thesis by (auto simp: prompts_sel)
qed

text \<open>The level, the chance and the server version the model shows are, after any run of updates,
  the last ones the server sent (unknown before its first message): no key press, no request and no
  other update changes them, and a chance is requested of the server only when it lies in [0, 100].\<close>

theorem settings_mirror_server:
  assumes "ui_run (model_new n) evs = Some (m, es)"
  shows "m_cache_level m = last_of level_news evs \<and> m_cache_chance m = last_of chance_news evs \<and>
    m_server_version m = last_of version_news evs \<and>
    {e \<in> set es. \<exists>c. e = RequestSetChance c} \<subseteq>
      RequestSetChance ` {c. f64_is_finite c \<and> f64_le (Fin 0) c \<and> f64_le c (Fin 100)}"
  by (rule settings_spec [OF assms])

lemma settings_mirror_server_witness:
  "m_cache_level (fst (the (ui_run (model_new 4) [(0, CacheLevelReceived LfInfo), (1, RequestCacheLevel LfOff)]))) = Some LfInfo"
proof -
  have "ui_run (model_new 4) [(0, CacheLevelReceived LfInfo), (1, RequestCacheLevel LfOff)] =
      Some ((model_new 4)\<lparr>m_cache_level := Some LfInfo\<rparr>, [NoEffect, RequestSetLevel LfOff])" (is "?run = Some (?m, _)")
    by (simp add: ui_step_def apply_update_def wrap_defs server_update_def)
  from settings_mirror_server [OF this] this show ?thesis
    by (simp add: last_of_def level_news_def)
qed

section \<open>Quitting\<close>

definition quit_free :: "nat \<times> update \<Rightarrow> bool" where
  "quit_free ev \<longleftrightarrow> snd ev \<noteq> Quit \<and> snd ev \<noteq> QuitConfirmDismiss"

lemma deadline_armed:
  "p_deadline (prompts_run evs new_prompts) = Some d \<Longrightarrow>
     \<exists>pre t mid. evs = pre @ (t, Quit) # mid \<and> d = t + 2000000000 \<and> list_all quit_free mid"
proof (induction evs arbitrary: d rule: rev_induct)
  case Nil
  then show ?case by (simp add: new_prompts_def prompts_of_def model_new_def)
next
  case (snoc ev evs)
  obtain now u where ev: "ev = (now, u)" by (cases ev)
  show ?case
  proof (cases "u = Quit")
    case True
    with snoc.prems have "d = now + 2000000000" by (simp add: ev prompts_step_def split: if_splits)
    with True show ?thesis by - (rule exI [of _ evs], rule exI [of _ now], rule exI [of _ "[]"], simp add: ev)
  next
    case False
    with snoc.prems have "u \<noteq> QuitConfirmDismiss" by (auto simp: ev prompts_step_def)
    with False have "p_deadline (prompts_step u now p) = p_deadline p" for p
      by (simp add: prompts_step_def split: update.split option.split)
    with snoc.prems have "p_deadline (prompts_run evs new_prompts) = Some d" by (simp add: ev)
    with snoc.IH obtain pre t mid where "evs = pre @ (t, Quit) # mid" "d = t + 2000000000" "list_all quit_free mid"
      by blast
    with False \<open>u \<noteq> QuitConfirmDismiss\<close> show ?thesis
      by - (rule exI [of _ pre], rule exI [of _ t], rule exI [of _ "mid @ [ev]"], simp add: ev quit_free_def list_all_iff)
  qed
qed

text \<open>C17. The program never quits on one key press: in every run from the start, the effect \<open>Quit\<close> is
  the answer to a \<open>Quit\<close> update that follows an earlier one by less than two seconds, with no other
  \<open>Quit\<close> and no dismissal between the two.\<close>

theorem quit_needs_two_presses:
  assumes "ui_run (model_new n) (evs @ [(now, u)]) = Some (m, es @ [EffQuit])"
  shows "u = Quit \<and> (\<exists>pre t mid. evs = pre @ (t, Quit) # mid \<and> now < t + 2000000000 \<and> list_all quit_free mid)"
proof -
  obtain m1 where m1: "ui_run (model_new n) evs = Some (m1, es)" "apply_update u now m1 = Some (m, EffQuit)"
    using run_snoc [OF assms] by blast
  with apply_effect(1) [OF m1(2)] obtain d where d: "u = Quit" "p_deadline (prompts_of m1) = Some d" "now < d" by auto
  moreover have "prompts_of m1 = prompts_run evs new_prompts" using run_prompts [OF m1(1)] by (simp add: new_prompts)
  ultimately show ?thesis using deadline_armed [of evs d] by auto
qed

lemma quit_needs_two_presses_witness:
  "\<exists>pre t mid. [(5, Quit), (7, SwitchFocus)] = pre @ (t, Quit) # mid \<and> 9 < t + 2000000000 \<and> list_all quit_free mid"
proof -
  have "ui_run (model_new 4) ([(5, Quit), (7, SwitchFocus)] @ [(9, Quit)]) =
      Some ((model_new 4)\<lparr>m_focus := Details\<rparr>, [NoEffect, NoEffect] @ [EffQuit])"
    by (simp add: ui_step_def apply_update_def wrap_defs quit_pressed_def switch_focus_def model_new_def)
  from quit_needs_two_presses [OF this] show ?thesis by simp
qed

section \<open>Switching versions\<close>

lemma confirm_facts:
  "p_confirm (prompts_run evs new_prompts) = Some c \<Longrightarrow>
     cv_server_version c \<noteq> CLIENT_VERSION \<and> Some (cv_server_version c) \<in> version_news ` set evs"
proof (induction evs arbitrary: c rule: rev_induct)
  case Nil
  then show ?case by (simp add: new_prompts_def prompts_of_def model_new_def)
next
  case (snoc ev evs)
  obtain now u where ev: "ev = (now, u)" by (cases ev)
  let ?p = "prompts_run evs new_prompts"
  have news: "p_version (prompts_run xs new_prompts) = Some v \<Longrightarrow> Some v \<in> version_news ` set xs" for v xs
  proof (induction xs rule: rev_induct)
    case Nil
    then show ?case by (simp add: new_prompts_def prompts_of_def model_new_def)
  next
    case (snoc x xs)
    then show ?case by (cases x) (auto simp: step_settings split: option.splits)
  qed
  have "(\<exists>c'. p_confirm ?p = Some c' \<and> cv_server_version c = cv_server_version c') \<or>
      (p_version ?p = Some (cv_server_version c) \<and> cv_server_version c \<noteq> CLIENT_VERSION)"
    using snoc.prems by (auto simp: ev prompts_step_def split: update.splits option.splits if_splits)
  with snoc.IH news [of evs] show ?case by auto
qed

lemma restart_stage:
  "stage (p_confirm (prompts_run evs new_prompts)) = Some Restart \<Longrightarrow>
     \<exists>pre t mid. evs = pre @ (t, InstallerSucceeded) # mid \<and>
       list_all (\<lambda>ev. snd ev \<noteq> ConfirmVersionSwitchNo) mid"
proof (induction evs rule: rev_induct)
  case Nil
  then show ?case by (simp add: new_prompts_def prompts_of_def model_new_def stage_def)
next
  case (snoc ev evs)
  obtain now u where ev: "ev = (now, u)" by (cases ev)
  show ?case
  proof (cases "u = InstallerSucceeded")
    case True
    then show ?thesis by - (rule exI [of _ evs], rule exI [of _ now], rule exI [of _ "[]"], simp add: ev)
  next
    case False
    with snoc.prems have "stage (p_confirm (prompts_run evs new_prompts)) = Some Restart \<and> u \<noteq> ConfirmVersionSwitchNo"
      by (auto simp: ev prompts_step_def stage_def split: update.splits option.splits if_splits)
    with snoc.IH obtain pre t mid where "evs = pre @ (t, InstallerSucceeded) # mid"
      "list_all (\<lambda>ev. snd ev \<noteq> ConfirmVersionSwitchNo) mid" "u \<noteq> ConfirmVersionSwitchNo" by blast
    then show ?thesis by - (rule exI [of _ pre], rule exI [of _ t], rule exI [of _ "mid @ [ev]"], simp add: ev)
  qed
qed

text \<open>C16. The stages of the version prompt: the installer is started only for a version that the
  server announced and that differs from the client's; the process restarts only after a successful
  installation whose prompt was not dismissed since; and a prompt whose installer runs leaves that
  stage only through the installer's result.\<close>

theorem version_prompt_stages:
  assumes "ui_run (model_new n) (evs @ [(now, u)]) = Some (m, es @ [e])"
  shows "(case e of
      RunUpdateInstaller v \<Rightarrow> (case v of None \<Rightarrow> False | Some sv \<Rightarrow> sv \<noteq> CLIENT_VERSION \<and> Some sv \<in> version_news ` set evs)
    | EffRestart \<Rightarrow> u = ConfirmVersionSwitchYes \<and> (\<exists>pre t mid. evs = pre @ (t, InstallerSucceeded) # mid \<and>
         list_all (\<lambda>ev. snd ev \<noteq> ConfirmVersionSwitchNo) mid)
    | _ \<Rightarrow> True) \<and>
    (stage (p_confirm (prompts_run evs new_prompts)) = Some Running \<longrightarrow>
       stage (m_confirm m) = Some Running \<or> u = InstallerSucceeded \<or> (\<exists>out. u = InstallerFailed out))"
proof -
  obtain m1 where m1: "ui_run (model_new n) evs = Some (m1, es)" "apply_update u now m1 = Some (m, e)"
    using run_snoc [OF assms] by blast
  have p: "prompts_of m1 = prompts_run evs new_prompts" using run_prompts [OF m1(1)] by (simp add: new_prompts)
  have "m_confirm m = p_confirm (prompts_step u now (prompts_of m1))"
    using prompts_refine [OF m1(2)] by (simp add: prompts_sel)
  then have run: "stage (p_confirm (prompts_run evs new_prompts)) = Some Running \<longrightarrow>
      stage (m_confirm m) = Some Running \<or> u = InstallerSucceeded \<or> (\<exists>out. u = InstallerFailed out)"
    by (auto simp: p prompts_step_def stage_def split: update.splits option.splits)
  have "case e of
      RunUpdateInstaller v \<Rightarrow> (case v of None \<Rightarrow> False | Some sv \<Rightarrow> sv \<noteq> CLIENT_VERSION \<and> Some sv \<in> version_news ` set evs)
    | EffRestart \<Rightarrow> u = ConfirmVersionSwitchYes \<and> (\<exists>pre t mid. evs = pre @ (t, InstallerSucceeded) # mid \<and>
         list_all (\<lambda>ev. snd ev \<noteq> ConfirmVersionSwitchNo) mid)
    | _ \<Rightarrow> True"
  proof (cases e)
    case (RunUpdateInstaller v)
    with apply_effect(3,4) [OF m1(2)] obtain c where "p_confirm (prompts_of m1) = Some c" "v = Some (cv_server_version c)"
      by (auto simp: stage_def)
    with RunUpdateInstaller confirm_facts [of evs c] show ?thesis by (simp add: p)
  next
    case EffRestart
    with apply_effect(2) [OF m1(2)] restart_stage [of evs] show ?thesis by (simp add: p)
  qed simp_all
  with run show ?thesis by blast
qed

lemma version_prompt_stages_witness:
  "Some ''9'' \<in> version_news ` set [(0, ServerInfoReceived \<lparr>wsi_version = ''9''\<rparr>), (1, BeginConfirmVersionSwitch)]"
proof -
  have "ui_run (model_new 4) ([(0, ServerInfoReceived \<lparr>wsi_version = ''9''\<rparr>), (1, BeginConfirmVersionSwitch)] @
        [(2, ConfirmVersionSwitchYes)]) =
      Some ((model_new 4)\<lparr>m_server_version := Some ''9'',
          m_confirm := Some \<lparr>cv_server_version = ''9'', cv_status = Running\<rparr>\<rparr>,
        [NoEffect, NoEffect] @ [RunUpdateInstaller (Some ''9'')])"
    by (simp add: ui_step_def apply_update_def wrap_defs server_update_def begin_confirm_def confirm_yes_def
        model_new_def CLIENT_VERSION_def)
  from version_prompt_stages [OF this] show ?thesis by (simp add: version_news_def)
qed

end
