(* ===== verification/ModelViews.thy ===== *)
theory ModelViews
  imports ModelProps
begin

text \<open>
  The views of the model: the explore views give back the level they found, the reducer returns and
  keeps its invariant in every view, and its input boxes hold only what they accept.
\<close>

section \<open>Browsing\<close>

fun explore_of :: "view_mode \<Rightarrow> explore_state option" where
  "explore_of (ExploreView es) = Some es"
| "explore_of (TraceView td) = Some (td_explore td)"
| "explore_of _ = None"

definition saved_level :: "view_mode \<Rightarrow> wire_level_filter option option" where
  "saved_level v = map_option es_restore_level (explore_of v)"

definition restoring :: "wire_level_filter option \<Rightarrow> effect" where
  "restoring l = RequestSetLevel (case l of None \<Rightarrow> LfTrace | Some f \<Rightarrow> f)"

text \<open>\<open>browsing m m'\<close>: a run of updates that never leaves the explore views.\<close>

inductive browsing :: "model \<Rightarrow> model \<Rightarrow> bool" for m where
  browse_start: "explore_of (m_view m) \<noteq> None \<Longrightarrow> browsing m m"
| browse_step: "browsing m m1 \<Longrightarrow> apply_update u now m1 = Some (m2, e) \<Longrightarrow> explore_of (m_view m2) \<noteq> None \<Longrightarrow>
    browsing m m2"

named_theorems view_keeps "arms of the reducer that leave the level saved by the views alone"

lemma saved_simps [simp]:
  "saved_level TableView = None" "saved_level (GraphView gs) = None"
  "saved_level (ExploreView es) = Some (es_restore_level es)"
  "saved_level (TraceView td) = Some (es_restore_level (td_explore td))"
  by (simp_all add: saved_level_def)

lemma saved_None: "explore_of v = None \<longleftrightarrow> saved_level v = None"
  by (simp add: saved_level_def)

lemma cycle_sort_restore: "es_restore_level (cycle_sort fs d es) = es_restore_level es"
  by (simp add: cycle_sort_def Let_def)

lemma with_view_saved [view_keeps]:
  "saved_level (m_view (with_graph f m)) = saved_level (m_view m)"
  "saved_level (m_view (with_explore (es_selected_update n) m)) = saved_level (m_view m)"
  "saved_level (m_view (with_explore (es_direction_update d) m)) = saved_level (m_view m)"
  "saved_level (m_view (with_explore (explore_select_down a) m)) = saved_level (m_view m)"
  "saved_level (m_view (with_explore (explore_sort b a) m)) = saved_level (m_view m)"
  "saved_level (m_view (with_trace (td_selected_idx_update n) m)) = saved_level (m_view m)"
  "saved_level (m_view (with_trace (td_collapsed_update c) m)) = saved_level (m_view m)"
  by (simp_all add: with_graph_def with_explore_def with_trace_def explore_select_down_def explore_sort_def
      cycle_sort_left_def cycle_sort_right_def cycle_sort_restore Let_def split: view_mode.split)

lemma search_saved [view_keeps]:
  "saved_level (m_view (with_explore (explore_search u) m)) = saved_level (m_view m)"
  by (simp add: with_explore_def explore_search_def split: view_mode.split update.split option.split)

lemma try_graph_saved: "try_graph f m = Some m' \<Longrightarrow> saved_level (m_view m') = saved_level (m_view m)"
  by (auto simp: try_graph_def split: view_mode.splits)

lemma table_view [view_keeps]:
  "m_view (set_current_selected i m) = m_view m"
  "m_view (select_up m) = m_view m" "m_view (select_down m) = m_view m"
  "m_view (expand_selected m) = m_view m" "m_view (expand_all_selected m) = m_view m"
  "m_view (collapse_selected m) = m_view m" "m_view (switch_focus m) = m_view m"
  "m_view (server_update u m) = m_view m"
  "m_view (chance_input_update u m) = m_view m" "m_view (fst (chance_input_commit m)) = m_view m"
  "m_view (fst (quit_pressed now m)) = m_view m" "m_view (begin_confirm m) = m_view m"
  "m_view (fst (confirm_yes m)) = m_view m" "m_view (confirm_no m) = m_view m"
  "m_view (set_confirm_status s m) = m_view m"
proof -
  show set: "m_view (set_current_selected i m) = m_view m" for i
    by (simp add: set_current_selected_def split: focus.split)
  show "m_view (select_up m) = m_view m" "m_view (select_down m) = m_view m"
    by (simp_all add: select_up_def select_down_def Let_def set)
  show "m_view (expand_selected m) = m_view m" "m_view (expand_all_selected m) = m_view m"
    by (simp_all add: expand_selected_def expand_all_selected_def Let_def split: option.split)
  show "m_view (collapse_selected m) = m_view m"
    by (simp add: collapse_selected_def retain_outside_def Let_def split: option.split)
  show "m_view (switch_focus m) = m_view m" by (simp add: switch_focus_def split: focus.split)
  show "m_view (server_update u m) = m_view m" by (simp add: server_update_def split: update.split)
  show "m_view (chance_input_update u m) = m_view m" by (simp add: chance_input_update_def split: update.split)
  show "m_view (fst (chance_input_commit m)) = m_view m" by (simp add: chance_input_commit_def split: option.split)
  show "m_view (fst (quit_pressed now m)) = m_view m" by (simp add: quit_pressed_def split: option.split)
  show "m_view (begin_confirm m) = m_view m" by (simp add: begin_confirm_def split: option.split)
  show "m_view (fst (confirm_yes m)) = m_view m"
    by (simp add: confirm_yes_def split: option.split confirm_status.split)
  show "m_view (confirm_no m) = m_view m" by (simp add: confirm_no_def split: option.split)
  show "m_view (set_confirm_status s m) = m_view m" by (simp add: set_confirm_status_def)
qed

lemma inputs_saved [view_keeps]:
  "saved_level (m_view (agg_input_update u m)) = saved_level (m_view m)"
  "saved_level (m_view (window_input_update u m)) = saved_level (m_view m)"
  "saved_level (m_view (lookback_input_update u m)) = saved_level (m_view m)"
  "saved_level (m_view (set_graph_agg mode m)) = saved_level (m_view m)"
  by (simp_all add: agg_input_update_def window_input_update_def lookback_input_update_def set_graph_agg_def
      view_keeps split: update.split)

lemma fallible_saved:
  "span_received sp now m = Some m' \<Longrightarrow> saved_level (m_view m') = saved_level (m_view m)"
  "toggle_split_selected m = Some m' \<Longrightarrow> saved_level (m_view m') = saved_level (m_view m)"
  "toggle_graph_metric m = Some m' \<Longrightarrow> saved_level (m_view m') = saved_level (m_view m)"
  "window_input_commit m = Some m' \<Longrightarrow> saved_level (m_view m') = saved_level (m_view m)"
  "trace_select_down m = Some m' \<Longrightarrow> saved_level (m_view m') = saved_level (m_view m)"
  "trace_fold f m = Some m' \<Longrightarrow> saved_level (m_view m') = saved_level (m_view m)"
proof -
  show "span_received sp now m = Some m' \<Longrightarrow> saved_level (m_view m') = saved_level (m_view m)"
    by (auto simp: span_received_def dest!: try_graph_saved split: option.splits)
  show "toggle_split_selected m = Some m' \<Longrightarrow> saved_level (m_view m') = saved_level (m_view m)"
    by (auto simp: toggle_split_selected_def split: option.splits if_splits)
  show "toggle_graph_metric m = Some m' \<Longrightarrow> saved_level (m_view m') = saved_level (m_view m)"
    by (auto simp: toggle_graph_metric_def dest!: try_graph_saved)
  show "window_input_commit m = Some m' \<Longrightarrow> saved_level (m_view m') = saved_level (m_view m)"
    by (auto simp: window_input_commit_def dest!: try_graph_saved)
  show "trace_select_down m = Some m' \<Longrightarrow> saved_level (m_view m') = saved_level (m_view m)"
    by (cases "m_view m"; cases "visible_trace_rows (m_agg m) (case m_view m of TraceView td \<Rightarrow> td)")
      (simp_all add: trace_select_down_def, auto)
  show "trace_fold f m = Some m' \<Longrightarrow> saved_level (m_view m') = saved_level (m_view m)"
    using with_view_saved(7) [of _ m]
    by (cases "trace_selected_span_id m"; cases "the (trace_selected_span_id m)") (auto simp: trace_fold_def)
qed

text \<open>The updates that move between the explore views or leave them.\<close>

definition view_moves :: "update set" where
  "view_moves = {ToggleGraph, EnterExplore, ExitExplore, ExploreOpenTrace, ExitTraceDetail, EnterTable, EnterGraph}"

lemma saved_kept:
  assumes "apply_update u now m = Some (m', e)" "u \<notin> view_moves"
  shows "saved_level (m_view m') = saved_level (m_view m)"
proof -
  note pairs = table_view(10) [of m] table_view(11) [where m = m and now = now] table_view(13) [of m]
  show ?thesis
    using assms pairs
    by (cases u) (auto simp: apply_update_def wrap_defs view_moves_def view_keeps
        dest: fallible_saved try_graph_saved)
qed

lemma saved_moves:
  assumes "apply_update u now m = Some (m', e)" "u \<in> view_moves" "saved_level (m_view m) = Some l"
  shows "saved_level (m_view m') = Some l \<or>
    saved_level (m_view m') = None \<and> (e = restoring l \<or> u = ToggleGraph \<or> u = ExitTraceDetail)"
  using assms
  by (cases "m_view m")
    (auto simp: view_moves_def apply_update_def wrap_defs enter_explore_def exit_explore_def enter_table_def
      explore_open_trace_def exit_trace_detail_def enter_graph_def toggle_graph_def try_graph_def restoring_def Let_def
      split: option.splits if_splits)

lemma browsing_saved: "browsing m m' \<Longrightarrow> saved_level (m_view m') = saved_level (m_view m)"
proof (induction rule: browsing.induct)
  case (browse_step m1 u now m2 e)
  have "explore_of (m_view m1) \<noteq> None" using browse_step.hyps(1) by (cases rule: browsing.cases) auto
  then obtain l where "saved_level (m_view m1) = Some l" by (auto simp: saved_None)
  moreover have "saved_level (m_view m2) \<noteq> None" using browse_step.hyps by (simp add: saved_None)
  ultimately show ?case
    using saved_kept [OF browse_step.hyps(2)] saved_moves [OF browse_step.hyps(2)] browse_step.IH by metis
qed simp

text \<open>Entering the explore views asks the server for level \<open>Off\<close>; after any run of updates inside
  them, the update that leaves asks for the level that was confirmed on entry (\<open>Trace\<close> if none was),
  whatever was confirmed meanwhile; the two excepted updates leave without asking.\<close>

theorem explore_restores_level:
  assumes "apply_update EnterExplore t0 m = Some (m1, e1)" "explore_of (m_view m) = None"
    and "browsing m1 m2" "apply_update u now m2 = Some (m3, e)" "explore_of (m_view m3) = None"
    and "u \<noteq> ToggleGraph" "u \<noteq> ExitTraceDetail"
  shows "e1 = RequestSetLevel LfOff \<and> e = restoring (m_cache_level m)"
proof -
  have "explore_of (m_view m1) \<noteq> None" using assms(3) by (induction rule: browsing.induct)
  with assms(1,2) have m1: "saved_level (m_view m1) = Some (m_cache_level m)" "e1 = RequestSetLevel LfOff"
    by (auto simp: apply_update_def enter_explore_def explore_new_def Let_def split: view_mode.splits option.splits)
  have m2: "saved_level (m_view m2) = Some (m_cache_level m)" using browsing_saved [OF assms(3)] m1 by simp
  have "saved_level (m_view m3) = None" using assms(5) by (simp add: saved_None)
  with saved_kept [OF assms(4)] saved_moves [OF assms(4) _ m2] m2 assms(6,7) m1(2) show ?thesis by auto
qed

lemma explore_restores_level_witness:
  "(\<exists>m1 e1 m2 e. apply_update EnterExplore 0 ((model_new 3)\<lparr>m_view := GraphView (graph_new [''a'']), m_cache_level := Some LfInfo\<rparr>) =
       Some (m1, e1) \<and> apply_update ExitExplore 9 m1 = Some (m2, e) \<and>
     e1 = RequestSetLevel LfOff \<and> e = RequestSetLevel LfInfo)"
proof -
  let ?m = "(model_new 3)\<lparr>m_view := GraphView (graph_new [''a'']), m_cache_level := Some LfInfo\<rparr>"
  let ?m1 = "?m\<lparr>m_view := ExploreView (explore_new [''a''] (Some LfInfo))\<rparr>"
  have enter: "apply_update EnterExplore 0 ?m = Some (?m1, RequestSetLevel LfOff)"
    by (simp add: apply_update_def enter_explore_def graph_new_def)
  have exit: "apply_update ExitExplore 9 ?m1 = Some (?m1\<lparr>m_view := TableView\<rparr>, RequestSetLevel LfInfo)"
    by (simp add: apply_update_def exit_explore_def explore_new_def)
  have "browsing ?m1 ?m1" by (rule browse_start) simp
  from explore_restores_level [OF enter _ this exit] enter exit show ?thesis
    by (simp add: restoring_def)
qed

text \<open>The two exceptions are real: \<open>ExitTraceDetail\<close> twice, as a key pressed twice faster than the
  reducer publishes the view sends it, leaves the explore views without asking for a level.\<close>

lemma double_exit_strands_level:
  "apply_update ExitTraceDetail t (m\<lparr>m_view := TraceView td\<rparr>) =
     Some (m\<lparr>m_view := ExploreView (td_explore td)\<rparr>, NoEffect) \<and>
   apply_update ExitTraceDetail t' (m\<lparr>m_view := ExploreView (td_explore td)\<rparr>) = Some (m\<lparr>m_view := TableView\<rparr>, NoEffect)"
  by (simp add: apply_update_def wrap_defs exit_trace_detail_def)

section \<open>The input boxes\<close>

definition number_text :: "string \<Rightarrow> bool" where
  "number_text s \<longleftrightarrow> (\<forall>c \<in> set s. is_digit c \<or> c = CHR ''.'') \<and> count_list s (CHR ''.'') \<le> 1"

definition lookback_text :: "string \<Rightarrow> bool" where
  "lookback_text s \<longleftrightarrow> number_text s \<or>
     butlast s \<noteq> [] \<and> number_text (butlast s) \<and> last s \<in> {CHR ''s'', CHR ''m''}"

definition agg_text :: "string \<Rightarrow> bool" where
  "agg_text s \<longleftrightarrow> (\<forall>c \<in> set s. is_digit c \<or> c = CHR ''.'' \<or> CHR ''a'' \<le> c \<and> c \<le> CHR ''z'') \<and>
     count_list s (CHR ''.'') \<le> 1"

definition box_ok :: "(string \<Rightarrow> bool) \<Rightarrow> string option \<Rightarrow> bool" where
  "box_ok P b = (case b of None \<Rightarrow> True | Some s \<Rightarrow> P s)"

lemma box_ok_simps [simp]: "box_ok P None" "box_ok P (Some s) = P s"
  by (simp_all add: box_ok_def)

definition graph_ok :: "graph_state \<Rightarrow> bool" where
  "graph_ok gs \<longleftrightarrow> box_ok agg_text (g_agg_input gs) \<and> box_ok number_text (g_window_input gs) \<and>
     box_ok lookback_text (g_lookback_input gs) \<and> finite (g_split_keys gs) \<and>
     (\<forall>k. g_sort_column gs = SplitKey k \<longrightarrow> k \<in> g_split_keys gs)"

definition inputs_ok :: "model \<Rightarrow> bool" where
  "inputs_ok m \<longleftrightarrow> box_ok number_text (m_chance_input m) \<and>
     (case m_view m of GraphView gs \<Rightarrow> graph_ok gs | _ \<Rightarrow> True)"

lemma pop_prefix: "\<exists>t. s = pop_char s @ t"
proof -
  have "\<exists>t. tl (dropWhile P xs) = drop t xs" for P and xs :: string
    by (metis drop_Suc drop_Suc_Cons dropWhile_eq_drop tl_drop drop_drop)
  then obtain n where "pop_char s = rev (drop n (rev s))" unfolding pop_char_def by blast
  then have "pop_char s = take (length s - n) s" by (simp add: rev_drop)
  then show ?thesis by (metis append_take_drop_id)
qed

lemma number_text_prefix: "number_text (s @ t) \<Longrightarrow> number_text s"
  by (auto simp: number_text_def)

lemma agg_text_prefix: "agg_text (s @ t) \<Longrightarrow> agg_text s"
  by (auto simp: agg_text_def)

lemma pop_number: "number_text s \<Longrightarrow> number_text (pop_char s)"
  using pop_prefix [of s] number_text_prefix by metis

lemma pop_agg: "agg_text s \<Longrightarrow> agg_text (pop_char s)"
  using pop_prefix [of s] agg_text_prefix by metis

lemma pop_lookback: "lookback_text s \<Longrightarrow> lookback_text (pop_char s)"
proof -
  assume s: "lookback_text s"
  show ?thesis
  proof (cases "number_text s")
    case False
    with s obtain b c where "s = b @ [c]" "number_text b" "c = CHR ''s'' \<or> c = CHR ''m''"
      unfolding lookback_text_def by (metis append_butlast_last_id butlast.simps(1) insertE singletonD)
    then show ?thesis by (auto simp: pop_char_def is_continuation_def lookback_text_def)
  qed (simp add: pop_number lookback_text_def)
qed

lemma push_number: "number_text s \<Longrightarrow> number_text (fst (push_digit_or_decimal s c))"
  by (auto simp: number_text_def push_digit_or_decimal_def is_ascii_digit_def count_list_0_iff is_digit_def
      split: list.splits if_splits)

lemma push_agg: "agg_text s \<Longrightarrow> agg_text (agg_input_char c s)"
  by (auto simp: agg_text_def agg_input_char_def is_ascii_digit_def is_ascii_lowercase_def is_digit_def
      count_list_0_iff Let_def split: list.splits if_splits)

lemma number_no_suffix: "number_text s \<Longrightarrow> \<not> ends_with s (CHR ''s'') \<and> \<not> ends_with s (CHR ''m'')"
  by (auto simp: number_text_def ends_with_def is_digit_def dest!: last_in_set)

lemma push_lookback:
  assumes "lookback_text s"
  shows "lookback_text (lookback_input_char c s)"
proof (cases "number_text s")
  case True
  then have "number_text (fst (push_digit_or_decimal s c))" by (rule push_number)
  moreover have "snd (push_digit_or_decimal s c) \<or> fst (push_digit_or_decimal s c) = s"
    by (simp add: push_digit_or_decimal_def)
  ultimately show ?thesis
    using number_no_suffix [OF True] True
    by (auto simp: lookback_input_char_def lookback_text_def Let_def split: prod.splits)
next
  case False
  with assms have "ends_with s (CHR ''s'') \<or> ends_with s (CHR ''m'')"
    by (auto simp: lookback_text_def ends_with_def)
  with assms show ?thesis by (simp add: lookback_input_char_def)
qed

lemma box_map: "box_ok P b \<Longrightarrow> (\<And>s. P s \<Longrightarrow> P (f s)) \<Longrightarrow> box_ok P (map_option f b)"
  by (cases b) auto

lemma empty_texts [simp]: "number_text []" "agg_text []" "lookback_text []"
  by (simp_all add: number_text_def agg_text_def lookback_text_def)

section \<open>The store leaves the rest of the graph alone\<close>

definition same_graph :: "graph_state \<Rightarrow> graph_state \<Rightarrow> bool" where
  "same_graph gs gs' \<longleftrightarrow> (\<exists>st. gs' = gs\<lparr>g_store := st\<rparr>)"

lemma same_graph_refl: "same_graph gs gs"
  unfolding same_graph_def by (rule exI [of _ "g_store gs"]) simp

lemma same_graph_trans: "same_graph a b \<Longrightarrow> same_graph b c \<Longrightarrow> same_graph a c"
  by (auto simp: same_graph_def)

lemma same_graph_ok: "same_graph gs gs' \<Longrightarrow> graph_ok gs' = graph_ok gs"
  by (auto simp: same_graph_def graph_ok_def)

lemma record_span_same: "record_span a sp gs = Some gs' \<Longrightarrow> same_graph gs gs'"
  using same_graph_refl by (auto simp: record_span_def same_graph_def Let_def split: option.splits)

lemma run_same_graph:
  "(\<And>gs gs' x. f gs x = Some gs' \<Longrightarrow> same_graph gs gs') \<Longrightarrow> run_opt f gs xs = Some gs' \<Longrightarrow> same_graph gs gs'"
proof (induction xs arbitrary: gs)
  case (Cons x xs)
  then obtain g1 where "f gs x = Some g1" "run_opt f g1 xs = Some gs'" by (auto split: option.splits)
  with Cons.IH [of g1] Cons.prems(1) show ?case using same_graph_trans by blast
qed (simp add: same_graph_refl)

lemma rehydrate_same:
  assumes "rehydrate a gs = Some gs'"
  shows "same_graph gs gs'"
proof -
  have "same_graph gs1 gs2" if "record_id a gs1 i = Some gs2" for gs1 gs2 i
    using that record_span_same same_graph_refl by (auto simp: record_id_def split: option.splits)
  from run_same_graph [OF this assms [unfolded rehydrate_def]]
  have "same_graph (gs\<lparr>g_store := reset_window (g_window_secs gs) (g_store gs)\<rparr>) gs'" .
  then show ?thesis by (auto simp: same_graph_def)
qed

lemma graph_takes_same: "graph_takes a gs i = Some gs' \<Longrightarrow> same_graph gs gs'"
  using record_span_same same_graph_refl by (auto simp: graph_takes_def split: option.splits if_splits)

section \<open>The input boxes hold what they accept\<close>

lemma inputs_graph: "inputs_ok m \<Longrightarrow> (\<And>gs. graph_ok gs \<Longrightarrow> graph_ok (f gs)) \<Longrightarrow> inputs_ok (with_graph f m)"
  by (auto simp: inputs_ok_def with_graph_def split: view_mode.splits)

lemma inputs_try_graph:
  "inputs_ok m \<Longrightarrow> (\<And>gs gs'. graph_ok gs \<Longrightarrow> f gs = Some gs' \<Longrightarrow> graph_ok gs') \<Longrightarrow> try_graph f m = Some m' \<Longrightarrow>
     inputs_ok m'"
  by (auto simp: inputs_ok_def try_graph_def split: view_mode.splits)

lemma inputs_other:
  "m_chance_input m' = m_chance_input m \<Longrightarrow> m_view m' = m_view m \<Longrightarrow> inputs_ok m' = inputs_ok m"
  by (simp add: inputs_ok_def)

lemma chance_input_kept:
  "m_chance_input (set_current_selected i m) = m_chance_input m"
  "m_chance_input (select_up m) = m_chance_input m" "m_chance_input (select_down m) = m_chance_input m"
  "m_chance_input (expand_selected m) = m_chance_input m" "m_chance_input (expand_all_selected m) = m_chance_input m"
  "m_chance_input (collapse_selected m) = m_chance_input m" "m_chance_input (switch_focus m) = m_chance_input m"
  "m_chance_input (server_update u m) = m_chance_input m"
  "m_chance_input (fst (quit_pressed now m)) = m_chance_input m" "m_chance_input (begin_confirm m) = m_chance_input m"
  "m_chance_input (fst (confirm_yes m)) = m_chance_input m" "m_chance_input (confirm_no m) = m_chance_input m"
  "m_chance_input (set_confirm_status s m) = m_chance_input m"
proof -
  show set: "m_chance_input (set_current_selected i m) = m_chance_input m" for i
    by (simp add: set_current_selected_def split: focus.split)
  show "m_chance_input (select_up m) = m_chance_input m" "m_chance_input (select_down m) = m_chance_input m"
    by (simp_all add: select_up_def select_down_def Let_def set)
  show "m_chance_input (expand_selected m) = m_chance_input m" "m_chance_input (expand_all_selected m) = m_chance_input m"
    by (simp_all add: expand_selected_def expand_all_selected_def Let_def split: option.split)
  show "m_chance_input (collapse_selected m) = m_chance_input m"
    by (simp add: collapse_selected_def retain_outside_def Let_def split: option.split)
  show "m_chance_input (switch_focus m) = m_chance_input m" by (simp add: switch_focus_def split: focus.split)
  show "m_chance_input (server_update u m) = m_chance_input m" by (simp add: server_update_def split: update.split)
  show "m_chance_input (fst (quit_pressed now m)) = m_chance_input m" by (simp add: quit_pressed_def split: option.split)
  show "m_chance_input (begin_confirm m) = m_chance_input m" by (simp add: begin_confirm_def split: option.split)
  show "m_chance_input (fst (confirm_yes m)) = m_chance_input m"
    by (simp add: confirm_yes_def split: option.split confirm_status.split)
  show "m_chance_input (confirm_no m) = m_chance_input m" by (simp add: confirm_no_def split: option.split)
  show "m_chance_input (set_confirm_status s m) = m_chance_input m" by (simp add: set_confirm_status_def)
qed

lemma sort_column_ok:
  assumes "graph_ok gs"
  shows "graph_ok (sort_column_left gs)" "graph_ok (sort_column_right gs)"
proof -
  let ?cols = "series_table_columns gs"
  have ok: "graph_ok (gs\<lparr>g_sort_column := c\<rparr>)" if "c \<in> set ?cols" for c
    using that assms by (auto simp: graph_ok_def series_table_columns_def)
  have ne: "?cols \<noteq> []" by (simp add: series_table_columns_def)
  have pos: "position x xs = Some i \<Longrightarrow> i < length xs" for x i and xs :: "sort_column list"
    by (induction xs arbitrary: i) (auto split: if_splits)
  show "graph_ok (sort_column_left gs)"
    unfolding sort_column_left_def Let_def using ne pos
    by (intro ok) (fastforce split: option.split intro: nth_mem)
  show "graph_ok (sort_column_right gs)"
    unfolding sort_column_right_def Let_def using ne
    by (intro ok) (auto split: option.split intro: nth_mem)
qed

lemma toggle_finite: "finite s \<Longrightarrow> finite (toggle x s)"
  by (simp add: toggle_def)

lemma toggle_split_ok:
  assumes "graph_ok gs" "graph_toggle_split a gs = Some gs'"
  shows "graph_ok gs'"
proof (cases "g_details_selected gs < length (series_keys gs)")
  case True
  with assms show ?thesis by (auto simp: graph_toggle_split_def graph_ok_def Let_def)
next
  case False
  then have gs': "get_at (graph_candidates a gs) (g_details_selected gs - length (series_keys gs)) = None \<and> gs' = gs \<or>
      (\<exists>k. toggle_split_key a (graph_candidates a gs) k gs = Some gs')"
    using assms(2) by (auto simp: graph_toggle_split_def Let_def split: option.splits)
  have "graph_ok gs'" if tog: "toggle_split_key a cs k gs = Some gs'" for cs k
  proof -
    define g1 where "g1 = gs\<lparr>g_split_keys := toggle k (g_split_keys gs), g_hidden_series := {}\<rparr>"
    define g2 where "g2 = (case g_sort_column g1 of
        SplitKey sk \<Rightarrow> if sk \<notin> g_split_keys g1 then g1\<lparr>g_sort_column := ByCount\<rparr> else g1 | _ \<Rightarrow> g1)"
    have "graph_ok g2"
      using assms(1) by (auto simp: g2_def g1_def graph_ok_def toggle_finite split: sort_column.split)
    moreover obtain g3 where "rehydrate a g2 = Some g3"
      "gs' = (case position k cs of None \<Rightarrow> g3 | Some pos \<Rightarrow> g3\<lparr>g_details_selected := length (series_keys g3) + pos\<rparr>)"
      using tog unfolding toggle_split_key_def Let_def g1_def [symmetric] g2_def [symmetric] by auto
    ultimately show ?thesis
      using same_graph_ok [OF rehydrate_same] by (auto simp: graph_ok_def split: option.split)
  qed
  with gs' assms(1) show ?thesis by blast
qed

lemma graph_arms_ok:
  "graph_ok gs \<Longrightarrow> graph_ok (graph_switch_focus gs)"
  "graph_ok gs \<Longrightarrow> graph_ok (graph_select_down a gs)"
  "graph_ok gs \<Longrightarrow> graph_ok (g_details_selected_update n gs)"
  "graph_ok gs \<Longrightarrow> graph_ok (g_time_labels_update t gs)"
  "graph_ok gs \<Longrightarrow> graph_ok (g_aggregation_update ag gs)"
  by (simp_all add: graph_ok_def graph_switch_focus_def graph_select_down_def Let_def split: graph_focus.split)

lemma graph_new_ok: "graph_ok (graph_new locked)"
  by (simp add: graph_ok_def graph_new_def)

lemma graph_inputs_ok:
  assumes "inputs_ok m"
  shows "inputs_ok (agg_input_update u m)" "inputs_ok (window_input_update u m)" "inputs_ok (lookback_input_update u m)"
proof -
  show "inputs_ok (agg_input_update u m)"
    using assms by (auto simp: agg_input_update_def split: update.split intro!: inputs_graph)
      (auto simp: graph_ok_def open_modal_def close_modal_def backspace_modal_def Let_def
        split: option.split intro!: box_map push_agg pop_agg)
  show "inputs_ok (window_input_update u m)"
    using assms by (auto simp: window_input_update_def split: update.split intro!: inputs_graph)
      (auto simp: graph_ok_def open_modal_def close_modal_def backspace_modal_def Let_def
        split: option.split intro!: box_map push_number pop_number)
  show "inputs_ok (lookback_input_update u m)"
    using assms by (auto simp: lookback_input_update_def split: update.split intro!: inputs_graph)
      (auto simp: graph_ok_def open_modal_def close_modal_def backspace_modal_def Let_def
        split: option.split intro!: box_map push_lookback pop_lookback)
qed

lemma chance_inputs_ok:
  assumes "inputs_ok m"
  shows "inputs_ok (chance_input_update u m)" "inputs_ok (fst (chance_input_commit m))"
proof -
  show "inputs_ok (chance_input_update u m)"
    using assms by (auto simp: inputs_ok_def chance_input_update_def open_modal_def close_modal_def
        backspace_modal_def split: update.split intro!: box_map push_number pop_number)
  show "inputs_ok (fst (chance_input_commit m))"
    using assms by (auto simp: inputs_ok_def chance_input_commit_def split: option.split)
qed

lemma view_inputs_ok:
  assumes "inputs_ok m"
  shows "inputs_ok (with_explore f m)" "inputs_ok (with_trace g m)" "inputs_ok (fst (enter_explore m))"
    "inputs_ok (fst (exit_explore m))" "inputs_ok (fst (enter_table m))" "inputs_ok (explore_open_trace m)"
    "inputs_ok (exit_trace_detail m)"
  using assms
  by (auto simp: inputs_ok_def with_explore_def with_trace_def enter_explore_def exit_explore_def enter_table_def
      explore_open_trace_def exit_trace_detail_def Let_def split: view_mode.splits option.split)

lemma fallible_inputs_ok:
  assumes "inputs_ok m"
  shows "span_received sp now m = Some m' \<Longrightarrow> inputs_ok m'"
    "toggle_split_selected m = Some m' \<Longrightarrow> inputs_ok m'"
    "toggle_graph m = Some m' \<Longrightarrow> inputs_ok m'"
    "toggle_graph_metric m = Some m' \<Longrightarrow> inputs_ok m'"
    "window_input_commit m = Some m' \<Longrightarrow> inputs_ok m'"
    "try_graph (graph_toggle_split a) m = Some m' \<Longrightarrow> inputs_ok m'"
    "enter_graph m = Some (m', e) \<Longrightarrow> inputs_ok m'"
    "trace_select_down m = Some m' \<Longrightarrow> inputs_ok m'"
    "trace_fold f m = Some m' \<Longrightarrow> inputs_ok m'"
proof -
  have hydrate: "graph_ok gs' \<longleftrightarrow> graph_ok gs" if "rehydrate a gs = Some gs'" for a gs gs'
    using same_graph_ok [OF rehydrate_same [OF that]] .
  show "inputs_ok m'" if s: "span_received sp now m = Some m'"
  proof -
    obtain a ids where "absorb sp (m_agg m) = Some (a, ids)"
      and tg: "try_graph (\<lambda>gs. run_opt (graph_takes a) gs ids) (m\<lparr>m_rate := rate_record now (m_rate m), m_agg := a\<rparr>) = Some m'"
      using s by (auto simp: span_received_def split: option.splits)
    have "inputs_ok (m\<lparr>m_rate := rate_record now (m_rate m), m_agg := a\<rparr>)"
      using assms by (simp add: inputs_ok_def)
    moreover have "graph_ok gs'" if "graph_ok gs" "run_opt (graph_takes a) gs ids = Some gs'" for gs gs'
      using run_same_graph [of "graph_takes a" gs ids gs'] graph_takes_same same_graph_ok that by blast
    ultimately show ?thesis using tg by (rule inputs_try_graph)
  qed
  show "toggle_split_selected m = Some m' \<Longrightarrow> inputs_ok m'"
    using assms by (auto simp: toggle_split_selected_def inputs_ok_def split: option.splits if_splits)
  show "toggle_graph m = Some m' \<Longrightarrow> inputs_ok m'"
  proof -
    have "inputs_ok (m\<lparr>m_view := v\<rparr>)" if "v = TableView \<or> (\<exists>l. v = GraphView (graph_new l))" for v
      using that assms graph_new_ok by (auto simp: inputs_ok_def)
    then show "toggle_graph m = Some m' \<Longrightarrow> inputs_ok m'"
      unfolding toggle_graph_def Let_def
      by (elim inputs_try_graph [rotated 2]) (auto simp: hydrate split: view_mode.split option.split)
  qed
  show "toggle_graph_metric m = Some m' \<Longrightarrow> inputs_ok m'"
    unfolding toggle_graph_metric_def
    by (elim inputs_try_graph [OF assms, rotated]) (auto simp: hydrate, simp add: graph_ok_def)
  show "window_input_commit m = Some m' \<Longrightarrow> inputs_ok m'"
    unfolding window_input_commit_def
    by (elim inputs_try_graph [OF assms, rotated])
      (auto simp: Let_def graph_ok_def hydrate [unfolded graph_ok_def] split: option.splits if_splits)
  show "try_graph (graph_toggle_split a) m = Some m' \<Longrightarrow> inputs_ok m'"
    by (elim inputs_try_graph [OF assms, rotated]) (rule toggle_split_ok)
  show "enter_graph m = Some (m', e) \<Longrightarrow> inputs_ok m'"
    using assms graph_new_ok
    by (auto simp: enter_graph_def inputs_ok_def Let_def hydrate split: view_mode.splits option.splits)
  show "trace_select_down m = Some m' \<Longrightarrow> inputs_ok m'"
    using assms
    by (cases "m_view m"; cases "visible_trace_rows (m_agg m) (case m_view m of TraceView td \<Rightarrow> td)")
      (simp_all add: trace_select_down_def inputs_ok_def, auto)
  show "trace_fold f m = Some m' \<Longrightarrow> inputs_ok m'"
    using assms view_inputs_ok(2) [OF assms]
    by (cases "trace_selected_span_id m"; cases "the (trace_selected_span_id m)") (auto simp: trace_fold_def)
qed

lemma inputs_step:
  assumes "apply_update u now m = Some (m', e)" "inputs_ok m"
  shows "inputs_ok m'"
proof -
  have plain: "inputs_ok (select_up m)" "inputs_ok (select_down m)" "inputs_ok (expand_selected m)"
    "inputs_ok (expand_all_selected m)" "inputs_ok (collapse_selected m)" "inputs_ok (switch_focus m)"
    "inputs_ok (server_update v m)" "inputs_ok (fst (quit_pressed now m))" "inputs_ok (begin_confirm m)"
    "inputs_ok (fst (confirm_yes m))" "inputs_ok (confirm_no m)" "inputs_ok (set_confirm_status s m)"
    "inputs_ok (m\<lparr>m_quit_deadline := None\<rparr>)" for s v
    using assms(2) by (simp_all add: inputs_ok_def chance_input_kept table_view)
  have g: "inputs_ok (with_graph f m)" if "\<And>gs. graph_ok gs \<Longrightarrow> graph_ok (f gs)" for f
    by (rule inputs_graph [OF assms(2)]) (rule that)
  note pairs = plain(8,10) chance_inputs_ok(2) [OF assms(2)] view_inputs_ok(3-5) [OF assms(2)]
  note F = fallible_inputs_ok [OF assms(2)]
  show ?thesis
    using assms pairs
    by (cases u) (auto simp: apply_update_def wrap_defs set_graph_agg_def
        intro: assms(2) plain g graph_arms_ok sort_column_ok graph_inputs_ok [OF assms(2)]
          chance_inputs_ok(1) [OF assms(2)] view_inputs_ok [OF assms(2)] dest: F)
qed

text \<open>C31. In every run of updates, whatever is typed, the input boxes hold only text of their kind: the
  chance and the window a number with at most one point, the lookback a number with at most one unit
  after at least one character, the aggregation lower-case letters, digits and at most one point;
  and the graph's sort column is always one of its columns.\<close>

theorem input_boxes_typed:
  assumes "ui_run (model_new n) evs = Some (m, es)"
  shows "box_ok number_text (m_chance_input m) \<and>
    (case m_view m of
       GraphView gs \<Rightarrow> box_ok agg_text (g_agg_input gs) \<and> box_ok number_text (g_window_input gs) \<and>
         box_ok lookback_text (g_lookback_input gs) \<and> g_sort_column gs \<in> set (series_table_columns gs)
     | _ \<Rightarrow> True)"
proof -
  have "inputs_ok m" if "run_opt ui_step st evs = Some (m, es)" "inputs_ok (fst st)" for st
    using that
  proof (induction evs arbitrary: st)
    case (Cons ev evs)
    from Cons.prems(1) obtain st1 where st1: "ui_step st ev = Some st1" "run_opt ui_step st1 evs = Some (m, es)"
      by (auto split: option.splits)
    have "inputs_ok (fst st1)" using st1(1) inputs_step Cons.prems(2) by (auto simp: ui_step_def)
    with Cons.IH st1(2) show ?case by blast
  qed simp
  moreover have "inputs_ok (model_new n)" by (simp add: inputs_ok_def model_new_def)
  ultimately have ok: "inputs_ok m" using assms by fastforce
  have "c \<in> set (series_table_columns gs)" if "graph_ok gs" "c = g_sort_column gs" for gs c
    using that by (cases "g_sort_column gs") (simp_all add: graph_ok_def series_table_columns_def)
  with ok show ?thesis by (auto simp: inputs_ok_def graph_ok_def split: view_mode.splits)
qed

lemma input_boxes_typed_witness:
  "box_ok number_text (m_chance_input (fst (the (ui_run (model_new 4)
     [(0, BeginChanceInput), (1, ChanceInputChar ''7''), (2, ChanceInputChar ''x'')]))))"
proof -
  have "ui_run (model_new 4) [(0, BeginChanceInput), (1, ChanceInputChar ''7''), (2, ChanceInputChar ''x'')] =
      Some ((model_new 4)\<lparr>m_chance_input := Some ''7''\<rparr>, [NoEffect, NoEffect, NoEffect])"
    by (simp add: ui_step_def apply_update_def wrap_defs chance_input_update_def open_modal_def model_new_def
        push_digit_or_decimal_def is_ascii_digit_def is_digit_def)
  from input_boxes_typed [OF this] this show ?thesis by simp
qed

section \<open>The reducer returns\<close>

definition rate_ok :: "rate_tracker \<Rightarrow> bool" where
  "rate_ok r \<longleftrightarrow> length (rt_buckets r) = BUCKETS \<and> rt_head r < BUCKETS"

lemma rate_advance_ok: "rate_ok r \<Longrightarrow> rate_ok (rate_advance n r)"
  by (induction n r rule: rate_advance.induct) (auto simp: rate_ok_def BUCKETS_def Let_def)

lemma rate_record_ok: "rate_ok r \<Longrightarrow> rate_ok (rate_record now r)"
  using rate_advance_ok [of r] by (auto simp: rate_record_def rate_ok_def Let_def split: option.split)

definition model_ok :: "model \<Rightarrow> bool" where
  "model_ok m \<longleftrightarrow> agg_inv (m_agg m) \<and> rate_ok (m_rate m)"

text \<open>The updates that put samples into a graph's store, where a sample can be too late for its series.\<close>

definition fills_graph :: "update \<Rightarrow> model \<Rightarrow> bool" where
  "fills_graph u m \<longleftrightarrow> u \<in> {ToggleGraph, EnterGraph} \<or>
     (\<exists>gs. m_view m = GraphView gs) \<and>
       (u \<in> {ToggleGraphMetric, GraphWindowInputCommit, GraphToggleSplit} \<or> (\<exists>sp. u = SpanReceived sp))"

lemma split_keys_return:
  assumes "agg_inv a"
  shows "\<exists>d. set_split_keys keys a = Some d \<and> agg_inv d"
proof (cases "keys = split_keys a")
  case False
  obtain c d where "rebuild_buckets (a\<lparr>split_keys := keys\<rparr>) = Some d" "rebuilt a keys c (order a)"
    "d = c\<lparr>pending := pending a, pending_len := pending_len a\<rparr>"
    using rebuild_buckets_spec [OF assms] by blast
  with False rebuilt_restore [OF assms] show ?thesis by (simp add: set_split_keys_def)
qed (use assms in \<open>simp add: set_split_keys_def\<close>)

definition quiet :: "model \<Rightarrow> model \<Rightarrow> bool" where
  "quiet m m' \<longleftrightarrow> m_agg m' = m_agg m \<and> m_rate m' = m_rate m"

lemma quiet_views:
  "quiet m (with_graph f m)" "quiet m (with_explore g m)" "quiet m (with_trace h m)"
  "try_graph k m = Some m' \<Longrightarrow> quiet m m'"
  by (auto simp: quiet_def with_graph_def with_explore_def with_trace_def try_graph_def split: view_mode.splits)

lemma quiet_table:
  "quiet m (set_current_selected i m)" "quiet m (select_up m)" "quiet m (select_down m)"
  "quiet m (expand_selected m)" "quiet m (expand_all_selected m)" "quiet m (collapse_selected m)"
  "quiet m (switch_focus m)" "quiet m (server_update u m)" "quiet m (chance_input_update u m)"
  "quiet m (fst (chance_input_commit m))"
proof -
  show set: "quiet m (set_current_selected i m)" for i
    by (simp add: quiet_def set_current_selected_def split: focus.split)
  show "quiet m (select_up m)" "quiet m (select_down m)"
    using set by (simp_all add: select_up_def select_down_def Let_def) (simp_all add: quiet_def)
  show "quiet m (expand_selected m)" "quiet m (expand_all_selected m)"
    by (simp_all add: quiet_def expand_selected_def expand_all_selected_def Let_def split: option.split)
  show "quiet m (collapse_selected m)"
    by (simp add: quiet_def collapse_selected_def retain_outside_def Let_def split: option.split)
  show "quiet m (switch_focus m)" by (simp add: quiet_def switch_focus_def split: focus.split)
  show "quiet m (server_update u m)" by (simp add: quiet_def server_update_def split: update.split)
  show "quiet m (chance_input_update u m)" by (simp add: quiet_def chance_input_update_def split: update.split)
  show "quiet m (fst (chance_input_commit m))" by (simp add: quiet_def chance_input_commit_def split: option.split)
qed

lemma quiet_prompts:
  "quiet m (fst (quit_pressed now m))" "quiet m (begin_confirm m)" "quiet m (fst (confirm_yes m))"
  "quiet m (confirm_no m)" "quiet m (set_confirm_status s m)" "quiet m (m\<lparr>m_quit_deadline := d\<rparr>)"
  by (simp_all add: quiet_def quit_pressed_def begin_confirm_def confirm_yes_def confirm_no_def set_confirm_status_def
      split: option.split confirm_status.split)

lemma quiet_inputs:
  "quiet m (agg_input_update u m)" "quiet m (window_input_update u m)" "quiet m (lookback_input_update u m)"
  by (auto simp: agg_input_update_def window_input_update_def lookback_input_update_def
      intro: quiet_views split: update.split) (simp_all add: quiet_def)

lemma quiet_explore:
  "quiet m (fst (enter_explore m))" "quiet m (fst (exit_explore m))" "quiet m (fst (enter_table m))"
  "quiet m (explore_open_trace m)" "quiet m (exit_trace_detail m)"
  by (simp_all add: quiet_def enter_explore_def exit_explore_def enter_table_def explore_open_trace_def
      exit_trace_detail_def Let_def split: view_mode.split option.split)

lemma quiet_trace:
  "trace_select_down m = Some m' \<Longrightarrow> quiet m m'" "trace_fold f m = Some m' \<Longrightarrow> quiet m m'"
proof -
  show "trace_select_down m = Some m' \<Longrightarrow> quiet m m'"
    by (cases "m_view m"; cases "visible_trace_rows (m_agg m) (case m_view m of TraceView td \<Rightarrow> td)")
      (simp_all add: trace_select_down_def quiet_def, auto)
  show "trace_fold f m = Some m' \<Longrightarrow> quiet m m'"
    using quiet_views(3) [of m]
    by (cases "trace_selected_span_id m"; cases "the (trace_selected_span_id m)") (auto simp: trace_fold_def quiet_def)
qed

lemma quiet_graph:
  "toggle_graph m = Some m' \<Longrightarrow> quiet m m'" "toggle_graph_metric m = Some m' \<Longrightarrow> quiet m m'"
  "window_input_commit m = Some m' \<Longrightarrow> quiet m m'" "enter_graph m = Some (m', e) \<Longrightarrow> quiet m m'"
proof -
  show "toggle_graph m = Some m' \<Longrightarrow> quiet m m'"
    unfolding toggle_graph_def Let_def by (auto dest!: quiet_views(4) simp: quiet_def)
  show "toggle_graph_metric m = Some m' \<Longrightarrow> quiet m m'"
    unfolding toggle_graph_metric_def by (rule quiet_views(4))
  show "window_input_commit m = Some m' \<Longrightarrow> quiet m m'"
    unfolding window_input_commit_def by (rule quiet_views(4))
  show "enter_graph m = Some (m', e) \<Longrightarrow> quiet m m'"
    by (auto simp: enter_graph_def Let_def quiet_def split: view_mode.splits option.splits)
qed

lemma quiet_step:
  assumes "apply_update u now m = Some (m', e)" "\<forall>sp. u \<noteq> SpanReceived sp" "u \<noteq> ToggleSplitSelected"
  shows "quiet m m'"
proof -
  note pairs = quiet_table(10) [of m] quiet_prompts(1) [of m now] quiet_prompts(3) [of m] quiet_explore(1-3) [of m]
  have refl: "quiet m m" by (simp add: quiet_def)
  show ?thesis
    using assms pairs refl
    by (cases u) (auto simp: apply_update_def wrap_defs set_graph_agg_def
        intro: quiet_views quiet_table quiet_prompts quiet_inputs quiet_explore quiet_trace quiet_graph
        dest: quiet_views(4) quiet_trace quiet_graph)
qed

lemma trace_arms_return:
  assumes "agg_inv (m_agg m)"
  shows "trace_select_down m \<noteq> None" "trace_fold f m \<noteq> None"
  using trace_rows_spec [OF assms]
  by (auto simp: trace_select_down_def trace_fold_def trace_selected_span_id_def split: view_mode.splits)

lemma returns_step:
  assumes "apply_update u now m = None" "model_ok m" "\<forall>sp. u = SpanReceived sp \<longrightarrow> admits (m_agg m) sp"
  shows "fills_graph u m"
proof -
  have inv: "agg_inv (m_agg m)" using assms(2) by (simp add: model_ok_def)
  have split: "toggle_split_selected m \<noteq> None"
    using split_keys_return [OF inv] by (force simp: toggle_split_selected_def split: option.splits)
  have graph: "try_graph f m = None \<Longrightarrow> \<exists>gs. m_view m = GraphView gs" for f m
    by (auto simp: try_graph_def split: view_mode.splits)
  have span: "\<exists>gs. m_view m = GraphView gs" if sp: "span_received sp now m = None" "admits (m_agg m) sp" for sp
  proof -
    obtain a new where "absorb sp (m_agg m) = Some (a, new)" using absorb_inv [OF inv sp(2)] by blast
    with sp(1) have "try_graph (\<lambda>gs. run_opt (graph_takes a) gs new)
        (m\<lparr>m_rate := rate_record now (m_rate m), m_agg := a\<rparr>) = None"
      by (simp add: span_received_def)
    from graph [OF this] show ?thesis by simp
  qed
  show ?thesis
    using assms trace_arms_return [OF inv] split
    by (cases u) (auto simp: apply_update_def wrap_defs fills_graph_def toggle_graph_metric_def
        window_input_commit_def dest!: graph dest: span)
qed

lemma reducer_keeps:
  assumes "model_ok m" "\<forall>sp. u = SpanReceived sp \<longrightarrow> admits (m_agg m) sp"
  shows "case apply_update u now m of Some (m', e) \<Rightarrow> model_ok m' | None \<Rightarrow> fills_graph u m"
proof (cases "apply_update u now m")
  case None
  with returns_step [OF None assms] show ?thesis by simp
next
  case (Some r)
  obtain m' e where r: "r = (m', e)" by (cases r)
  have inv: "agg_inv (m_agg m)" "rate_ok (m_rate m)" using assms(1) by (simp_all add: model_ok_def)
  have "model_ok m'"
  proof (cases "(\<exists>sp. u = SpanReceived sp) \<or> u = ToggleSplitSelected")
    case False
    with quiet_step [of u now m m' e] Some r assms(1) show ?thesis by (simp add: quiet_def model_ok_def)
  next
    case True
    then show ?thesis
    proof
      assume u: "u = ToggleSplitSelected"
      with Some r have "toggle_split_selected m = Some m'" by (auto simp: apply_update_def wrap_defs)
      with split_keys_return [OF inv(1)] inv show ?thesis
        by (auto simp: toggle_split_selected_def model_ok_def split: option.splits if_splits) (metis option.inject)
    next
      assume "\<exists>sp. u = SpanReceived sp"
      then obtain sp where u: "u = SpanReceived sp" by blast
      obtain a new where a: "absorb sp (m_agg m) = Some (a, new)" "agg_inv a"
        using absorb_inv [OF inv(1)] assms(2) u by blast
      with Some r u have "try_graph (\<lambda>gs. run_opt (graph_takes a) gs new)
          (m\<lparr>m_rate := rate_record now (m_rate m), m_agg := a\<rparr>) = Some m'"
        by (auto simp: apply_update_def wrap_defs span_received_def)
      from quiet_views(4) [OF this] a(2) rate_record_ok [OF inv(2)] show ?thesis
        by (simp add: quiet_def model_ok_def)
    qed
  qed
  with Some r show ?thesis by simp
qed

text \<open>C8. One step of the reducer: from any state that satisfies the invariants of the aggregator and of
  the rate counter, every update the stream may send returns and keeps both, except possibly the
  updates that fill a graph's store.\<close>

theorem reducer_step:
  assumes "model_ok m" "\<forall>sp. u = SpanReceived sp \<longrightarrow> admits (m_agg m) sp"
  shows "case apply_update u now m of Some (m', e) \<Rightarrow> model_ok m' | None \<Rightarrow> fills_graph u m"
  by (rule reducer_keeps [OF assms])

lemma reducer_step_witness:
  "case apply_update (SpanReceived (mk_span 1 None ''a'' 0 10)) 7 (model_new 2) of
     Some (m', e) \<Rightarrow> model_ok m' | None \<Rightarrow> fills_graph (SpanReceived (mk_span 1 None ''a'' 0 10)) (model_new 2)"
proof (rule reducer_step)
  have inv: "agg_inv (agg_new 2)" by (rule agg_inv_new) simp_all
  then show "model_ok (model_new 2)"
    by (simp add: model_ok_def model_new_def rate_ok_def rate_default_def BUCKETS_def)
  have "admits (agg_new 2) (mk_span 1 None ''a'' 0 10)"
    using run_admits [of 2 "[]" "mk_span 1 None ''a'' 0 10" "agg_new 2"]
    by (simp add: mk_span_def span_ns_def span_total_ns_def sat_sub_def)
  then show "\<forall>sp. SpanReceived (mk_span 1 None ''a'' 0 10) = SpanReceived sp \<longrightarrow> admits (m_agg (model_new 2)) sp"
    by (simp add: model_new_def)
qed

text \<open>The reducer as a guarded machine: outside the updates that fill a graph, no run gets stuck.\<close>

definition ui_admits :: "model \<Rightarrow> nat \<times> update \<Rightarrow> bool" where
  "ui_admits m ev \<longleftrightarrow> \<not> fills_graph (snd ev) m \<and>
     (\<forall>sp. snd ev = SpanReceived sp \<longrightarrow> admits (m_agg m) sp)"

interpretation ui_machine: guarded_machine "\<lambda>m ev. map_option fst (apply_update (snd ev) (fst ev) m)" ui_admits model_ok
proof
  fix m ev assume "model_ok m" "ui_admits m ev"
  with reducer_keeps [of m "snd ev" "fst ev"]
  show "\<exists>m'. map_option fst (apply_update (snd ev) (fst ev) m) = Some m' \<and> model_ok m'"
    by (auto simp: ui_admits_def split: option.splits)
qed

end
