(* ===== verification/KeysProps.thy ===== *)
theory KeysProps
  imports Runtime ModelViews
begin

text \<open>
  Keys and modals: what a key can do when the flags mirror the model, and that the terminal loop
  keeps them so.
\<close>

section \<open>What an update is meant for\<close>

definition in_graph :: "(graph_state \<Rightarrow> bool) \<Rightarrow> model \<Rightarrow> bool" where
  "in_graph P m \<longleftrightarrow> (case m_view m of GraphView gs \<Rightarrow> P gs | _ \<Rightarrow> False)"

definition in_explore :: "(explore_state \<Rightarrow> bool) \<Rightarrow> model \<Rightarrow> bool" where
  "in_explore P m \<longleftrightarrow> (case m_view m of ExploreView es \<Rightarrow> P es | _ \<Rightarrow> False)"

definition in_trace :: "model \<Rightarrow> bool" where
  "in_trace m \<longleftrightarrow> (case m_view m of TraceView td \<Rightarrow> True | _ \<Rightarrow> False)"

text \<open>The part of the screen whose input box an update edits.\<close>

definition edits :: "update \<Rightarrow> u8" where
  "edits u =
     (case u of
        ChanceInputChar _ \<Rightarrow> MODAL_CHANCE | ChanceInputBackspace \<Rightarrow> MODAL_CHANCE
      | ChanceInputCommit \<Rightarrow> MODAL_CHANCE | ChanceInputCancel \<Rightarrow> MODAL_CHANCE
      | GraphAggInputChar _ \<Rightarrow> MODAL_GRAPH_AGG | GraphAggInputBackspace \<Rightarrow> MODAL_GRAPH_AGG
      | GraphAggInputCommit \<Rightarrow> MODAL_GRAPH_AGG | GraphAggInputCancel \<Rightarrow> MODAL_GRAPH_AGG
      | GraphWindowInputChar _ \<Rightarrow> MODAL_GRAPH_WINDOW | GraphWindowInputBackspace \<Rightarrow> MODAL_GRAPH_WINDOW
      | GraphWindowInputCommit \<Rightarrow> MODAL_GRAPH_WINDOW | GraphWindowInputCancel \<Rightarrow> MODAL_GRAPH_WINDOW
      | GraphLookbackInputChar _ \<Rightarrow> MODAL_GRAPH_LOOKBACK | GraphLookbackInputBackspace \<Rightarrow> MODAL_GRAPH_LOOKBACK
      | GraphLookbackInputCommit \<Rightarrow> MODAL_GRAPH_LOOKBACK | GraphLookbackInputCancel \<Rightarrow> MODAL_GRAPH_LOOKBACK
      | ExploreSearchChar _ \<Rightarrow> MODAL_EXPLORE_SEARCH | ExploreSearchBackspace \<Rightarrow> MODAL_EXPLORE_SEARCH
      | ExploreSearchCommit \<Rightarrow> MODAL_EXPLORE_SEARCH | ExploreSearchCancel \<Rightarrow> MODAL_EXPLORE_SEARCH
      | ConfirmVersionSwitchYes \<Rightarrow> MODAL_CONFIRM_VERSION_SWITCH
      | ConfirmVersionSwitchNo \<Rightarrow> MODAL_CONFIRM_VERSION_SWITCH
      | _ \<Rightarrow> MODAL_NONE)"

text \<open>The view an update is made for.\<close>

definition meant_for :: "update \<Rightarrow> model \<Rightarrow> bool" where
  "meant_for u m \<longleftrightarrow>
     (if u \<in> {SelectUp, SelectDown, ExpandSelected, ExpandAllSelected, CollapseSelected, SwitchFocus, ToggleSplitSelected,
              BeginChanceInput} then m_view m = TableView
      else if u \<in> {ToggleGraph, EnterExplore} then m_view m = TableView \<or> in_graph (\<lambda>_. True) m
      else if u \<in> {BeginGraphAggInput, ToggleGraphMetric, BeginGraphWindowInput, BeginGraphLookbackInput, ToggleGraphTimeLabels,
                   GraphSwitchFocus, GraphSelectUp, GraphSelectDown, GraphSortColumnLeft, GraphSortColumnRight, GraphToggleSplit}
      then in_graph (\<lambda>_. True) m
      else if u \<in> {ExitExplore, BeginExploreSearch, ExploreInvertSort, ExploreSelectUp, ExploreSelectDown, ExploreSortLeft,
                   ExploreSortRight, ExploreOpenTrace} then in_explore (\<lambda>_. True) m
      else if u \<in> {ExitTraceDetail, TraceDetailSelectUp, TraceDetailSelectDown, TraceDetailExpand, TraceDetailCollapse}
      then in_trace m
      else if u = EnterGraph then in_explore (\<lambda>_. True) m \<or> in_trace m
      else if u = EnterTable then m_view m \<noteq> TableView
      else if u = QuitConfirmDismiss then m_quit_deadline m \<noteq> None
      else u \<in> {Quit, BeginConfirmVersionSwitch} \<or> (\<exists>f. u = RequestCacheLevel f))"

lemma route_modal_edits: "route_modal modal k = Some u \<Longrightarrow> edits u = modal \<and> modal \<noteq> MODAL_NONE"
  by (cases k) (auto simp: route_modal_def edits_def modal_tags split: if_splits)

lemma route_view_meant:
  "m_view m = TableView \<Longrightarrow> route_table k = Some u \<Longrightarrow> meant_for u m \<and> edits u = MODAL_NONE"
  "in_graph (\<lambda>_. True) m \<Longrightarrow> route_graph k = Some u \<Longrightarrow> meant_for u m \<and> edits u = MODAL_NONE"
  "in_explore (\<lambda>_. True) m \<Longrightarrow> route_explore k = Some u \<Longrightarrow> meant_for u m \<and> edits u = MODAL_NONE"
  "in_trace m \<Longrightarrow> route_trace k = Some u \<Longrightarrow> meant_for u m \<and> edits u = MODAL_NONE"
  by (cases k; force simp: route_table_def route_graph_def route_explore_def route_trace_def meant_for_def edits_def
      in_graph_def in_explore_def in_trace_def split: if_splits view_mode.splits)+

lemma view_tag_cases:
  "view_tag_of m = VIEW_GRAPH \<longleftrightarrow> in_graph (\<lambda>_. True) m"
  "view_tag_of m = VIEW_EXPLORE \<longleftrightarrow> in_explore (\<lambda>_. True) m"
  "view_tag_of m = VIEW_TRACE_DETAIL \<longleftrightarrow> in_trace m"
  by (simp_all add: view_tag_of_def view_tags in_graph_def in_explore_def in_trace_def split: view_mode.split)

lemma table_view_left: "\<not> in_graph (\<lambda>_. True) m \<Longrightarrow> \<not> in_explore (\<lambda>_. True) m \<Longrightarrow> \<not> in_trace m \<Longrightarrow> m_view m = TableView"
  by (simp add: in_graph_def in_explore_def in_trace_def split: view_mode.splits)

lemma route_fits:
  assumes "route_key (flags_of m) k = Some u"
  shows "edits u = modal_kind_of m \<and> (if edits u = MODAL_NONE then meant_for u m else True)"
proof (cases "modal_kind_of m = MODAL_NONE")
  case False
  with assms have "route_modal (modal_kind_of m) k = Some u" by (simp add: route_key_def flags_of_def)
  from route_modal_edits [OF this] show ?thesis by auto
next
  case True
  show ?thesis
  proof (cases "route_level k")
    case (Some f)
    with assms True have "u = RequestCacheLevel f" by (simp add: route_key_def flags_of_def)
    with True show ?thesis by (simp add: edits_def meant_for_def)
  next
    case None
    consider "u = QuitConfirmDismiss" "m_quit_deadline m \<noteq> None" | "u = BeginConfirmVersionSwitch"
      | "in_graph (\<lambda>_. True) m" "route_graph k = Some u" | "in_explore (\<lambda>_. True) m" "route_explore k = Some u"
      | "in_trace m" "route_trace k = Some u" | "m_view m = TableView" "route_table k = Some u"
      using assms True None table_view_left
      by (auto simp: route_key_def flags_of_def view_tag_cases split: if_splits)
    then show ?thesis
    proof cases
      case 1 with True show ?thesis by (simp add: edits_def meant_for_def)
    next
      case 2 with True show ?thesis by (simp add: edits_def meant_for_def)
    qed (use True route_view_meant in simp_all)
  qed
qed

section \<open>The flags of the terminal loop\<close>

abbreviation tui_run :: "tui \<Rightarrow> tui_event list \<Rightarrow> tui option" where
  "tui_run \<equiv> run_opt tui_step"

definition settled :: "tui \<Rightarrow> bool" where
  "settled t \<longleftrightarrow> tu_exit t = None \<longrightarrow> tu_flags t = flags_of (tu_model t)"

lemma settled_new: "settled (tui_new b)"
  by (simp add: settled_def tui_new_def flags_initial_def flags_of_def model_new_def modal_kind_of_def view_tag_of_def)

lemma tui_effect_model [simp]: "tu_model (tui_effect e outcome t) = tu_model t"
  by (cases e) (simp_all add: tui_effect_def out_send_def)

lemma tui_apply_settled: "tui_apply x t = Some t' \<Longrightarrow> settled t'"
  by (auto simp: tui_apply_def settled_def Let_def split: prod.splits option.splits if_splits)

lemma tui_batch_settled: "tui_batch xs t = Some t' \<Longrightarrow> settled t \<Longrightarrow> settled t'"
proof (induction xs arbitrary: t)
  case (Cons x xs)
  then show ?case using tui_apply_settled by (auto split: option.splits if_splits)
qed simp

lemma deadline_view:
  "modal_kind_of (m\<lparr>m_quit_deadline := d\<rparr>) = modal_kind_of m" "view_tag_of (m\<lparr>m_quit_deadline := d\<rparr>) = view_tag_of m"
  by (simp_all add: modal_kind_of_def view_tag_of_def)

lemma expire_view:
  "modal_kind_of (expire_quit_confirm_if_due now m) = modal_kind_of m"
  "view_tag_of (expire_quit_confirm_if_due now m) = view_tag_of m"
  by (simp_all add: expire_quit_confirm_if_due_def deadline_view split: option.split)

lemma tui_step_settled: "tui_step t ev = Some t' \<Longrightarrow> settled t \<Longrightarrow> settled t'"
  using tui_batch_settled
  by (auto simp: tui_step_def tui_tick_def settled_def Let_def flags_of_def expire_view
      split: tui_event.splits option.splits if_splits)

lemma tui_run_settled: "tui_run t evs = Some t' \<Longrightarrow> settled t \<Longrightarrow> settled t'"
proof (induction evs arbitrary: t)
  case (Cons ev evs)
  then show ?case using tui_step_settled by (auto split: option.splits)
qed simp

text \<open>C14. Between two steps of the terminal loop a key is understood by the state on the screen: while
  an input box or the version dialog is open it edits that box or answers that dialog, or is
  dropped, and reaches nothing else; otherwise it is a command of the view on the screen, one of
  the global commands, or dropped.\<close>

theorem settled_keys_fit:
  assumes "tui_run (tui_new b) evs = Some t" "tu_exit t = None" "route_key (tu_flags t) k = Some u"
  shows "edits u = modal_kind_of (tu_model t) \<and> (if edits u = MODAL_NONE then meant_for u (tu_model t) else True)"
proof -
  have "tu_flags t = flags_of (tu_model t)"
    using tui_run_settled [OF assms(1) settled_new] assms(2) by (simp add: settled_def)
  with assms(3) route_fits show ?thesis by simp
qed

lemma settled_keys_fit_witness:
  "\<exists>t. tui_run (tui_new 4) [TuiBatch (Some [(0, BeginChanceInput, SendOk)])] = Some t \<and>
     route_key (tu_flags t) (KeyChar ''q'') = Some (ChanceInputChar ''q'') \<and> modal_kind_of (tu_model t) = MODAL_CHANCE"
proof -
  obtain t where run: "tui_run (tui_new 4) [TuiBatch (Some [(0, BeginChanceInput, SendOk)])] = Some t" "tu_exit t = None"
    and key: "route_key (tu_flags t) (KeyChar ''q'') = Some (ChanceInputChar ''q'')"
    by (simp add: tui_step_def tui_apply_def tui_new_def apply_update_def pure_def chance_input_update_def open_modal_def
        tui_effect_def flags_of_def modal_kind_of_def model_new_def route_key_def route_modal_def modal_tags)
  from settled_keys_fit [OF run key] have "modal_kind_of (tu_model t) = MODAL_CHANCE" by (simp add: edits_def)
  with run(1) key show ?thesis by (intro exI [of _ t] conjI)
qed

section \<open>Leaving the explore views by a key\<close>

text \<open>C15. Entering the explore views asks the server for level \<open>Off\<close>. Whatever happens inside them,
  every key of a settled console that leaves them asks for the level that was confirmed on entry,
  \<open>Trace\<close> if none was.\<close>

theorem key_leaves_explore_restores:
  assumes "apply_update EnterExplore t0 m = Some (m1, e1)" "explore_of (m_view m) = None" "browsing m1 m2"
    and "route_key (flags_of m2) k = Some u" "apply_update u now m2 = Some (m3, e)" "explore_of (m_view m3) = None"
  shows "e1 = RequestSetLevel LfOff \<and> e = restoring (m_cache_level m)"
proof -
  have "explore_of (m_view m1) \<noteq> None" using assms(3) by (induction rule: browsing.induct)
  with assms(1,2) have m1: "saved_level (m_view m1) = Some (m_cache_level m)" "e1 = RequestSetLevel LfOff"
    by (auto simp: apply_update_def enter_explore_def explore_new_def Let_def split: view_mode.splits option.splits)
  have m2: "saved_level (m_view m2) = Some (m_cache_level m)" using browsing_saved [OF assms(3)] m1 by simp
  have m3: "saved_level (m_view m3) = None" using assms(6) by (simp add: saved_None)
  have not_graph: "u \<noteq> ToggleGraph"
  proof
    assume "u = ToggleGraph"
    with route_fits [OF assms(4)] have "m_view m2 = TableView \<or> in_graph (\<lambda>_. True) m2"
      by (simp add: edits_def meant_for_def)
    with m2 show False by (auto simp: in_graph_def saved_level_def split: view_mode.splits)
  qed
  have "u = ExitTraceDetail \<Longrightarrow> explore_of (m_view m3) \<noteq> None"
    using route_fits [OF assms(4)] assms(5)
    by (auto simp: edits_def meant_for_def in_trace_def apply_update_def pure_def exit_trace_detail_def split: view_mode.splits)
  with assms(6) not_graph saved_kept [OF assms(5)] saved_moves [OF assms(5) _ m2] m2 m3 m1(2) show ?thesis by auto
qed

lemma key_leaves_explore_restores_witness:
  "\<exists>m1 e1 m3 e u. apply_update EnterExplore 0 ((model_new 3)\<lparr>m_view := GraphView (graph_new [''a'']), m_cache_level := Some LfInfo\<rparr>) =
       Some (m1, e1) \<and> route_key (flags_of m1) (KeyChar ''s'') = Some u \<and> apply_update u 9 m1 = Some (m3, e) \<and>
     e1 = RequestSetLevel LfOff \<and> e = RequestSetLevel LfInfo"
proof -
  let ?m = "(model_new 3)\<lparr>m_view := GraphView (graph_new [''a'']), m_cache_level := Some LfInfo\<rparr>"
  let ?m1 = "?m\<lparr>m_view := ExploreView (explore_new [''a''] (Some LfInfo))\<rparr>"
  have enter: "apply_update EnterExplore 0 ?m = Some (?m1, RequestSetLevel LfOff)"
    by (simp add: apply_update_def enter_explore_def graph_new_def)
  have key: "route_key (flags_of ?m1) (KeyChar ''s'') = Some EnterTable"
    by (simp add: route_key_def flags_of_def modal_kind_of_def view_tag_of_def explore_new_def model_new_def route_level_def
        route_explore_def modal_tags view_tags)
  obtain e where exit: "apply_update EnterTable 9 ?m1 = Some (?m1\<lparr>m_view := TableView\<rparr>, e)"
    by (simp add: apply_update_def enter_table_def explore_new_def)
  have "browsing ?m1 ?m1" by (rule browse_start) simp
  from key_leaves_explore_restores [OF enter _ this key exit] have "e = RequestSetLevel LfInfo"
    by (simp add: restoring_def)
  with enter key exit show ?thesis by blast
qed

end
