(* ===== verification/NetProps.thy ===== *)
theory NetProps
  imports Runtime
begin

text \<open>
  The network task: what a turn takes from the stream, that nothing is lost on the way to the
  reducer while the channel has room, and the ids of the requests. The installer: which commands can
  be run, and what can reach the terminal.
\<close>

section \<open>Batches\<close>

definition item_updates :: "stream_item \<Rightarrow> update list" where
  "item_updates item = (case item of ItemOk resp \<Rightarrow> resp_updates resp | _ \<Rightarrow> [])"

lemma resp_updates_short: "length (resp_updates resp) \<le> 1"
  by (simp add: resp_updates_def split: option.split)

definition stopped :: "gathered \<Rightarrow> bool" where
  "stopped g \<longleftrightarrow> ga_dropped g \<or> ga_ended_at g \<noteq> None \<or> MAX_BATCH \<le> length (ga_batch g)"

lemma gather_item_sel [simp]:
  "ga_batch (gather_item item g) = ga_batch g @ item_updates item"
  "ga_rest (gather_item item g) = ga_rest g"
  by (simp_all add: gather_item_def item_updates_def split: stream_item.split)

lemma item_updates_short: "length (item_updates item) \<le> 1"
  using resp_updates_short by (simp add: item_updates_def split: stream_item.split)

lemma drain_spec:
  "\<exists>used. items = used @ ga_rest (drain items g) \<and>
     ga_batch (drain items g) = ga_batch g @ concat (map item_updates used) \<and>
     (ga_rest (drain items g) = [] \<or> stopped (drain items g)) \<and>
     (length (ga_batch g) \<le> MAX_BATCH \<longrightarrow> length (ga_batch (drain items g)) \<le> MAX_BATCH)"
proof (induction items g rule: drain.induct)
  case (1 g)
  show ?case by (rule exI [of _ "[]"]) (simp add: stopped_def)
next
  case (2 item items g)
  show ?case
  proof (cases "stopped g")
    case True
    then have d: "drain (item # items) g = g\<lparr>ga_rest := item # items\<rparr>" by (simp add: stopped_def)
    show ?thesis unfolding d using True by (intro exI [of _ "[]"]) (simp add: stopped_def)
  next
    case False
    then obtain used where used: "items = used @ ga_rest (drain items (gather_item item g))"
        "ga_batch (drain items (gather_item item g)) = (ga_batch g @ item_updates item) @ concat (map item_updates used)"
        "ga_rest (drain items (gather_item item g)) = [] \<or> stopped (drain items (gather_item item g))"
        "length (ga_batch g @ item_updates item) \<le> MAX_BATCH \<longrightarrow>
          length (ga_batch (drain items (gather_item item g))) \<le> MAX_BATCH"
      using 2 by (auto simp: stopped_def)
    have "length (ga_batch g) < MAX_BATCH" using False by (simp add: stopped_def)
    then have "length (ga_batch g @ item_updates item) \<le> MAX_BATCH" using item_updates_short [of item] by simp
    with used False show ?thesis by (intro exI [of _ "item # used"]) (simp add: stopped_def)
  qed
qed

lemma batch_is_prefix_core:
  "length (ga_batch (gather first items)) \<le> MAX_BATCH \<and>
   (\<exists>used. first # items = used @ ga_rest (gather first items) \<and>
      ga_batch (gather first items) = concat (map item_updates used)) \<and>
   (ga_rest (gather first items) = [] \<or> ga_dropped (gather first items) \<or> ga_ended_at (gather first items) \<noteq> None \<or>
      length (ga_batch (gather first items)) = MAX_BATCH)"
proof -
  let ?g = "gather_item first \<lparr>ga_batch = [], ga_ended_at = None, ga_dropped = False, ga_rest = []\<rparr>"
  have "length (ga_batch ?g) \<le> MAX_BATCH" using item_updates_short [of first] by (simp add: MAX_BATCH_def)
  moreover obtain used where "items = used @ ga_rest (drain items ?g)"
      "ga_batch (drain items ?g) = ga_batch ?g @ concat (map item_updates used)"
      "ga_rest (drain items ?g) = [] \<or> stopped (drain items ?g)"
      "length (ga_batch ?g) \<le> MAX_BATCH \<longrightarrow> length (ga_batch (drain items ?g)) \<le> MAX_BATCH"
    using drain_spec by blast
  ultimately show ?thesis
    by (intro conjI exI [of _ "first # used"]) (auto simp: gather_def stopped_def)
qed

text \<open>C27. A turn of the network task sends one batch of at most 256 updates. It is made of the messages
  of the stream from the first on, in order and without a gap, and the turn stops only where the
  stream has nothing ready, has ended or failed, or the batch is full; what it did not take stays
  in the stream.\<close>

theorem batch_is_prefix:
  "length (ga_batch (gather first items)) \<le> MAX_BATCH \<and>
   (\<exists>used. first # items = used @ ga_rest (gather first items) \<and>
      ga_batch (gather first items) = concat (map item_updates used)) \<and>
   (case ga_ended_at (gather first items) of
      Some e \<Rightarrow> True
    | None \<Rightarrow> ga_rest (gather first items) = [] \<or> ga_dropped (gather first items) \<or>
        length (ga_batch (gather first items)) = MAX_BATCH)"
  using batch_is_prefix_core [of first items] by (auto split: option.split)

section \<open>From the stream to the reducer\<close>

abbreviation net_run :: "(control_code \<Rightarrow> u8) \<Rightarrow> string \<Rightarrow> net \<Rightarrow> net_event list \<Rightarrow> net option" where
  "net_run cc addr \<equiv> run_opt (net_step cc addr)"

definition from_server :: "update \<Rightarrow> bool" where
  "from_server u \<longleftrightarrow> (\<exists>s. u = SpanReceived s) \<or> (\<exists>f. u = CacheLevelReceived f) \<or> (\<exists>p. u = CacheChanceReceived p) \<or>
     (\<exists>i. u = ServerInfoReceived i)"

text \<open>The items a turn took, and the turns whose sends all found room.\<close>

definition consumed_by :: "net_event \<Rightarrow> stream_item list" where
  "consumed_by ev =
     (case ev of
        NetItems first items _ _ _ \<Rightarrow> take (Suc (length items) - length (ga_rest (gather first items))) (first # items)
      | _ \<Rightarrow> [])"

definition roomy :: "net_event \<Rightarrow> bool" where
  "roomy ev \<longleftrightarrow>
     (case ev of
        NetDial _ o1 o2 o3 \<Rightarrow> o1 = SendOk \<and> o2 = SendOk \<and> o3 = SendOk
      | NetItems _ _ o1 o2 o3 \<Rightarrow> o1 = SendOk \<and> o2 = SendOk \<and> o3 = SendOk
      | NetOutgoing _ _ o3 \<Rightarrow> o3 = SendOk)"

lemma item_updates_from_server: "filter from_server (concat (map item_updates items)) = concat (map item_updates items)"
proof (induction items)
  case (Cons item items)
  have "filter from_server (item_updates item) = item_updates item"
    by (simp add: item_updates_def resp_updates_def resp_to_update_def from_server_def
        split: stream_item.split option.split response_body.split)
  with Cons show ?case by simp
qed simp

lemma tx_send_ok [simp]: "tx_send SendOk us n = n\<lparr>nt_updates := nt_updates n @ us\<rparr>"
  by (simp add: tx_send_def)

lemma net_finish_server: "filter from_server (nt_updates (net_finish b SendOk n)) = filter from_server (nt_updates n)"
  by (simp add: net_finish_def from_server_def)

lemma net_items_server:
  "filter from_server (nt_updates (net_items first items SendOk SendOk SendOk n)) =
     filter from_server (nt_updates n) @ filter from_server (ga_batch (gather first items))"
  by (simp add: net_items_def net_finish_server Let_def from_server_def split: option.split)

lemma consumed_batch:
  "concat (map item_updates (consumed_by (NetItems first items o1 o2 o3))) = ga_batch (gather first items)"
proof -
  obtain used where used: "first # items = used @ ga_rest (gather first items)"
      "ga_batch (gather first items) = concat (map item_updates used)"
    using batch_is_prefix_core by blast
  have "Suc (length items) = length used + length (ga_rest (gather first items))"
    using arg_cong [OF used(1), of length] by simp
  then have "consumed_by (NetItems first items o1 o2 o3) = take (length used) (first # items)"
    by (simp add: consumed_by_def)
  with used show ?thesis by simp
qed

lemma net_delivers:
  assumes "net_run cc addr n evs = Some n'" "list_all roomy evs"
  shows "filter from_server (nt_updates n') =
    filter from_server (nt_updates n) @ concat (map item_updates (concat (map consumed_by evs)))"
  using assms
proof (induction evs arbitrary: n)
  case (Cons ev evs)
  then obtain n1 where n1: "net_step cc addr n ev = Some n1" "net_run cc addr n1 evs = Some n'"
    by (auto split: option.splits)
  have "filter from_server (nt_updates n1) = filter from_server (nt_updates n) @ concat (map item_updates (consumed_by ev))"
  proof (cases ev)
    case (NetDial d o1 o2 o3)
    with n1(1) Cons.prems(2) show ?thesis
      by (cases d) (auto simp: roomy_def consumed_by_def net_dial_def take_id_def from_server_def Let_def split: if_splits)
  next
    case (NetItems first items o1 o2 o3)
    with n1(1) Cons.prems(2) have "n1 = net_items first items SendOk SendOk SendOk n"
      by (auto simp: roomy_def split: if_splits)
    moreover have "filter from_server (ga_batch (gather first items)) = ga_batch (gather first items)"
      using item_updates_from_server consumed_batch by metis
    ultimately show ?thesis
      unfolding NetItems consumed_batch by (simp add: net_items_server)
  next
    case (NetOutgoing req accepted o3)
    with n1(1) Cons.prems(2) show ?thesis
      by (cases req) (auto simp: roomy_def consumed_by_def net_outgoing_def take_id_def net_finish_server Let_def split: if_splits)
  qed
  with Cons n1(2) show ?case by simp
qed simp

section \<open>Request ids\<close>

text \<open>The ids given so far are below the next one.\<close>

definition ids_ok :: "net \<Rightarrow> bool" where
  "ids_ok n \<longleftrightarrow> sorted_wrt (<) (map rq_id (nt_requests n)) \<and> (\<forall>r \<in> set (nt_requests n). rq_id r < nt_next_id n)"

definition starts_stream :: "request list \<Rightarrow> bool" where
  "starts_stream rs \<longleftrightarrow> (case rs of [] \<Rightarrow> True | r # _ \<Rightarrow> rq_body r = StartStream)"

lemma net_finish_ids [simp]:
  "nt_requests (net_finish b outcome n) = nt_requests n" "nt_next_id (net_finish b outcome n) = nt_next_id n"
  by (simp_all add: net_finish_def tx_send_def)

lemma tx_send_ids [simp]:
  "nt_requests (tx_send outcome us n) = nt_requests n" "nt_next_id (tx_send outcome us n) = nt_next_id n"
  by (simp_all add: tx_send_def)

lemma net_step_ids:
  assumes "net_step cc addr n ev = Some n'"
  shows "nt_requests n' = nt_requests n \<and> nt_next_id n' \<in> {nt_next_id n, nt_next_id n + 1} \<or>
    (\<exists>r. nt_requests n' = nt_requests n @ [r] \<and> rq_id r = nt_next_id n \<and> nt_next_id n' = nt_next_id n + 1 \<and>
      (rq_body r = StartStream \<or> nt_phase n = NetStreaming))"
proof (cases ev)
  case (NetDial d o1 o2 o3)
  with assms show ?thesis
    by (cases d) (auto simp: net_dial_def take_id_def request_new_def Let_def split: if_splits)
next
  case (NetItems first items o1 o2 o3)
  with assms show ?thesis by (auto simp: net_items_def Let_def split: if_splits option.splits)
next
  case (NetOutgoing req accepted o3)
  with assms show ?thesis
    by (cases req) (auto simp: net_outgoing_def take_id_def Let_def split: if_splits)
qed

lemma net_step_streaming:
  assumes "net_step cc addr n ev = Some n'" "nt_phase n = NetStreaming \<Longrightarrow> nt_requests n \<noteq> []" "nt_phase n' = NetStreaming"
  shows "nt_requests n' \<noteq> []"
proof (cases ev)
  case (NetDial d o1 o2 o3)
  with assms(1,3) show ?thesis
    by (cases d) (auto simp: net_dial_def take_id_def tx_send_def Let_def split: if_splits)
next
  case (NetItems first items o1 o2 o3)
  then have "nt_phase n = NetStreaming" using assms(1) by (simp split: if_splits)
  with net_step_ids [OF assms(1)] assms(2) show ?thesis by auto
next
  case (NetOutgoing req accepted o3)
  then have "nt_phase n = NetStreaming" using assms(1) by (simp split: if_splits)
  with net_step_ids [OF assms(1)] assms(2) show ?thesis by auto
qed

lemma ids_step:
  assumes "net_step cc addr n ev = Some n'" "ids_ok n" "unat (nt_next_id n) < 2 ^ 64 - 1"
  shows "ids_ok n'" "unat (nt_next_id n') \<le> unat (nt_next_id n) + 1"
proof -
  have up: "nt_next_id n < nt_next_id n + 1" "unat (nt_next_id n + 1) = unat (nt_next_id n) + 1"
  proof -
    show u: "unat (nt_next_id n + 1) = unat (nt_next_id n) + 1"
      using assms(3) by (subst unat_add_small) auto
    then show "nt_next_id n < nt_next_id n + 1" by (simp add: word_less_nat_alt)
  qed
  from net_step_ids [OF assms(1)] show "unat (nt_next_id n') \<le> unat (nt_next_id n) + 1"
    using up(2) by auto
  have "rq_id r < nt_next_id n + 1" if "r \<in> set (nt_requests n)" for r
    using assms(2) up(1) that unfolding ids_ok_def by (meson less_trans)
  with net_step_ids [OF assms(1)] show "ids_ok n'"
    using assms(2) up(1) by (auto simp: ids_ok_def sorted_wrt_append)
qed

lemma net_run_ids:
  assumes "net_run cc addr net_new evs = Some n" "length evs < 2 ^ 64 - 1"
  shows "ids_ok n \<and> unat (nt_next_id n) \<le> length evs + 1 \<and> starts_stream (nt_requests n) \<and>
    (nt_phase n = NetStreaming \<longrightarrow> nt_requests n \<noteq> [])"
  using assms
proof (induction evs arbitrary: n rule: rev_induct)
  case Nil
  then show ?case by (auto simp: net_new_def ids_ok_def starts_stream_def)
next
  case (snoc ev evs)
  then obtain n1 where n1: "net_run cc addr net_new evs = Some n1" "net_step cc addr n1 ev = Some n"
    by (auto simp: run_opt_append split: option.splits)
  with snoc have IH: "ids_ok n1" "unat (nt_next_id n1) \<le> length evs + 1" "starts_stream (nt_requests n1)"
    "nt_phase n1 = NetStreaming \<Longrightarrow> nt_requests n1 \<noteq> []" by auto
  have small: "unat (nt_next_id n1) < 2 ^ 64 - 1" using IH(2) snoc.prems(2) by simp
  have "starts_stream (nt_requests n)"
    using net_step_ids [OF n1(2)] IH(3,4) by (auto simp: starts_stream_def split: list.splits)
  with ids_step [OF n1(2) IH(1) small] IH(2) net_step_streaming [OF n1(2) IH(4)] show ?case by auto
qed

text \<open>C28. Over all its connections the console never uses a request id twice, and ids only grow: the
  requests sent carry strictly increasing ids, from 1 on, and the first request is a \<open>StartStream\<close>.\<close>

theorem request_ids_fresh:
  assumes "net_run cc addr net_new evs = Some n" "length evs < 2 ^ 64 - 1"
  shows "sorted_wrt (<) (map rq_id (nt_requests n)) \<and> distinct (map rq_id (nt_requests n)) \<and>
    (nt_requests n = [] \<or> rq_body (hd (nt_requests n)) = StartStream)"
proof -
  have s: "sorted_wrt (<) (map rq_id (nt_requests n))" "starts_stream (nt_requests n)"
    using net_run_ids [OF assms] by (simp_all add: ids_ok_def)
  moreover have "distinct (map rq_id (nt_requests n))"
    using s(1) strict_sorted_iff by blast
  ultimately show ?thesis by (auto simp: starts_stream_def split: list.splits)
qed

lemma request_ids_fresh_witness:
  "\<exists>n. net_run (\<lambda>_. 0) ''h:1'' net_new
       [NetDial (DialFailed ''refused'') SendOk SendOk SendOk, NetDial Started SendOk SendOk SendOk,
        NetOutgoing (Some (OutSetCacheLevel LfInfo)) True SendOk, NetItems ItemEnd [] SendOk SendOk SendOk,
        NetDial Started SendOk SendOk SendOk] = Some n \<and>
     map rq_id (nt_requests n) = [1, 2, 3] \<and> distinct (map rq_id (nt_requests n))"
proof -
  let ?evs = "[NetDial (DialFailed ''refused'') SendOk SendOk SendOk, NetDial Started SendOk SendOk SendOk,
        NetOutgoing (Some (OutSetCacheLevel LfInfo)) True SendOk, NetItems ItemEnd [] SendOk SendOk SendOk,
        NetDial Started SendOk SendOk SendOk]"
  obtain n where run: "net_run (\<lambda>_. 0) ''h:1'' net_new ?evs = Some n" and ids: "map rq_id (nt_requests n) = [1, 2, 3]"
    by (simp add: net_new_def net_dial_def take_id_def net_outgoing_def net_items_def gather_def gather_item_def
        net_finish_def request_new_def Let_def)
  have "length ?evs < 2 ^ 64 - 1" by simp
  from request_ids_fresh [OF run this] have "distinct (map rq_id (nt_requests n))" by blast
  with run ids show ?thesis by (intro exI [of _ n] conjI)
qed

section \<open>The installer\<close>

text \<open>C29. Whatever version string a server announces, the console runs the fixed installer command or
  refuses: the command differs from it only in a last argument of fewer than 32 digits and dots, so
  no character of the string can be one the shell acts on.\<close>

theorem installer_runs_only_versions:
  "(\<exists>e. installer_launch version = Inl e) \<or>
   installer_launch version = Inr [''-c'', ''set -o pipefail; curl -fsSL '' @ INSTALLER_URL @ '' | bash''] \<or>
   (\<exists>v. version = Some v \<and> v \<noteq> [] \<and> length v < 32 \<and> set v \<subseteq> set ''0123456789.'' \<and>
      installer_launch version = Inr [''-c'', ''set -o pipefail; curl -fsSL '' @ INSTALLER_URL @ '' | bash -s -- '' @ v])"
proof (cases version)
  case (Some v)
  have digit: "c \<in> set ''0123456789''" if "is_digit c" for c
  proof -
    have "(of_char c :: nat) \<in> {48..<58}" using that by (auto simp: is_digit_def less_eq_char_def)
    then have "(of_char c :: nat) \<in> set [48..<58]" by (simp only: set_upt)
    then have A: "char_of (of_char c :: nat) \<in> char_of ` set [48..<58 :: nat]" by (rule imageI)
    have B: "char_of ` set [48..<58 :: nat] = set ''0123456789''" by code_simp
    from A [unfolded B] show ?thesis by simp
  qed
  show ?thesis
  proof (cases "version_is_safe v")
    case True
    then have "set v \<subseteq> set ''0123456789.''"
      using digit by (fastforce simp: version_is_safe_def list_all_iff)
    with True Some show ?thesis by (simp add: installer_launch_def installer_command_def version_is_safe_def)
  qed (simp add: installer_launch_def Some)
qed (simp add: installer_launch_def installer_command_def)

text \<open>Text that drives no terminal: no control byte but newline and tabulator, and no C1 control
  character (\<open>U+0080\<close> to \<open>U+009F\<close>, the 8-bit control sequence introducer among them), which in UTF-8 is
  the byte C2 followed by one of 80 to 9F.\<close>

definition harmless :: "char \<Rightarrow> bool" where
  "harmless c \<longleftrightarrow> (let n = of_char c :: nat in (32 \<le> n \<or> n = 10 \<or> n = 9) \<and> n \<noteq> 127)"

definition c1_pair :: "char \<Rightarrow> char \<Rightarrow> bool" where
  "c1_pair a b \<longleftrightarrow> (of_char a :: nat) = 194 \<and> 128 \<le> (of_char b :: nat) \<and> (of_char b :: nat) < 160"

fun c1_free :: "string \<Rightarrow> bool" where
  "c1_free (a # b # s) = (\<not> c1_pair a b \<and> c1_free (b # s))"
| "c1_free _ = True"

definition harmless_text :: "string \<Rightarrow> bool" where
  "harmless_text s \<longleftrightarrow> list_all harmless s \<and> c1_free s"

lemma c1_free_append:
  "c1_free (s @ t) \<longleftrightarrow> c1_free s \<and> c1_free t \<and> (s \<noteq> [] \<and> t \<noteq> [] \<longrightarrow> \<not> c1_pair (last s) (hd t))"
proof (induction s)
  case (Cons a s)
  then show ?case by (cases s; cases t) auto
qed simp

text \<open>A text stays harmless when it is cut, and when another follows it that starts below 80.\<close>

lemma harmless_part: "harmless_text (p @ s @ q) \<Longrightarrow> harmless_text s"
  by (simp add: harmless_text_def c1_free_append)

lemma harmless_append:
  "harmless_text s \<Longrightarrow> harmless_text t \<Longrightarrow> (s \<noteq> [] \<Longrightarrow> t \<noteq> [] \<Longrightarrow> \<not> c1_pair (last s) (hd t)) \<Longrightarrow> harmless_text (s @ t)"
  by (simp add: harmless_text_def c1_free_append)

text \<open>The characters of a valid string: one byte below 80, or a lead byte and its continuations.\<close>

definition utf8_char :: "rust_char \<Rightarrow> bool" where
  "utf8_char c \<longleftrightarrow>
     (case c of
        [d] \<Rightarrow> (of_char d :: nat) < 128
      | [d, e] \<Rightarrow> 194 \<le> (of_char d :: nat) \<and> (of_char d :: nat) < 224 \<and> is_continuation e
      | [d, e, f] \<Rightarrow> 224 \<le> (of_char d :: nat) \<and> (of_char d :: nat) < 240 \<and> is_continuation e \<and> is_continuation f
      | [d, e, f, g] \<Rightarrow> 240 \<le> (of_char d :: nat) \<and> (of_char d :: nat) < 245 \<and> is_continuation e \<and> is_continuation f \<and> is_continuation g
      | _ \<Rightarrow> False)"

lemma utf8_char_cases [consumes 1]:
  assumes "utf8_char c"
  obtains d where "c = [d]" | d e where "c = [d, e]" | d e f where "c = [d, e, f]" | d e f g where "c = [d, e, f, g]"
  using assms by (auto simp: utf8_char_def split: list.splits)

text \<open>A text that a character may follow: no byte C2 dangles at its end.\<close>

definition whole_text :: "string \<Rightarrow> bool" where
  "whole_text s \<longleftrightarrow> harmless_text s \<and> (s \<noteq> [] \<longrightarrow> (of_char (last s) :: nat) \<noteq> 194)"

lemma whole_append: "whole_text s \<Longrightarrow> whole_text t \<Longrightarrow> whole_text (s @ t)"
  by (auto simp: whole_text_def c1_pair_def last_append intro!: harmless_append)

lemma harmless_char:
  assumes "utf8_char c" "\<not> is_control c \<or> c = newline \<or> c = tabulator"
  shows "whole_text c"
  using assms(1)
  by (cases rule: utf8_char_cases)
    (use assms in \<open>auto simp: utf8_char_def is_control_def is_continuation_def newline_def tabulator_def
      harmless_def whole_text_def harmless_text_def c1_pair_def Let_def\<close>)

lemma csi_rest_subset: "set (csi_rest cs) \<subseteq> set cs"
  by (induction cs) auto

lemma csi_skip_subset: "set (csi_skip cs) \<subseteq> set cs"
  using csi_rest_subset by (fastforce simp: csi_skip_def split: list.splits if_splits)

lemma whole_texts: "whole_text truncated_text" "length truncated_text = 15" "whole_text '' ''"
  by code_simp+

lemma sanitize_whole:
  "\<forall>c \<in> set cs. utf8_char c \<Longrightarrow> whole_text out \<Longrightarrow> whole_text (sanitize_from out cs)"
proof (induction out cs rule: sanitize_from.induct)
  case (2 out c cs)
  have skip: "\<forall>c \<in> set (csi_skip cs). utf8_char c" using 2(5) csi_skip_subset [of cs] by auto
  have char: "\<not> is_control c \<or> c = newline \<or> c = tabulator \<Longrightarrow> whole_text (out @ c)"
    using harmless_char [of c] 2(5,6) whole_append by auto
  show ?case using 2 skip char whole_append [OF 2(6) whole_texts(3)] whole_append [OF 2(6) whole_texts(1)] by auto
qed simp

lemma sanitize_length:
  "\<forall>c \<in> set cs. length c \<le> 4 \<Longrightarrow> length out \<le> MAX_BYTES + 3 \<Longrightarrow> length (sanitize_from out cs) \<le> MAX_BYTES + 18"
proof (induction out cs rule: sanitize_from.induct)
  case (2 out c cs)
  have skip: "\<forall>c \<in> set (csi_skip cs). length c \<le> 4" using 2(5) csi_skip_subset [of cs] by auto
  show ?case using 2 skip whole_texts(2) by auto
qed simp

text \<open>What is kept of the installer's output contains no control character but newlines and
  tabulators, in particular no escape sequence, and has at most 4114 bytes, however much the
  installer printed.\<close>

lemma sanitized:
  assumes "list_all utf8_char (chars s)"
  shows "whole_text (sanitize_for_modal s) \<and> length (sanitize_for_modal s) \<le> 4114"
proof -
  have "length c \<le> 4" if "c \<in> set (chars s)" for c
  proof -
    have "utf8_char c" using assms that by (simp add: list_all_iff)
    then show ?thesis by (cases rule: utf8_char_cases) simp_all
  qed
  then show ?thesis
    using assms sanitize_whole [of "chars s" "[]"] sanitize_length [of "chars s" "[]"]
    by (simp add: sanitize_for_modal_def list_all_iff MAX_BYTES_def whole_text_def harmless_text_def)
qed

end
