(* ===== verification/Wire.thy ===== *)
theory Wire
  imports Records
begin

text \<open>
  From the records of the cache to the wire (\<open>tracing-console-host/src/wire.rs\<close>): field values,
  the clock that turns monotonic instants into nanoseconds since the Unix epoch, events and spans.
  A \<open>SystemTime\<close> is the signed number of nanoseconds since the Unix epoch. The panic of
  \<open>SystemTime + Duration\<close> beyond the range of \<open>SystemTime\<close> is not modelled: an instant of the
  running process never reaches it.
\<close>

section \<open>Values\<close>

fun field_to_wire :: "field_value \<Rightarrow> wire_field_value" where
  "field_to_wire (FU64 v) = WU64 v"
| "field_to_wire (FI64 v) = WI64 v"
| "field_to_wire (FF64 v) = WF64 v"
| "field_to_wire (FBool v) = WBool v"
| "field_to_wire (FStr s) = WStr s"
| "field_to_wire (FSmallString s) = WStr s"
| "field_to_wire (FSharedString s) = WStr s"
| "field_to_wire (FString s) = WStr s"

section \<open>Time\<close>

record time_base =
  tb_instant_at_start :: instant
  tb_systime_at_start :: int

definition base_ns :: "time_base \<Rightarrow> instant \<Rightarrow> u64" where
  "base_ns base t =
     (let offset = t - tb_instant_at_start base;
          wall = tb_systime_at_start base + int offset
      in if wall < 0 then 0 else word_of_int wall)"

section \<open>Events and spans\<close>

text \<open>\<open>unfilled\<close> is the instant the lazy stand-in of an unfilled event record captured.\<close>

definition event_to_wire :: "instant \<Rightarrow> time_base \<Rightarrow> event_record \<Rightarrow> wire_event" where
  "event_to_wire unfilled base event =
     (let md = event_metadata event
      in \<lparr>we_name = md_name md,
          we_level = wl_from_tracing (md_level md),
          we_fields = map (\<lambda>(k, v). (k, field_to_wire v)) (er_fields event),
          we_recorded_at_ns = base_ns base (event_recorded_at unfilled event)\<rparr>)"

definition span_to_wire :: "instant \<Rightarrow> time_base \<Rightarrow> span_record \<Rightarrow> wire_span" where
  "span_to_wire unfilled base record =
     (let md = sr_metadata record
      in \<lparr>ws_id = sr_id record,
          ws_parent_id = sr_parent_id record,
          ws_name = md_name md,
          ws_target = md_target md,
          ws_level = wl_from_tracing (md_level md),
          ws_fields = map (\<lambda>(k, v). (k, field_to_wire v)) (sr_fields record),
          ws_events = map (\<lambda>e. event_to_wire unfilled base (rr_value e)) (sr_events record),
          ws_opened_at_ns = base_ns base (sr_opened_at record),
          ws_closed_at_ns = map_option (base_ns base) (sr_closed_at record)\<rparr>)"

lemmas wire_defs = span_to_wire_def event_to_wire_def Let_def

section \<open>What the conversion keeps\<close>


lemma field_to_wire_contains: "wire_contains (field_to_wire v) needle = field_contains v needle"
  by (cases v) simp_all



lemma span_to_wire_sel [simp]:
  "ws_id (span_to_wire u b r) = sr_id r"
  "ws_parent_id (span_to_wire u b r) = sr_parent_id r"
  "ws_level (span_to_wire u b r) = wl_from_tracing (md_level (sr_metadata r))"
  "ws_name (span_to_wire u b r) = md_name (sr_metadata r)"
  "ws_opened_at_ns (span_to_wire u b r) = base_ns b (sr_opened_at r)"
  "ws_closed_at_ns (span_to_wire u b r) = map_option (base_ns b) (sr_closed_at r)"
  by (simp_all add: wire_defs)





lemma base_ns_before_start:
  "t \<le> tb_instant_at_start b \<Longrightarrow> base_ns b t = base_ns b (tb_instant_at_start b)"
  by (simp add: base_ns_def)






end
