(* ===== verification/Server.thy ===== *)
theory Server
  imports Wire
begin

text \<open>
  The host's RPC server (\<open>tracing-console-host/src/server.rs\<close>): the level and chance settings that
  all connections share and broadcast, the requests of a connection, and the response stream of a
  \<open>StartStream\<close> request with its level filter and sampling. A handler runs as one step here, so does the
  drop of a connection with its \<open>StreamGuard\<close>, though in the code the operations of another
  connection's handler can come between theirs: \<open>ServerOps\<close> has the handlers operation by operation
  and shows what survives that and what does not. An arm of the stream's \<open>select!\<close> is one step too;
  which arm is ready, when a stream is polled or dropped and when a connection ends is up to the
  library, so these are steps that may come in any order. What the code takes from its libraries is
  the record \<open>host_env\<close>: the byte of protosocket's control codes, the value a \<open>tokio::sync::watch\<close>
  channel holds (\<open>watch_channel\<close> states its documented laws) and the stand-in instant of unfilled
  events.
\<close>

unbundle bit_operations_syntax

section \<open>Watch channels\<close>

text \<open>A channel is its initial value and the calls made on it so far, the oldest first.\<close>

datatype 'v watch_call = WatchSubscribe | WatchDrop | WatchSend 'v

record 'v watch =
  wc_initial :: 'v
  wc_calls :: "'v watch_call list"

definition watch_call :: "'v watch_call \<Rightarrow> 'v watch \<Rightarrow> 'v watch" where
  "watch_call c w = w\<lparr>wc_calls := wc_calls w @ [c]\<rparr>"

text \<open>\<open>watch::channel\<close> comes with a first receiver.\<close>

definition watch_new :: "'v \<Rightarrow> 'v watch" where
  "watch_new v = \<lparr>wc_initial = v, wc_calls = [WatchSubscribe]\<rparr>"

fun count_receivers :: "'v watch_call list \<Rightarrow> int" where
  "count_receivers [] = 0"
| "count_receivers (WatchSubscribe # cs) = 1 + count_receivers cs"
| "count_receivers (WatchDrop # cs) = count_receivers cs - 1"
| "count_receivers (WatchSend v # cs) = count_receivers cs"

definition receivers :: "'v watch \<Rightarrow> int" where
  "receivers w = count_receivers (wc_calls w)"

lemma count_receivers_append: "count_receivers (xs @ ys) = count_receivers xs + count_receivers ys"
  by (induction xs rule: count_receivers.induct) simp_all

lemma receivers_call [simp]:
  "receivers (watch_call WatchSubscribe w) = receivers w + 1"
  "receivers (watch_call WatchDrop w) = receivers w - 1"
  "receivers (watch_call (WatchSend v) w) = receivers w"
  "receivers (watch_new v) = 1"
  by (simp_all add: receivers_def watch_call_def watch_new_def count_receivers_append)

text \<open>
  The documented contract of \<open>borrow\<close>: the value last sent while the channel was open; \<open>send\<close> fails
  and stores nothing when every receiver has been dropped.
\<close>

locale watch_channel =
  fixes held :: "'v watch \<Rightarrow> 'v"
  assumes held_new: "held (watch_new v) = v"
    and held_subscribe: "held (watch_call WatchSubscribe w) = held w"
    and held_drop: "held (watch_call WatchDrop w) = held w"
    and held_send: "0 < receivers w \<Longrightarrow> held (watch_call (WatchSend v) w) = v"
    and held_lost: "receivers w \<le> 0 \<Longrightarrow> held (watch_call (WatchSend v) w) = held w"

text \<open>A channel that keeps this contract, by running the calls.\<close>

fun watch_run :: "int \<Rightarrow> 'v \<Rightarrow> 'v watch_call list \<Rightarrow> 'v" where
  "watch_run n v [] = v"
| "watch_run n v (WatchSubscribe # cs) = watch_run (n + 1) v cs"
| "watch_run n v (WatchDrop # cs) = watch_run (n - 1) v cs"
| "watch_run n v (WatchSend u # cs) = watch_run n (if 0 < n then u else v) cs"

definition watch_held :: "'v watch \<Rightarrow> 'v" where
  "watch_held w = watch_run 0 (wc_initial w) (wc_calls w)"

lemma watch_run_append:
  "watch_run n v (xs @ ys) = watch_run (n + count_receivers xs) (watch_run n v xs) ys"
  by (induction n v xs rule: watch_run.induct) (simp_all add: algebra_simps)

interpretation reference_watch: watch_channel watch_held
  by unfold_locales
    (simp_all add: watch_held_def watch_call_def watch_new_def watch_run_append receivers_def)

section \<open>The shared level and chance\<close>

record broadcast =
  cb_level_handle :: u8
  cb_level_tx :: "wire_level_filter watch"
  cb_chance_handle :: f64
  cb_chance_tx :: "f64 watch"
  cb_active_streams :: usize

definition broadcast_new :: "u8 \<Rightarrow> f64 \<Rightarrow> broadcast" where
  "broadcast_new level_handle chance_handle =
     (let initial_level = wlf_from_tracing (level_handle_get level_handle);
          initial_chance = chance_handle_get chance_handle
      in \<lparr>cb_level_handle = level_handle,
          cb_level_tx = watch_call WatchDrop (watch_new initial_level),
          cb_chance_handle = chance_handle,
          cb_chance_tx = watch_call WatchDrop (watch_new initial_chance),
          cb_active_streams = 0\<rparr>)"

definition level_store :: "level_filter \<Rightarrow> broadcast \<Rightarrow> broadcast" where
  "level_store f b = b\<lparr>cb_level_handle := level_handle_set f (cb_level_handle b)\<rparr>"

definition level_send :: "wire_level_filter \<Rightarrow> broadcast \<Rightarrow> broadcast" where
  "level_send f b = b\<lparr>cb_level_tx := watch_call (WatchSend f) (cb_level_tx b)\<rparr>"

definition chance_store :: "f64 \<Rightarrow> broadcast \<Rightarrow> broadcast" where
  "chance_store pct b = b\<lparr>cb_chance_handle := chance_handle_set pct (cb_chance_handle b)\<rparr>"

definition chance_send :: "f64 \<Rightarrow> broadcast \<Rightarrow> broadcast" where
  "chance_send pct b = b\<lparr>cb_chance_tx := watch_call (WatchSend pct) (cb_chance_tx b)\<rparr>"

text \<open>Two operations each, uninterrupted here.\<close>

definition set_level :: "wire_level_filter \<Rightarrow> broadcast \<Rightarrow> broadcast" where
  "set_level f b = level_send f (level_store (wlf_to_tracing f) b)"

definition set_chance :: "f64 \<Rightarrow> broadcast \<Rightarrow> broadcast" where
  "set_chance pct b =
     (let pct = (if f64_is_nan pct then Fin 0 else f64_clamp (Fin 0) (Fin 100) pct)
      in chance_send pct (chance_store pct b))"

definition subscribe_both :: "broadcast \<Rightarrow> broadcast" where
  "subscribe_both b =
     b\<lparr>cb_level_tx := watch_call WatchSubscribe (cb_level_tx b),
       cb_chance_tx := watch_call WatchSubscribe (cb_chance_tx b)\<rparr>"

definition drop_both :: "broadcast \<Rightarrow> broadcast" where
  "drop_both b =
     b\<lparr>cb_level_tx := watch_call WatchDrop (cb_level_tx b),
       cb_chance_tx := watch_call WatchDrop (cb_chance_tx b)\<rparr>"

definition enter_stream :: "broadcast \<Rightarrow> broadcast" where
  "enter_stream b = b\<lparr>cb_active_streams := cb_active_streams b + 1\<rparr>"

text \<open>Dropping a \<open>StreamGuard\<close>, uninterrupted; \<open>fetch_sub\<close> wraps below zero. The \<open>fetch_sub\<close> and the four
  operations of the reset are separate in the code, and in \<open>ServerOps\<close>.\<close>

definition guard_drop :: "broadcast \<Rightarrow> broadcast" where
  "guard_drop b =
     (let prev = cb_active_streams b;
          b = b\<lparr>cb_active_streams := (if prev = 0 then 2 ^ 64 - 1 else prev - 1)\<rparr>
      in if prev = 1
         then chance_send (Fin 100) (chance_store (Fin 100) (level_send LfOff (level_store OFF b)))
         else b)"

lemmas bus_defs = level_store_def level_send_def chance_store_def chance_send_def set_level_def
  set_chance_def subscribe_both_def drop_both_def enter_stream_def guard_drop_def

section \<open>Which spans a stream passes on\<close>

record stream_state =
  ss_streaming :: bool
  ss_min_level :: "wire_level option"
  ss_sampling_rate :: f64

definition stream_state_new :: stream_state where
  "stream_state_new = \<lparr>ss_streaming = False, ss_min_level = None, ss_sampling_rate = Fin 1\<rparr>"

definition level_at_least :: "level \<Rightarrow> wire_level \<Rightarrow> bool" where
  "level_at_least record_level fl = (record_level \<le> wl_to_tracing fl)"

definition sampling_hash :: "u64 \<Rightarrow> u64" where
  "sampling_hash bucket_id =
     (let x = bucket_id * 0x9E3779B97F4A7C15;
          x = x XOR drop_bit 33 x;
          x = x * 0xC2B2AE3D27D4EB4F
      in x XOR drop_bit 29 x)"

definition sampling_passes :: "span_record \<Rightarrow> f64 \<Rightarrow> bool" where
  "sampling_passes record rate =
     (if f64_le (Fin 1) rate then True
      else if f64_le rate (Fin 0) then False
      else
        let bucket_id = (case sr_parent_id record of Some p \<Rightarrow> p | None \<Rightarrow> sr_id record);
            frac = f64_div (f64_of_u64 (sampling_hash bucket_id)) (f64_of_u64 u64_max)
        in f64_lt frac rate)"

section \<open>The stream of a \<open>StartStream\<close> request\<close>

record host_env =
  he_cc :: "control_code \<Rightarrow> u8"
  he_level :: "wire_level_filter watch \<Rightarrow> wire_level_filter"
  he_chance :: "f64 watch \<Rightarrow> f64"
  he_unfilled :: instant

text \<open>\<open>CARGO_PKG_VERSION\<close> of the host crate, the version of the workspace.\<close>

definition HOST_VERSION :: string where "HOST_VERSION = ''0.1.4''"

definition STREAM_SUBSCRIBER_CAPACITY :: u64 where "STREAM_SUBSCRIBER_CAPACITY = 65536"

text \<open>
  Where the generator is: before its first poll, after each of the three messages it greets with,
  in its loop, or over. \<open>st_out\<close> is everything it yielded. \<open>st_level_seen\<close> and \<open>st_chance_seen\<close>
  count the calls each channel had received when its receiver last looked.
\<close>

datatype stream_phase = PhStart | PhGreeted | PhLevelSent | PhChanceSent | PhLoop | PhEnded

record rpc_stream =
  st_request_id :: u64
  st_phase :: stream_phase
  st_level_seen :: nat
  st_chance_seen :: nat
  st_out :: "response list"

definition yield_response :: "response \<Rightarrow> rpc_stream \<Rightarrow> rpc_stream" where
  "yield_response r st = st\<lparr>st_out := st_out st @ [response_with_id (st_request_id st) r]\<rparr>"

definition push_level :: "host_env \<Rightarrow> broadcast \<Rightarrow> rpc_stream \<Rightarrow> rpc_stream" where
  "push_level env b st =
     (yield_response (response_cache_level (he_cc env) (he_level env (cb_level_tx b))) st)
       \<lparr>st_level_seen := length (wc_calls (cb_level_tx b))\<rparr>"

definition push_chance :: "host_env \<Rightarrow> broadcast \<Rightarrow> rpc_stream \<Rightarrow> rpc_stream" where
  "push_chance env b st =
     (yield_response (response_cache_chance (he_cc env) (he_chance env (cb_chance_tx b))) st)
       \<lparr>st_chance_seen := length (wc_calls (cb_chance_tx b))\<rparr>"

text \<open>The greeting, one poll per \<open>yield\<close>; the last poll subscribes to the cache and enters the loop.\<close>

definition stream_poll :: "host_env \<Rightarrow> broadcast \<Rightarrow> rpc_stream \<Rightarrow> rpc_stream option" where
  "stream_poll env b st =
     (case st_phase st of
        PhStart \<Rightarrow> Some ((yield_response (response_server_info (he_cc env) HOST_VERSION) st)\<lparr>st_phase := PhGreeted\<rparr>)
      | PhGreeted \<Rightarrow> Some ((push_level env b st)\<lparr>st_phase := PhLevelSent\<rparr>)
      | PhLevelSent \<Rightarrow> Some ((push_chance env b st)\<lparr>st_phase := PhChanceSent\<rparr>)
      | PhChanceSent \<Rightarrow> Some (st\<lparr>st_phase := PhLoop\<rparr>)
      | PhLoop \<Rightarrow> None
      | PhEnded \<Rightarrow> None)"

text \<open>The end of the generator, returned or dropped: its receivers go with it.\<close>

definition stream_end :: "broadcast \<Rightarrow> rpc_stream \<Rightarrow> broadcast \<times> rpc_stream" where
  "stream_end b st = (drop_both b, st\<lparr>st_phase := PhEnded\<rparr>)"

text \<open>The loop over a batch, with the settings read before it.\<close>

fun batch_loop :: "host_env \<Rightarrow> time_base \<Rightarrow> wire_level option \<Rightarrow> f64 \<Rightarrow> span_record list \<Rightarrow> rpc_stream \<Rightarrow> rpc_stream" where
  "batch_loop env base min_level rate [] st = st"
| "batch_loop env base min_level rate (record # batch) st =
     (if (case min_level of Some fl \<Rightarrow> \<not> level_at_least (md_level (sr_metadata record)) fl | None \<Rightarrow> False)
      then batch_loop env base min_level rate batch st
      else if \<not> sampling_passes record rate then batch_loop env base min_level rate batch st
      else batch_loop env base min_level rate batch
             (yield_response (response_span (he_cc env) (span_to_wire (he_unfilled env) base record)) st))"

text \<open>The arms of the \<open>select!\<close>: what \<open>changed\<close> answers (false for an error), what \<open>next_batch\<close> answers.\<close>

datatype select_arm = LevelChanged bool | ChanceChanged bool | NextBatch "span_record list option"

definition stream_arm ::
  "host_env \<Rightarrow> time_base \<Rightarrow> stream_state \<Rightarrow> select_arm \<Rightarrow> broadcast \<Rightarrow> rpc_stream \<Rightarrow> (broadcast \<times> rpc_stream) option" where
  "stream_arm env base ss arm b st =
     (if st_phase st \<noteq> PhLoop then None
      else Some (case arm of
          LevelChanged ok \<Rightarrow> if \<not> ok then stream_end b st else (b, push_level env b st)
        | ChanceChanged ok \<Rightarrow> if \<not> ok then stream_end b st else (b, push_chance env b st)
        | NextBatch None \<Rightarrow> stream_end b st
        | NextBatch (Some batch) \<Rightarrow>
            if \<not> ss_streaming ss then (b, st)
            else (b, batch_loop env base (ss_min_level ss) (ss_sampling_rate ss) batch st)))"

section \<open>A connection\<close>

text \<open>\<open>cs_replies\<close> is what the connection answered at once, \<open>cs_streams\<close> the streams it spawned.\<close>

record connection =
  cs_base :: time_base
  cs_state :: stream_state
  cs_stream_guard :: bool
  cs_streams :: "rpc_stream list"
  cs_replies :: "response list"
  cs_open :: bool

definition connection_new :: "time_base \<Rightarrow> connection" where
  "connection_new base =
     \<lparr>cs_base = base, cs_state = stream_state_new, cs_stream_guard = False, cs_streams = [],
      cs_replies = [], cs_open = True\<rparr>"

definition immediate :: "response \<Rightarrow> connection \<Rightarrow> connection" where
  "immediate r c = c\<lparr>cs_replies := cs_replies c @ [r]\<rparr>"

definition rate_error :: "(control_code \<Rightarrow> u8) \<Rightarrow> f64 \<Rightarrow> response" where
  "rate_error cc rate =
     response_error cc (''sampling rate '' @ show_f64 rate @ '' out of range [0.0, 1.0]'')"

definition start_stream :: "u64 \<Rightarrow> broadcast \<Rightarrow> connection \<Rightarrow> broadcast \<times> connection" where
  "start_stream request_id b c =
     (let c = c\<lparr>cs_state := (cs_state c)\<lparr>ss_streaming := True\<rparr>\<rparr>;
          (b, c) = (if \<not> cs_stream_guard c then (enter_stream b, c\<lparr>cs_stream_guard := True\<rparr>) else (b, c));
          b = subscribe_both b;
          st = \<lparr>st_request_id = request_id, st_phase = PhStart,
                st_level_seen = length (wc_calls (cb_level_tx b)),
                st_chance_seen = length (wc_calls (cb_chance_tx b)), st_out = []\<rparr>
      in (b, c\<lparr>cs_streams := cs_streams c @ [st]\<rparr>))"

definition new_rpc :: "(control_code \<Rightarrow> u8) \<Rightarrow> request \<Rightarrow> broadcast \<Rightarrow> connection \<Rightarrow> broadcast \<times> connection" where
  "new_rpc cc msg b c =
     (let request_id = rq_id msg; ack = response_with_id request_id (response_ack cc)
      in case rq_body msg of
           StartStream \<Rightarrow> start_stream request_id b c
         | StopStream \<Rightarrow> (b, immediate ack (c\<lparr>cs_state := (cs_state c)\<lparr>ss_streaming := False\<rparr>\<rparr>))
         | SetLevel l \<Rightarrow> (b, immediate ack (c\<lparr>cs_state := (cs_state c)\<lparr>ss_min_level := Some l\<rparr>\<rparr>))
         | SetCacheLevel f \<Rightarrow> (set_level f b, immediate ack c)
         | SetCacheChance pct \<Rightarrow> (set_chance pct b, immediate ack c)
         | SetSamplingRate rate \<Rightarrow>
             if \<not> (f64_le (Fin 0) rate \<and> f64_le rate (Fin 1)) \<or> f64_is_nan rate
             then (b, immediate (response_with_id request_id (rate_error cc rate)) c)
             else (b, immediate ack (c\<lparr>cs_state := (cs_state c)\<lparr>ss_sampling_rate := rate\<rparr>\<rparr>))
         | RqNoop \<Rightarrow> (b, c))"

text \<open>The end of a connection drops its guard; its streams go on until they are polled or dropped.\<close>

definition connection_drop :: "broadcast \<Rightarrow> connection \<Rightarrow> broadcast \<times> connection" where
  "connection_drop b c =
     ((if cs_stream_guard c then guard_drop b else b), c\<lparr>cs_stream_guard := False, cs_open := False\<rparr>)"

section \<open>The server\<close>

datatype serve_error = ServeIo string | ServeRpc string

fun serve_error_display :: "serve_error \<Rightarrow> string" where
  "serve_error_display (ServeIo e) = ''io: '' @ e"
| "serve_error_display (ServeRpc e) = ''rpc: '' @ e"

record server =
  sv_base :: time_base
  sv_bus :: broadcast
  sv_conns :: "connection list"

definition serve :: "u8 \<Rightarrow> f64 \<Rightarrow> time_base \<Rightarrow> server" where
  "serve level_handle chance_handle now =
     \<lparr>sv_base = now, sv_bus = broadcast_new level_handle chance_handle, sv_conns = []\<rparr>"

datatype server_action =
    Accept
  | Rpc nat request
  | PollStream nat nat
  | SelectArm nat nat select_arm
  | DropStream nat nat
  | Disconnect nat

definition put_stream :: "nat \<Rightarrow> nat \<Rightarrow> broadcast \<times> rpc_stream \<Rightarrow> server \<Rightarrow> server" where
  "put_stream i j r s =
     (let c = sv_conns s ! i
      in s\<lparr>sv_bus := fst r, sv_conns := (sv_conns s)[i := c\<lparr>cs_streams := (cs_streams c)[j := snd r]\<rparr>]\<rparr>)"

definition put_conn :: "nat \<Rightarrow> broadcast \<times> connection \<Rightarrow> server \<Rightarrow> server" where
  "put_conn i r s = s\<lparr>sv_bus := fst r, sv_conns := (sv_conns s)[i := snd r]\<rparr>"

definition has_stream :: "server \<Rightarrow> nat \<Rightarrow> nat \<Rightarrow> bool" where
  "has_stream s i j \<longleftrightarrow> i < length (sv_conns s) \<and> j < length (cs_streams (sv_conns s ! i))"

definition has_conn :: "server \<Rightarrow> nat \<Rightarrow> bool" where
  "has_conn s i \<longleftrightarrow> i < length (sv_conns s) \<and> cs_open (sv_conns s ! i)"

text \<open>A step on a connection or stream that is not there, or is over, does not happen: \<open>None\<close>.\<close>

fun server_step :: "host_env \<Rightarrow> server \<Rightarrow> server_action \<Rightarrow> server option" where
  "server_step env s Accept = Some (s\<lparr>sv_conns := sv_conns s @ [connection_new (sv_base s)]\<rparr>)"
| "server_step env s (Rpc i msg) =
     (if has_conn s i then Some (put_conn i (new_rpc (he_cc env) msg (sv_bus s) (sv_conns s ! i)) s) else None)"
| "server_step env s (PollStream i j) =
     (if has_stream s i j
      then map_option (\<lambda>st. put_stream i j (sv_bus s, st) s) (stream_poll env (sv_bus s) (cs_streams (sv_conns s ! i) ! j))
      else None)"
| "server_step env s (SelectArm i j arm) =
     (if has_stream s i j
      then (let c = sv_conns s ! i
            in map_option (\<lambda>r. put_stream i j r s)
                 (stream_arm env (cs_base c) (cs_state c) arm (sv_bus s) (cs_streams c ! j)))
      else None)"
| "server_step env s (DropStream i j) =
     (if has_stream s i j \<and> st_phase (cs_streams (sv_conns s ! i) ! j) \<noteq> PhEnded
      then Some (put_stream i j (stream_end (sv_bus s) (cs_streams (sv_conns s ! i) ! j)) s) else None)"
| "server_step env s (Disconnect i) =
     (if has_conn s i then Some (put_conn i (connection_drop (sv_bus s) (sv_conns s ! i)) s) else None)"

end
