(* ===== verification/ServerProps.thy ===== *)
theory ServerProps
  imports Server "HOL-Library.Sublist"
begin

text \<open>
  What the host server guarantees over any run of its steps: what it answers to every request, what
  a stream sends, and that the level and chance its clients see are the ones in force.
\<close>

abbreviation server_run :: "host_env \<Rightarrow> server \<Rightarrow> server_action list \<Rightarrow> server option" where
  "server_run env \<equiv> run_opt (server_step env)"

lemma server_run_snoc:
  "server_run env s (acts @ [a]) = Some s' \<longleftrightarrow> (\<exists>s1. server_run env s acts = Some s1 \<and> server_step env s1 a = Some s')"
  by (auto simp: run_opt_append split: option.splits)

lemma server_run_induct [consumes 1, case_names start step]:
  assumes "server_run env s0 acts = Some s" "P [] s0"
    "\<And>acts s a s'. server_run env s0 acts = Some s \<Longrightarrow> P acts s \<Longrightarrow> server_step env s a = Some s' \<Longrightarrow> P (acts @ [a]) s'"
  shows "P acts s"
  using assms(1)
proof (induction acts arbitrary: s rule: rev_induct)
  case Nil
  with assms(2) show ?case by simp
next
  case (snoc a acts)
  then show ?case using assms(3) by (auto simp: server_run_snoc)
qed

section \<open>What a request is answered\<close>

text \<open>The answer and the effect on the connection's settings, by the request alone.\<close>

definition reply_of :: "(control_code \<Rightarrow> u8) \<Rightarrow> request \<Rightarrow> response list" where
  "reply_of cc msg =
     (case rq_body msg of
        RqNoop \<Rightarrow> []
      | StartStream \<Rightarrow> []
      | SetSamplingRate rate \<Rightarrow>
          [\<lparr>rs_id = rq_id msg, rs_control = cc CcNormal,
            rs_body = (if f64_le (Fin 0) rate \<and> f64_le rate (Fin 1) then RsAck
                       else RsError (''sampling rate '' @ show_f64 rate @ '' out of range [0.0, 1.0]''))\<rparr>]
      | _ \<Rightarrow> [\<lparr>rs_id = rq_id msg, rs_control = cc CcNormal, rs_body = RsAck\<rparr>])"

definition setting_of :: "request \<Rightarrow> stream_state \<Rightarrow> stream_state" where
  "setting_of msg ss =
     (case rq_body msg of
        StartStream \<Rightarrow> ss\<lparr>ss_streaming := True\<rparr>
      | StopStream \<Rightarrow> ss\<lparr>ss_streaming := False\<rparr>
      | SetLevel l \<Rightarrow> ss\<lparr>ss_min_level := Some l\<rparr>
      | SetSamplingRate rate \<Rightarrow>
          if f64_le (Fin 0) rate \<and> f64_le rate (Fin 1) then ss\<lparr>ss_sampling_rate := rate\<rparr> else ss
      | _ \<Rightarrow> ss)"

definition requests_to :: "nat \<Rightarrow> server_action list \<Rightarrow> request list" where
  "requests_to i acts = concat (map (\<lambda>a. case a of Rpc k msg \<Rightarrow> if k = i then [msg] else [] | _ \<Rightarrow> []) acts)"

lemma requests_to_simps [simp]:
  "requests_to i [] = []"
  "requests_to i (xs @ ys) = requests_to i xs @ requests_to i ys"
  "requests_to i [a] = (case a of Rpc k msg \<Rightarrow> if k = i then [msg] else [] | _ \<Rightarrow> [])"
  by (simp_all add: requests_to_def)

definition stream_ids :: "connection \<Rightarrow> u64 list" where
  "stream_ids c = map st_request_id (cs_streams c)"

lemma new_rpc_connection:
  "new_rpc cc msg b c = (b', c') \<Longrightarrow>
     cs_replies c' = cs_replies c @ reply_of cc msg \<and>
     cs_state c' = setting_of msg (cs_state c) \<and>
     stream_ids c' = stream_ids c @ (if rq_body msg = StartStream then [rq_id msg] else []) \<and>
     cs_base c' = cs_base c \<and> cs_open c' = cs_open c"
  by (cases "rq_body msg")
    (auto simp: new_rpc_def reply_of_def setting_of_def start_stream_def immediate_def response_defs
      rate_error_def f64_is_nan_def stream_ids_def Let_def split: if_splits)

lemma request_id_stays:
  "st_request_id (yield_response r st) = st_request_id st"
  "st_request_id (push_level env b st) = st_request_id st"
  "st_request_id (push_chance env b st) = st_request_id st"
  "st_request_id (snd (stream_end b st)) = st_request_id st"
  by (simp_all add: yield_response_def push_level_def push_chance_def stream_end_def)

lemma batch_loop_id: "st_request_id (batch_loop env base ml rate batch st) = st_request_id st"
  by (induction env base ml rate batch st rule: batch_loop.induct) (simp_all add: request_id_stays)

lemma stream_poll_id: "stream_poll env b st = Some st' \<Longrightarrow> st_request_id st' = st_request_id st"
  by (auto simp: stream_poll_def request_id_stays split: stream_phase.splits)

lemma stream_arm_id: "stream_arm env base ss arm b st = Some r \<Longrightarrow> st_request_id (snd r) = st_request_id st"
  by (auto simp: stream_arm_def request_id_stays batch_loop_id split: if_splits select_arm.splits option.splits)

section \<open>The shape of a step\<close>

inductive stream_effect :: "host_env \<Rightarrow> connection \<Rightarrow> broadcast \<Rightarrow> rpc_stream \<Rightarrow> broadcast \<times> rpc_stream \<Rightarrow> bool"
  for env c b st where
  poll: "stream_poll env b st = Some st' \<Longrightarrow> stream_effect env c b st (b, st')"
| arm: "stream_arm env (cs_base c) (cs_state c) a b st = Some r \<Longrightarrow> stream_effect env c b st r"
| drop: "st_phase st \<noteq> PhEnded \<Longrightarrow> stream_effect env c b st (stream_end b st)"

lemma server_step_cases [consumes 1, case_names accept rpc stream disconnect]:
  assumes "server_step env s a = Some s'"
  obtains "a = Accept" "s' = s\<lparr>sv_conns := sv_conns s @ [connection_new (sv_base s)]\<rparr>"
  | i msg where "a = Rpc i msg" "has_conn s i" "s' = put_conn i (new_rpc (he_cc env) msg (sv_bus s) (sv_conns s ! i)) s"
  | i j r where "a = PollStream i j \<or> (\<exists>m. a = SelectArm i j m) \<or> a = DropStream i j" "has_stream s i j"
      "s' = put_stream i j r s" "stream_effect env (sv_conns s ! i) (sv_bus s) (cs_streams (sv_conns s ! i) ! j) r"
  | i where "a = Disconnect i" "has_conn s i" "s' = put_conn i (connection_drop (sv_bus s) (sv_conns s ! i)) s"
proof (cases a)
  case Accept
  with assms show ?thesis by (intro that(1)) simp_all
next
  case (Rpc i msg)
  with assms show ?thesis by (intro that(2)) (auto split: if_splits)
next
  case (PollStream i j)
  with assms show ?thesis by (auto split: if_splits intro!: that(3) stream_effect.poll)
next
  case (SelectArm i j m)
  with assms show ?thesis by (auto simp: Let_def split: if_splits intro!: that(3) stream_effect.arm)
next
  case (DropStream i j)
  with assms show ?thesis by (auto split: if_splits intro!: that(3) stream_effect.drop)
next
  case (Disconnect i)
  with assms show ?thesis by (intro that(4)) (auto split: if_splits)
qed

lemma stream_effect_id: "stream_effect env c b st r \<Longrightarrow> st_request_id (snd r) = st_request_id st"
  by (induction rule: stream_effect.induct) (auto simp: stream_poll_id stream_arm_id request_id_stays)

lemma put_sel [simp]:
  "sv_conns (put_conn i r s) = (sv_conns s)[i := snd r]"
  "sv_bus (put_conn i r s) = fst r"
  "sv_bus (put_stream i j r2 s) = fst r2"
  "sv_base (put_conn i r s) = sv_base s"
  "sv_base (put_stream i j r2 s) = sv_base s"
  "sv_conns (put_stream i j r2 s) =
     (sv_conns s)[i := (sv_conns s ! i)\<lparr>cs_streams := (cs_streams (sv_conns s ! i))[j := snd r2]\<rparr>]"
  by (simp_all add: put_conn_def put_stream_def Let_def)

lemma connection_drop_sel [simp]:
  "cs_streams (snd (connection_drop b c)) = cs_streams c"
  "cs_replies (snd (connection_drop b c)) = cs_replies c"
  "cs_state (snd (connection_drop b c)) = cs_state c"
  "cs_base (snd (connection_drop b c)) = cs_base c"
  "\<not> cs_stream_guard (snd (connection_drop b c))"
  "\<not> cs_open (snd (connection_drop b c))"
  by (simp_all add: connection_drop_def)

section \<open>Requests and answers\<close>

definition answers_to :: "host_env \<Rightarrow> time_base \<Rightarrow> request list \<Rightarrow> connection \<Rightarrow> bool" where
  "answers_to env base msgs c \<longleftrightarrow>
     cs_replies c = concat (map (reply_of (he_cc env)) msgs) \<and>
     cs_state c = fold setting_of msgs stream_state_new \<and>
     stream_ids c = map rq_id (filter (\<lambda>m. rq_body m = StartStream) msgs) \<and> cs_base c = base"

lemma answers_new: "answers_to env base [] (connection_new base)"
  by (simp add: answers_to_def connection_new_def stream_ids_def)

lemma answers_rpc:
  assumes "answers_to env base msgs c"
  shows "answers_to env base (msgs @ [msg]) (snd (new_rpc (he_cc env) msg b c))"
proof -
  obtain b' c' where e: "new_rpc (he_cc env) msg b c = (b', c')" by fastforce
  from new_rpc_connection [OF e] assms show ?thesis by (simp add: answers_to_def e)
qed

lemma answers_frame:
  "answers_to env base msgs c \<Longrightarrow> cs_replies c' = cs_replies c \<Longrightarrow> cs_state c' = cs_state c \<Longrightarrow>
   cs_base c' = cs_base c \<Longrightarrow> stream_ids c' = stream_ids c \<Longrightarrow> answers_to env base msgs c'"
  by (simp add: answers_to_def)

lemma stream_ids_update:
  "j < length (cs_streams c) \<Longrightarrow> st_request_id st = st_request_id (cs_streams c ! j) \<Longrightarrow>
     stream_ids (c\<lparr>cs_streams := (cs_streams c)[j := st]\<rparr>) = stream_ids c"
  by (simp add: stream_ids_def map_update) (metis list_update_id nth_map)

text \<open>Requests to a connection arrive only after it was accepted.\<close>

lemma server_answers:
  assumes "server_run env (serve lh ch now) acts = Some s"
  shows "sv_base s = now \<and>
    (\<forall>i. if i < length (sv_conns s) then answers_to env now (requests_to i acts) (sv_conns s ! i)
         else requests_to i acts = [])"
  using assms
proof (induction rule: server_run_induct)
  case start
  then show ?case by (simp add: serve_def)
next
  case (step acts s a s')
  then have base: "sv_base s = now"
    and here: "\<And>i. i < length (sv_conns s) \<Longrightarrow> answers_to env now (requests_to i acts) (sv_conns s ! i)"
    and none: "\<And>i. \<not> i < length (sv_conns s) \<Longrightarrow> requests_to i acts = []"
    by (simp, presburger, presburger)
  from step.hyps(2) show ?case
  proof (cases rule: server_step_cases)
    case accept
    then show ?thesis using here none base answers_new by (auto simp: nth_append less_Suc_eq)
  next
    case (rpc i msg)
    then show ?thesis using here none base answers_rpc [OF here [of i]]
      by (auto simp: has_conn_def nth_list_update)
  next
    case (stream i j r)
    then have ids: "stream_ids ((sv_conns s ! i)\<lparr>cs_streams := (cs_streams (sv_conns s ! i))[j := snd r]\<rparr>) =
        stream_ids (sv_conns s ! i)"
      by (intro stream_ids_update stream_effect_id) (auto simp: has_stream_def)
    have i: "i < length (sv_conns s)" using stream(2) by (simp add: has_stream_def)
    have "answers_to env now (requests_to i acts)
        ((sv_conns s ! i)\<lparr>cs_streams := (cs_streams (sv_conns s ! i))[j := snd r]\<rparr>)"
      using ids by (intro answers_frame [OF here [OF i]]) simp_all
    moreover have "requests_to k (acts @ [a]) = requests_to k acts" for k using stream(1) by auto
    ultimately show ?thesis using here none base i by (simp add: stream(3) nth_list_update)
  next
    case (disconnect i)
    then have i: "i < length (sv_conns s)" by (simp add: has_conn_def)
    have "answers_to env now (requests_to i acts) (snd (connection_drop (sv_bus s) (sv_conns s ! i)))"
      by (intro answers_frame [OF here [OF i]]) (simp_all add: stream_ids_def)
    then show ?thesis using here none base i disconnect by (simp add: nth_list_update)
  qed
qed

definition answered :: "request \<Rightarrow> bool" where
  "answered msg \<longleftrightarrow> rq_body msg \<noteq> RqNoop \<and> rq_body msg \<noteq> StartStream"

lemma reply_ids: "map rs_id (concat (map (reply_of cc) msgs)) = map rq_id (filter answered msgs)"
proof (induction msgs)
  case (Cons msg msgs)
  then show ?case by (cases "rq_body msg") (simp_all add: reply_of_def answered_def)
qed simp

lemma reply_errors:
  "r \<in> set (concat (map (reply_of cc) msgs)) \<Longrightarrow>
     rs_body r = RsAck \<or>
     (\<exists>m rate. m \<in> set msgs \<and> rq_body m = SetSamplingRate rate \<and> rs_id r = rq_id m \<and>
        \<not> (f64_le (Fin 0) rate \<and> f64_le rate (Fin 1)))"
proof (induction msgs)
  case (Cons m msgs)
  have "r \<in> set (reply_of cc m) \<Longrightarrow> rs_body r = RsAck \<or>
      (\<exists>rate. rq_body m = SetSamplingRate rate \<and> rs_id r = rq_id m \<and>
        \<not> (f64_le (Fin 0) rate \<and> f64_le rate (Fin 1)))"
    by (cases "rq_body m") (auto simp: reply_of_def)
  with Cons show ?case by auto
qed simp

lemma settings_rate:
  "f64_le (Fin 0) (ss_sampling_rate ss) \<and> f64_le (ss_sampling_rate ss) (Fin 1) \<Longrightarrow>
     f64_le (Fin 0) (ss_sampling_rate (fold setting_of msgs ss)) \<and>
     f64_le (ss_sampling_rate (fold setting_of msgs ss)) (Fin 1)"
proof (induction msgs arbitrary: ss)
  case (Cons m msgs)
  then show ?case by (cases "rq_body m") (simp_all add: setting_of_def)
qed simp

text \<open>C10. Every request of a connection but \<open>Noop\<close> and \<open>StartStream\<close> is answered exactly once, in
  the order of the requests and under the request's id; the answer is an \<open>Ack\<close> unless the request
  asks for a sampling rate outside [0, 1] (NaN included), which leaves the rate as it was; every
  \<open>StartStream\<close> opens one stream that answers under its id; and the connection's settings are what
  its requests, in order, make of the initial ones, whatever the other connections and the streams
  do meanwhile.\<close>

theorem requests_answered:
  assumes "server_run env (serve lh ch now) acts = Some s" "i < length (sv_conns s)"
  shows "map rs_id (cs_replies (sv_conns s ! i)) = map rq_id (filter answered (requests_to i acts)) \<and>
    stream_ids (sv_conns s ! i) = map rq_id (filter (\<lambda>m. rq_body m = StartStream) (requests_to i acts)) \<and>
    cs_state (sv_conns s ! i) = fold setting_of (requests_to i acts) stream_state_new \<and>
    f64_le (Fin 0) (ss_sampling_rate (cs_state (sv_conns s ! i))) \<and>
    f64_le (ss_sampling_rate (cs_state (sv_conns s ! i))) (Fin 1) \<and>
    cs_replies (sv_conns s ! i) = concat (map (reply_of (he_cc env)) (requests_to i acts))"
proof -
  have a: "answers_to env now (requests_to i acts) (sv_conns s ! i)"
    using server_answers [OF assms(1)] assms(2) by presburger
  have "f64_le (Fin 0) (Fin 1) \<and> f64_le (Fin 1) (Fin 1)" by code_simp
  with settings_rate [of stream_state_new "requests_to i acts"] a reply_ids show ?thesis
    by (simp add: answers_to_def stream_state_new_def)
qed

definition example_env :: host_env where
  "example_env =
     \<lparr>he_cc = (\<lambda>c. case c of CcNormal \<Rightarrow> 0 | CcCancel \<Rightarrow> 1 | CcEnd \<Rightarrow> 2), he_level = watch_held,
      he_chance = watch_held, he_unfilled = 0\<rparr>"

definition example_base :: time_base where
  "example_base = \<lparr>tb_instant_at_start = 100, tb_systime_at_start = 1700000000000000000\<rparr>"

definition rpc_at :: "nat \<Rightarrow> u64 \<Rightarrow> request_body \<Rightarrow> server_action" where
  "rpc_at i n b = Rpc i \<lparr>rq_id = n, rq_control = 0, rq_body = b\<rparr>"

lemmas run_simps = serve_def has_conn_def has_stream_def connection_new_def stream_state_new_def new_rpc_def
  start_stream_def immediate_def Let_def

lemma requests_answered_witness:
  "\<exists>s. server_run example_env (serve 0 (Fin 100) example_base)
       [Accept, rpc_at 0 1 StartStream, rpc_at 0 2 (SetSamplingRate (Fin 2)), rpc_at 0 3 RqNoop, rpc_at 0 4 StopStream] = Some s \<and>
     map rs_id (cs_replies (sv_conns s ! 0)) = [2, 4] \<and> stream_ids (sv_conns s ! 0) = [1]"
proof -
  let ?acts = "[Accept, rpc_at 0 1 StartStream, rpc_at 0 2 (SetSamplingRate (Fin 2)), rpc_at 0 3 RqNoop, rpc_at 0 4 StopStream]"
  have "f64_le (Fin 0) (Fin 2)" "\<not> f64_le (Fin 2) (Fin 1)" by code_simp+
  then obtain s where run: "server_run example_env (serve 0 (Fin 100) example_base) ?acts = Some s" and "0 < length (sv_conns s)"
    by (simp add: run_simps rpc_at_def)
  from requests_answered [OF this]
  have "map rs_id (cs_replies (sv_conns s ! 0)) = map rq_id (filter answered (requests_to 0 ?acts))"
    "stream_ids (sv_conns s ! 0) = map rq_id (filter (\<lambda>m. rq_body m = StartStream) (requests_to 0 ?acts))"
    by blast+
  then have ids: "map rs_id (cs_replies (sv_conns s ! 0)) = [2, 4]" "stream_ids (sv_conns s ! 0) = [1]"
    by (simp_all add: requests_to_def rpc_at_def answered_def)
  show ?thesis by (intro exI [of _ s] conjI) (rule run, rule ids(1), rule ids(2))
qed

section \<open>Guards, receivers and the settings in force\<close>

definition live :: "rpc_stream \<Rightarrow> bool" where
  "live st \<longleftrightarrow> st_phase st \<noteq> PhEnded"

definition conn_live :: "connection \<Rightarrow> nat" where
  "conn_live c = length (filter live (cs_streams c))"

definition live_streams :: "server \<Rightarrow> nat" where
  "live_streams s = sum_list (map conn_live (sv_conns s))"

definition watching :: "server \<Rightarrow> connection list" where
  "watching s = filter cs_stream_guard (sv_conns s)"

text \<open>The value last sent, heard or not.\<close>

fun last_send :: "'v \<Rightarrow> 'v watch_call list \<Rightarrow> 'v" where
  "last_send v [] = v"
| "last_send v (WatchSend u # cs) = last_send u cs"
| "last_send v (c # cs) = last_send v cs"

definition sent_last :: "'v watch \<Rightarrow> 'v" where
  "sent_last w = last_send (wc_initial w) (wc_calls w)"

lemma last_send_append: "last_send v (xs @ ys) = last_send (last_send v xs) ys"
  by (induction v xs rule: last_send.induct) simp_all

lemma sent_last_call [simp]:
  "sent_last (watch_call WatchSubscribe w) = sent_last w"
  "sent_last (watch_call WatchDrop w) = sent_last w"
  "sent_last (watch_call (WatchSend v) w) = v"
  "sent_last (watch_new v) = v"
  by (simp_all add: sent_last_def watch_call_def watch_new_def last_send_append)

text \<open>The streams of a connection that is open hold its guard, the counter counts the guards, every
  live stream has its two receivers, and what was sent last is what is in force.\<close>

definition bus_in_force :: "broadcast \<Rightarrow> bool" where
  "bus_in_force b \<longleftrightarrow>
     sent_last (cb_level_tx b) = wlf_from_tracing (level_handle_get (cb_level_handle b)) \<and>
     sent_last (cb_chance_tx b) = chance_handle_get (cb_chance_handle b)"

definition conn_ok :: "connection \<Rightarrow> bool" where
  "conn_ok c \<longleftrightarrow> (cs_stream_guard c \<longleftrightarrow> cs_open c \<and> cs_streams c \<noteq> [])"

definition server_ok :: "server \<Rightarrow> bool" where
  "server_ok s \<longleftrightarrow>
     cb_active_streams (sv_bus s) = length (watching s) \<and>
     receivers (cb_level_tx (sv_bus s)) = int (live_streams s) \<and>
     receivers (cb_chance_tx (sv_bus s)) = int (live_streams s) \<and>
     bus_in_force (sv_bus s) \<and> list_all conn_ok (sv_conns s)"

lemma length_filter_update:
  "i < length xs \<Longrightarrow>
     length (filter P (xs[i := x])) + (if P (xs ! i) then 1 else 0) = length (filter P xs) + (if P x then 1 else 0)"
proof (induction xs arbitrary: i)
  case (Cons a xs)
  then show ?case by (cases i) auto
qed simp

lemma sum_map_update:
  "i < length xs \<Longrightarrow> sum_list (map f (xs[i := x])) + (f (xs ! i) :: nat) = sum_list (map f xs) + f x"
proof (induction xs arbitrary: i)
  case (Cons a xs)
  then show ?case by (cases i) auto
qed simp

lemma server_ok_init: "server_ok (serve lh ch now)"
  by (simp add: server_ok_def serve_def broadcast_new_def watching_def live_streams_def bus_in_force_def Let_def)

lemma clamp_pct_code: "(if f64_is_nan pct then Fin 0 else f64_clamp (Fin 0) (Fin 100) pct) = clamp_pct pct"
  by (simp add: clamp_pct_def)

lemma clamp_pct_again [simp]: "clamp_pct (clamp_pct x) = clamp_pct x"
  using clamp_pct_bounds [of x] by (intro clamp_pct_inside) simp_all

lemma clamp_100 [simp]: "clamp_pct (Fin 100) = Fin 100"
  by code_simp

text \<open>What each operation does to the bus.\<close>

lemma bus_level: "bus_in_force b \<Longrightarrow> bus_in_force (set_level f b)"
  by (simp add: bus_in_force_def set_level_def level_send_def level_store_def level_handle_get_def level_handle_set_def)

lemma bus_chance: "bus_in_force b \<Longrightarrow> bus_in_force (set_chance pct b)"
  unfolding set_chance_def Let_def clamp_pct_code
  by (simp add: bus_in_force_def chance_send_def chance_store_def chance_handle_get_def chance_handle_set_def)

lemma bus_guard: "bus_in_force b \<Longrightarrow> bus_in_force (guard_drop b)"
  by (simp add: bus_in_force_def bus_defs level_handle_get_def level_handle_set_def chance_handle_get_def
      chance_handle_set_def wlf_from_tracing_def Let_def)

lemma bus_same:
  "bus_in_force (subscribe_both b) = bus_in_force b"
  "bus_in_force (drop_both b) = bus_in_force b"
  "bus_in_force (enter_stream b) = bus_in_force b"
  by (simp_all add: bus_in_force_def subscribe_both_def drop_both_def enter_stream_def)

definition bus_receivers :: "broadcast \<Rightarrow> int \<Rightarrow> bool" where
  "bus_receivers b n \<longleftrightarrow> receivers (cb_level_tx b) = n \<and> receivers (cb_chance_tx b) = n"

lemma bus_receivers_ops:
  "bus_receivers (set_level f b) n = bus_receivers b n"
  "bus_receivers (set_chance pct b) n = bus_receivers b n"
  "bus_receivers (guard_drop b) n = bus_receivers b n"
  "bus_receivers (enter_stream b) n = bus_receivers b n"
  "bus_receivers b n \<Longrightarrow> bus_receivers (subscribe_both b) (n + 1)"
  "bus_receivers b n \<Longrightarrow> bus_receivers (drop_both b) (n - 1)"
  by (simp_all add: bus_receivers_def bus_defs Let_def)

lemma active_ops:
  "cb_active_streams (set_level f b) = cb_active_streams b"
  "cb_active_streams (set_chance pct b) = cb_active_streams b"
  "cb_active_streams (subscribe_both b) = cb_active_streams b"
  "cb_active_streams (drop_both b) = cb_active_streams b"
  "cb_active_streams (enter_stream b) = cb_active_streams b + 1"
  "0 < cb_active_streams b \<Longrightarrow> cb_active_streams (guard_drop b) = cb_active_streams b - 1"
  by (simp_all add: bus_defs Let_def)

text \<open>One connection's part of the invariant moves with the bus.\<close>

definition joint_ok :: "broadcast \<Rightarrow> connection \<Rightarrow> broadcast \<Rightarrow> connection \<Rightarrow> bool" where
  "joint_ok b c b' c' \<longleftrightarrow>
     conn_ok c' \<and> bus_in_force b' \<and>
     cb_active_streams b' + (if cs_stream_guard c then 1 else 0) = cb_active_streams b + (if cs_stream_guard c' then 1 else 0) \<and>
     (\<forall>n. bus_receivers b n \<longrightarrow> bus_receivers b' (n + int (conn_live c') - int (conn_live c)))"

lemma joint_keeps:
  assumes "server_ok s" "i < length (sv_conns s)" "joint_ok (sv_bus s) (sv_conns s ! i) b' c'"
  shows "server_ok (s\<lparr>sv_bus := b', sv_conns := (sv_conns s)[i := c']\<rparr>)"
proof -
  have "cb_active_streams b' = length (filter cs_stream_guard ((sv_conns s)[i := c']))"
    using assms length_filter_update [OF assms(2), of cs_stream_guard c']
    by (simp add: server_ok_def joint_ok_def watching_def split: if_splits)
  moreover have "bus_receivers b' (int (sum_list (map conn_live ((sv_conns s)[i := c']))))"
  proof -
    have "bus_receivers (sv_bus s) (int (live_streams s))"
      using assms(1) by (simp add: server_ok_def bus_receivers_def)
    with assms(3) have "bus_receivers b' (int (live_streams s) + int (conn_live c') - int (conn_live (sv_conns s ! i)))"
      by (simp add: joint_ok_def)
    then show ?thesis using sum_map_update [OF assms(2), of conn_live c']
      by (simp add: live_streams_def bus_receivers_def)
  qed
  moreover have "list_all conn_ok ((sv_conns s)[i := c'])"
    using assms by (auto simp: server_ok_def joint_ok_def list_all_iff dest!: set_update_subset_insert [THEN subsetD])
  ultimately show ?thesis using assms(3)
    by (simp add: server_ok_def watching_def live_streams_def bus_receivers_def joint_ok_def)
qed

lemma bus_receivers_cong: "bus_receivers b n \<Longrightarrow> n = m \<Longrightarrow> bus_receivers b m" by simp

text \<open>Each step moves the bus and one connection jointly.\<close>

lemma joint_settings:
  "conn_ok c \<Longrightarrow> bus_in_force b \<Longrightarrow> conn_ok c' \<Longrightarrow> cs_stream_guard c' = cs_stream_guard c \<Longrightarrow> conn_live c' = conn_live c \<Longrightarrow>
   bus_in_force b' \<Longrightarrow> cb_active_streams b' = cb_active_streams b \<Longrightarrow> (\<And>n. bus_receivers b' n = bus_receivers b n) \<Longrightarrow>
   joint_ok b c b' c'"
  by (simp add: joint_ok_def)

lemma conn_live_add: "live st \<Longrightarrow> conn_live (c\<lparr>cs_streams := cs_streams c @ [st]\<rparr>) = conn_live c + 1"
  by (simp add: conn_live_def)

lemma joint_start_stream:
  assumes "conn_ok c" "bus_in_force b" "cs_open c"
  shows "joint_ok b c (fst (start_stream n b c)) (snd (start_stream n b c))"
  using assms bus_receivers_ops(5) [of "enter_stream b"] bus_receivers_ops(5) [of b]
  by (simp add: start_stream_def joint_ok_def conn_ok_def conn_live_def live_def bus_same active_ops
      bus_receivers_ops Let_def)

lemma joint_rpc:
  assumes "conn_ok c" "bus_in_force b" "cs_open c"
  shows "joint_ok b c (fst (new_rpc cc msg b c)) (snd (new_rpc cc msg b c))"
proof (cases "rq_body msg")
  case StartStream
  then show ?thesis using joint_start_stream [OF assms] by (simp add: new_rpc_def Let_def)
qed (use assms in \<open>auto simp: new_rpc_def Let_def immediate_def conn_ok_def conn_live_def active_ops bus_receivers_ops
      bus_level bus_chance intro!: joint_settings\<close>)

lemma stream_effect_bus:
  "stream_effect env c b st r \<Longrightarrow>
     (if live (snd r) then fst r = b else fst r = drop_both b) \<and> live st"
proof (induction rule: stream_effect.induct)
  case (poll st')
  then show ?case by (auto simp: stream_poll_def live_def yield_response_def push_level_def push_chance_def
        split: stream_phase.splits)
next
  case (arm a r)
  have "st_phase (batch_loop env (cs_base c) ml rate batch st) = st_phase st" for ml rate batch
    by (induction env "cs_base c" ml rate batch st rule: batch_loop.induct) (simp_all add: yield_response_def)
  with arm show ?case
    by (auto simp: stream_arm_def live_def stream_end_def push_level_def push_chance_def yield_response_def
        split: if_splits select_arm.splits option.splits)
next
  case drop
  then show ?case by (simp add: stream_end_def live_def)
qed

lemma joint_stream:
  assumes "conn_ok c" "bus_in_force b" "j < length (cs_streams c)" "stream_effect env c b (cs_streams c ! j) r"
  shows "joint_ok b c (fst r) (c\<lparr>cs_streams := (cs_streams c)[j := snd r]\<rparr>)"
proof -
  note e = stream_effect_bus [OF assms(4)]
  have live: "conn_live (c\<lparr>cs_streams := (cs_streams c)[j := snd r]\<rparr>) + 1 = conn_live c + (if live (snd r) then 1 else 0)"
    using length_filter_update [OF assms(3), of live "snd r"] e by (simp add: conn_live_def)
  have ok: "conn_ok (c\<lparr>cs_streams := (cs_streams c)[j := snd r]\<rparr>)" using assms(1) by (simp add: conn_ok_def)
  show ?thesis
  proof (cases "live (snd r)")
    case True
    with e live ok assms(2) show ?thesis by (simp add: joint_ok_def)
  next
    case False
    with live have n: "n + int (conn_live (c\<lparr>cs_streams := (cs_streams c)[j := snd r]\<rparr>)) - int (conn_live c) = n - 1" for n
      by simp
    from False e ok assms(2) show ?thesis
      by (simp add: joint_ok_def n bus_same active_ops bus_receivers_ops(6))
  qed
qed

lemma joint_drop:
  assumes "conn_ok c" "bus_in_force b" "cs_stream_guard c \<Longrightarrow> 0 < cb_active_streams b"
  shows "joint_ok b c (fst (connection_drop b c)) (snd (connection_drop b c))"
  using assms by (simp add: joint_ok_def connection_drop_def conn_ok_def conn_live_def bus_guard active_ops bus_receivers_ops)

lemma server_ok_conn: "server_ok s \<Longrightarrow> i < length (sv_conns s) \<Longrightarrow> conn_ok (sv_conns s ! i) \<and> bus_in_force (sv_bus s)"
  by (simp add: server_ok_def list_all_length)

lemma guard_counted: "server_ok s \<Longrightarrow> i < length (sv_conns s) \<Longrightarrow> cs_stream_guard (sv_conns s ! i) \<Longrightarrow> 0 < cb_active_streams (sv_bus s)"
  by (auto simp: server_ok_def watching_def filter_empty_conv)

lemma server_step_ok:
  assumes "server_step env s a = Some s'" "server_ok s"
  shows "server_ok s'"
  using assms(1)
proof (cases rule: server_step_cases)
  case accept
  then show ?thesis using assms(2)
    by (simp add: server_ok_def watching_def live_streams_def connection_new_def conn_live_def conn_ok_def)
next
  case (rpc i msg)
  then have i: "i < length (sv_conns s)" "cs_open (sv_conns s ! i)" by (simp_all add: has_conn_def)
  from joint_keeps [OF assms(2) i(1) joint_rpc] server_ok_conn [OF assms(2) i(1)] i rpc show ?thesis
    by (simp add: put_conn_def)
next
  case (stream i j r)
  then have i: "i < length (sv_conns s)" "j < length (cs_streams (sv_conns s ! i))" by (simp_all add: has_stream_def)
  from joint_keeps [OF assms(2) i(1) joint_stream [OF _ _ i(2) stream(4)]] server_ok_conn [OF assms(2) i(1)] stream show ?thesis
    by (simp add: put_stream_def Let_def)
next
  case (disconnect i)
  then have i: "i < length (sv_conns s)" by (simp add: has_conn_def)
  from joint_keeps [OF assms(2) i joint_drop] server_ok_conn [OF assms(2) i] guard_counted [OF assms(2) i] disconnect
  show ?thesis by (simp add: put_conn_def)
qed

lemma server_run_ok: "server_run env (serve lh ch now) acts = Some s \<Longrightarrow> server_ok s"
proof (induction rule: server_run_induct)
  case start
  show ?case by (rule server_ok_init)
next
  case (step acts s a s')
  then show ?case using server_step_ok by blast
qed

definition consoles :: "server \<Rightarrow> connection list" where
  "consoles s = filter (\<lambda>c. cs_open c \<and> cs_streams c \<noteq> []) (sv_conns s)"

lemma watching_consoles: "server_ok s \<Longrightarrow> watching s = consoles s"
  by (auto simp: server_ok_def watching_def consoles_def conn_ok_def list_all_iff intro: filter_cong)

end
