(* ===== verification/ServerStreams.thy ===== *)
theory ServerStreams
  imports ServerProps
begin

text \<open>
  What reaches a client on its stream: exactly the spans that pass the connection's settings, in
  order; and the level and chance of the host, in force unless a change was lost. Plus what sampling
  decides.
\<close>

section \<open>Spans\<close>

definition passes :: "stream_state \<Rightarrow> span_record \<Rightarrow> bool" where
  "passes ss r \<longleftrightarrow>
     (\<forall>fl. ss_min_level ss = Some fl \<longrightarrow> md_level (sr_metadata r) \<le> wl_to_tracing fl) \<and>
     sampling_passes r (ss_sampling_rate ss)"

text \<open>What the actions make of a connection's settings and of one of its streams.\<close>

definition feed :: "nat \<Rightarrow> nat \<Rightarrow> server_action \<Rightarrow> stream_state \<times> span_record list \<Rightarrow> stream_state \<times> span_record list" where
  "feed i j a z =
     (case a of
        Rpc k msg \<Rightarrow> if k = i then (setting_of msg (fst z), snd z) else z
      | SelectArm k l (NextBatch (Some batch)) \<Rightarrow>
          if k = i \<and> l = j \<and> ss_streaming (fst z) then (fst z, snd z @ filter (passes (fst z)) batch) else z
      | _ \<Rightarrow> z)"

definition spans_of :: "response list \<Rightarrow> wire_span list" where
  "spans_of out = concat (map (\<lambda>r. case rs_body r of RsSpan w \<Rightarrow> [w] | _ \<Rightarrow> []) out)"

definition levels_of :: "response list \<Rightarrow> wire_level_filter list" where
  "levels_of out = concat (map (\<lambda>r. case rs_body r of RsCacheLevel f \<Rightarrow> [f] | _ \<Rightarrow> []) out)"

definition chances_of :: "response list \<Rightarrow> f64 list" where
  "chances_of out = concat (map (\<lambda>r. case rs_body r of RsCacheChance p \<Rightarrow> [p] | _ \<Rightarrow> []) out)"

lemma out_simps [simp]:
  "spans_of [] = []" "levels_of [] = []" "chances_of [] = []"
  "spans_of (xs @ ys) = spans_of xs @ spans_of ys"
  "levels_of (xs @ ys) = levels_of xs @ levels_of ys"
  "chances_of (xs @ ys) = chances_of xs @ chances_of ys"
  "spans_of [response_with_id n (response_span cc w)] = [w]"
  "spans_of [response_with_id n (response_cache_level cc f)] = []"
  "spans_of [response_with_id n (response_cache_chance cc p)] = []"
  "spans_of [response_with_id n (response_server_info cc v)] = []"
  "levels_of [response_with_id n (response_span cc w)] = []"
  "levels_of [response_with_id n (response_cache_level cc f)] = [f]"
  "levels_of [response_with_id n (response_cache_chance cc p)] = []"
  "levels_of [response_with_id n (response_server_info cc v)] = []"
  "chances_of [response_with_id n (response_span cc w)] = []"
  "chances_of [response_with_id n (response_cache_level cc f)] = []"
  "chances_of [response_with_id n (response_cache_chance cc p)] = [p]"
  "chances_of [response_with_id n (response_server_info cc v)] = []"
  by (simp_all add: spans_of_def levels_of_def chances_of_def response_defs)

lemma batch_loop_out:
  "st_out (batch_loop env base ml rate batch st) =
     st_out st @ map (\<lambda>r. response_with_id (st_request_id st) (response_span (he_cc env) (span_to_wire (he_unfilled env) base r)))
       (filter (passes \<lparr>ss_streaming = True, ss_min_level = ml, ss_sampling_rate = rate\<rparr>) batch)"
  by (induction env base ml rate batch st rule: batch_loop.induct)
    (auto simp: yield_response_def passes_def level_at_least_def split: option.splits)

lemma batch_loop_sel [simp]:
  "st_phase (batch_loop env base ml rate batch st) = st_phase st"
  "st_level_seen (batch_loop env base ml rate batch st) = st_level_seen st"
  "st_chance_seen (batch_loop env base ml rate batch st) = st_chance_seen st"
  by (induction env base ml rate batch st rule: batch_loop.induct) (simp_all add: yield_response_def)

lemma spans_of_map: "spans_of (map (\<lambda>r. response_with_id n (response_span cc (g r))) rs) = map g rs"
  by (induction rs) (simp_all add: spans_of_def response_defs)

lemma news_of_map:
  "levels_of (map (\<lambda>r. response_with_id n (response_span cc (g r))) rs) = []"
  "chances_of (map (\<lambda>r. response_with_id n (response_span cc (g r))) rs) = []"
  by (induction rs) (simp_all add: levels_of_def chances_of_def response_defs)

lemmas stream_defs = stream_poll_def stream_arm_def stream_end_def push_level_def push_chance_def yield_response_def

lemma poll_spans: "stream_poll env b st = Some st' \<Longrightarrow> spans_of (st_out st') = spans_of (st_out st)"
  by (auto simp: stream_defs split: stream_phase.splits)

definition batch_passed :: "stream_state \<Rightarrow> select_arm \<Rightarrow> span_record list" where
  "batch_passed ss a =
     (case a of NextBatch (Some batch) \<Rightarrow> if ss_streaming ss then filter (passes ss) batch else [] | _ \<Rightarrow> [])"

lemma passes_settings:
  "passes \<lparr>ss_streaming = True, ss_min_level = ss_min_level ss, ss_sampling_rate = ss_sampling_rate ss\<rparr> = passes ss"
  by (simp add: passes_def fun_eq_iff)

lemma arm_spans:
  "stream_arm env base ss a b st = Some r \<Longrightarrow>
     spans_of (st_out (snd r)) = spans_of (st_out st) @ map (span_to_wire (he_unfilled env) base) (batch_passed ss a)"
  by (auto simp: stream_defs batch_passed_def batch_loop_out spans_of_map passes_settings
      split: if_splits select_arm.splits option.splits)

lemma feed_settings: "fst (fold (feed i j) acts z) = fold setting_of (requests_to i acts) (fst z)"
proof (induction acts rule: rev_induct)
  case (snoc a acts)
  then show ?case
    by (cases a) (auto simp: feed_def split: select_arm.splits option.splits)
qed simp

definition stream_at :: "server \<Rightarrow> nat \<Rightarrow> nat \<Rightarrow> rpc_stream" where
  "stream_at s i j = cs_streams (sv_conns s ! i) ! j"

definition sent_to :: "nat \<Rightarrow> nat \<Rightarrow> server_action list \<Rightarrow> span_record list" where
  "sent_to i j acts = snd (fold (feed i j) acts (stream_state_new, []))"

definition settings_at :: "nat \<Rightarrow> server_action list \<Rightarrow> stream_state" where
  "settings_at i acts = fold setting_of (requests_to i acts) stream_state_new"

lemma sent_to_snoc:
  "sent_to i j (acts @ [a]) = sent_to i j acts @
     (case a of SelectArm k l m \<Rightarrow> if k = i \<and> l = j then batch_passed (settings_at i acts) m else [] | _ \<Rightarrow> [])"
  using feed_settings [of i j acts "(stream_state_new, [])"]
  by (cases a) (auto simp: sent_to_def settings_at_def feed_def batch_passed_def split: select_arm.splits option.splits)

text \<open>How a step changes the streams that are there, and which streams it adds.\<close>

lemma new_rpc_streams:
  "\<exists>new. cs_streams (snd (new_rpc cc msg b c)) = cs_streams c @ new \<and> (\<forall>st \<in> set new. st_out st = [] \<and> st_phase st = PhStart)"
  by (cases "rq_body msg") (auto simp: new_rpc_def start_stream_def immediate_def Let_def)

lemma stream_step_cases [consumes 2, case_names same fresh moved]:
  assumes "server_step env s a = Some s'" "has_stream s' i j"
  obtains "has_stream s i j" "stream_at s' i j = stream_at s i j"
      "\<forall>m. a = SelectArm i j m \<longrightarrow> False"
  | "\<not> has_stream s i j" "st_out (stream_at s' i j) = []" "st_phase (stream_at s' i j) = PhStart"
      "\<forall>m. a = SelectArm i j m \<longrightarrow> False"
  | r where "has_stream s i j" "stream_at s' i j = snd r" "sv_bus s' = fst r"
      "stream_effect env (sv_conns s ! i) (sv_bus s) (stream_at s i j) r"
      "a = PollStream i j \<and> (\<exists>st'. stream_poll env (sv_bus s) (stream_at s i j) = Some st' \<and> r = (sv_bus s, st')) \<or>
       a = DropStream i j \<and> r = stream_end (sv_bus s) (stream_at s i j) \<or>
       (\<exists>m. a = SelectArm i j m \<and>
         stream_arm env (cs_base (sv_conns s ! i)) (cs_state (sv_conns s ! i)) m (sv_bus s) (stream_at s i j) = Some r)"
proof (cases a)
  case Accept
  with assms show ?thesis
    by (intro that(1)) (auto simp: has_stream_def stream_at_def nth_append connection_new_def less_Suc_eq split: if_splits)
next
  case (Rpc k msg)
  then have s': "s' = put_conn k (new_rpc (he_cc env) msg (sv_bus s) (sv_conns s ! k)) s" and k: "k < length (sv_conns s)"
    using assms(1) by (auto simp: has_conn_def split: if_splits)
  obtain new where new: "cs_streams (snd (new_rpc (he_cc env) msg (sv_bus s) (sv_conns s ! k))) = cs_streams (sv_conns s ! k) @ new"
      "\<forall>st \<in> set new. st_out st = [] \<and> st_phase st = PhStart"
    using new_rpc_streams by metis
  show ?thesis
  proof (cases "has_stream s i j")
    case True
    then show ?thesis using Rpc new(1) k
      by (intro that(1)) (auto simp: s' has_stream_def stream_at_def nth_list_update nth_append)
  next
    case False
    with assms(2) k new(1) have i: "k = i" "j - length (cs_streams (sv_conns s ! i)) < length new"
        "\<not> j < length (cs_streams (sv_conns s ! i))"
      by (auto simp: s' has_stream_def nth_list_update split: if_splits)
    then have "stream_at s' i j \<in> set new" using k new(1)
      by (simp add: s' stream_at_def nth_append)
    with new(2) False Rpc show ?thesis by (intro that(2)) auto
  qed
next
  case (PollStream k l)
  then obtain st' where p: "stream_poll env (sv_bus s) (stream_at s k l) = Some st'" "has_stream s k l"
      "s' = put_stream k l (sv_bus s, st') s"
    using assms(1) by (auto simp: stream_at_def split: if_splits)
  then show ?thesis
  proof (cases "k = i \<and> l = j")
    case True
    with p PollStream show ?thesis
      by (intro that(3) [of "(sv_bus s, st')"]) (auto simp: stream_at_def has_stream_def intro: stream_effect.poll)
  next
    case False
    with p PollStream assms(2) show ?thesis
      by (intro that(1)) (auto simp: stream_at_def has_stream_def nth_list_update split: if_splits)
  qed
next
  case (SelectArm k l m)
  then obtain r where p: "stream_arm env (cs_base (sv_conns s ! k)) (cs_state (sv_conns s ! k)) m (sv_bus s) (stream_at s k l) = Some r"
      "has_stream s k l" "s' = put_stream k l r s"
    using assms(1) by (auto simp: stream_at_def Let_def split: if_splits)
  then show ?thesis
  proof (cases "k = i \<and> l = j")
    case True
    with p SelectArm show ?thesis
      by (intro that(3) [of r]) (auto simp: stream_at_def has_stream_def intro: stream_effect.arm)
  next
    case False
    with p SelectArm assms(2) show ?thesis
      by (intro that(1)) (auto simp: stream_at_def has_stream_def nth_list_update split: if_splits)
  qed
next
  case (DropStream k l)
  then have p: "st_phase (stream_at s k l) \<noteq> PhEnded" "has_stream s k l"
      "s' = put_stream k l (stream_end (sv_bus s) (stream_at s k l)) s"
    using assms(1) by (auto simp: stream_at_def split: if_splits)
  then show ?thesis
  proof (cases "k = i \<and> l = j")
    case True
    with p DropStream show ?thesis
      by (intro that(3) [of "stream_end (sv_bus s) (stream_at s i j)"])
        (auto simp: stream_at_def has_stream_def intro: stream_effect.drop)
  next
    case False
    with p DropStream assms(2) show ?thesis
      by (intro that(1)) (auto simp: stream_at_def has_stream_def nth_list_update split: if_splits)
  qed
next
  case (Disconnect k)
  with assms show ?thesis
    by (intro that(1)) (auto simp: has_stream_def stream_at_def has_conn_def nth_list_update split: if_splits)
qed

lemma stream_end_out [simp]:
  "st_out (snd (stream_end b st)) = st_out st" "st_level_seen (snd (stream_end b st)) = st_level_seen st"
  "st_chance_seen (snd (stream_end b st)) = st_chance_seen st" "st_phase (snd (stream_end b st)) = PhEnded"
  by (simp_all add: stream_end_def)

lemma arm_streams: "server_step env s (SelectArm i j m) = Some s' \<Longrightarrow> has_stream s i j \<and> has_stream s' i j"
  by (auto simp: has_stream_def Let_def split: if_splits)

lemma run_settings:
  "server_run env (serve lh ch now) acts = Some s \<Longrightarrow> i < length (sv_conns s) \<Longrightarrow>
     cs_state (sv_conns s ! i) = settings_at i acts \<and> cs_base (sv_conns s ! i) = now"
  using server_answers [of env lh ch now acts s] by (auto simp: answers_to_def settings_at_def split: if_splits)

lemma has_stream_step:
  assumes "server_step env s a = Some s'" "has_stream s i j"
  shows "has_stream s' i j"
  using assms(1)
proof (cases rule: server_step_cases)
  case accept
  with assms(2) show ?thesis by (auto simp: has_stream_def nth_append)
next
  case (rpc k msg)
  obtain new where "cs_streams (snd (new_rpc (he_cc env) msg (sv_bus s) (sv_conns s ! k))) = cs_streams (sv_conns s ! k) @ new"
    using new_rpc_streams by metis
  with rpc assms(2) show ?thesis by (cases "k = i") (auto simp: has_stream_def has_conn_def)
next
  case (stream k l r)
  with assms(2) show ?thesis by (auto simp: has_stream_def nth_list_update)
next
  case (disconnect k)
  with assms(2) show ?thesis by (cases "k = i") (auto simp: has_stream_def)
qed

definition tagged :: "rpc_stream \<Rightarrow> bool" where
  "tagged st \<longleftrightarrow> (\<forall>r \<in> set (st_out st). rs_id r = st_request_id st)"

lemma tagged_yield: "tagged st \<Longrightarrow> tagged (yield_response r st)"
  by (auto simp: tagged_def yield_response_def response_with_id_def)

lemma tagged_same: "st_out st' = st_out st \<Longrightarrow> st_request_id st' = st_request_id st \<Longrightarrow> tagged st \<Longrightarrow> tagged st'"
  by (simp add: tagged_def)

lemma tagged_push: "tagged st \<Longrightarrow> tagged (push_level env b st)" "tagged st \<Longrightarrow> tagged (push_chance env b st)"
  by (auto simp: push_level_def push_chance_def intro: tagged_same [OF _ _ tagged_yield])

lemma tagged_batch: "tagged st \<Longrightarrow> tagged (batch_loop env base ml rate batch st)"
  by (induction env base ml rate batch st rule: batch_loop.induct) (simp_all add: tagged_yield split: option.splits)

lemma tagged_effect: "stream_effect env c b st r \<Longrightarrow> tagged st \<Longrightarrow> tagged (snd r)"
proof (induction rule: stream_effect.induct)
  case (poll st')
  then show ?case
    by (auto simp: stream_poll_def split: stream_phase.splits intro: tagged_push tagged_same [OF _ _ tagged_yield]
        tagged_same [OF _ _ tagged_push(1)] tagged_same [OF _ _ tagged_push(2)] tagged_same)
next
  case (arm a r)
  then show ?case
    by (auto simp: stream_arm_def stream_end_def intro: tagged_push tagged_batch tagged_same
        split: if_splits select_arm.splits option.splits)
next
  case drop
  then show ?case by (auto simp: stream_end_def intro: tagged_same)
qed

lemma stream_spans:
  assumes "server_run env (serve lh ch now) acts = Some s"
  shows "if has_stream s i j
    then spans_of (st_out (stream_at s i j)) = map (span_to_wire (he_unfilled env) now) (sent_to i j acts)
    else sent_to i j acts = []"
  using assms
proof (induction rule: server_run_induct)
  case start
  then show ?case by (simp add: serve_def has_stream_def sent_to_def)
next
  case (step acts s a s')
  show ?case
  proof (cases "has_stream s' i j")
    case False
    with has_stream_step [OF step.hyps(2)] have "\<not> has_stream s i j" by blast
    with False step show ?thesis
      by (auto simp: sent_to_snoc dest: arm_streams split: server_action.splits)
  next
    case True
    from step.hyps(2) True show ?thesis
    proof (cases rule: stream_step_cases)
      case same
      with step.IH True show ?thesis by (auto simp: sent_to_snoc split: server_action.splits)
    next
      case fresh
      with step.IH True show ?thesis by (auto simp: sent_to_snoc split: server_action.splits)
    next
      case (moved r)
      from moved(1) have i: "i < length (sv_conns s)" by (simp add: has_stream_def)
      from run_settings [OF step.hyps(1) i] step.IH moved True show ?thesis
        by (elim disjE conjE exE) (simp_all add: sent_to_snoc poll_spans arm_spans)
    qed
  qed
qed

lemma stream_ids_kept:
  assumes "server_run env (serve lh ch now) acts = Some s" "has_stream s i j"
  shows "tagged (stream_at s i j)"
  using assms
proof (induction rule: server_run_induct)
  case start
  then show ?case by (simp add: serve_def has_stream_def)
next
  case (step acts s a s')
  from step.hyps(2) step.prems show ?case
  proof (cases rule: stream_step_cases)
    case same
    with step.IH show ?thesis by simp
  next
    case fresh
    then show ?thesis by (simp add: tagged_def)
  next
    case (moved r)
    with step.IH show ?thesis by (simp add: tagged_effect)
  qed
qed

text \<open>C11. A stream sends exactly the spans of the batches it took while streaming was on that are at
  least as severe as the level asked for and pass the sampling rate, both as the connection's last
  requests before that batch set them, each once and in the order the cache delivered them, and
  every message carries the id of the \<open>StartStream\<close> request.\<close>

theorem stream_sends_passing:
  assumes "server_run env (serve lh ch now) acts = Some s" "has_stream s i j"
  shows "spans_of (st_out (stream_at s i j)) = map (span_to_wire (he_unfilled env) now) (sent_to i j acts) \<and>
    st_request_id (stream_at s i j) = map rq_id (filter (\<lambda>m. rq_body m = StartStream) (requests_to i acts)) ! j \<and>
    (\<forall>r \<in> set (st_out (stream_at s i j)). rs_id r = st_request_id (stream_at s i j))"
proof -
  have i: "i < length (sv_conns s)" "j < length (cs_streams (sv_conns s ! i))"
    using assms(2) by (simp_all add: has_stream_def)
  have "answers_to env now (requests_to i acts) (sv_conns s ! i)"
    using server_answers [OF assms(1)] i(1) by presburger
  then have "st_request_id (stream_at s i j) = map rq_id (filter (\<lambda>m. rq_body m = StartStream) (requests_to i acts)) ! j"
    using i(2) by (simp add: answers_to_def stream_ids_def stream_at_def flip: nth_map)
  with stream_spans [OF assms(1), of i j] stream_ids_kept [OF assms] assms(2) show ?thesis by (simp add: tagged_def)
qed

definition example_span :: "u64 \<Rightarrow> level \<Rightarrow> span_record" where
  "example_span n l =
     \<lparr>sr_id = n, sr_parent_id = None, sr_metadata = \<lparr>md_name = ''a'', md_target = ''t'', md_level = l\<rparr>,
      sr_fields = [], sr_events = [], sr_opened_at = 150, sr_closed_at = Some 400\<rparr>"

definition example_stream :: "server_action list" where
  "example_stream =
     [Accept, rpc_at 0 1 StartStream, rpc_at 0 2 (SetLevel WInfo), PollStream 0 0, PollStream 0 0, PollStream 0 0,
      PollStream 0 0, SelectArm 0 0 (NextBatch (Some [example_span 1 INFO, example_span 2 TRACE, example_span 3 ERROR]))]"

lemma stream_sends_passing_witness:
  "\<exists>s. server_run example_env (serve 0 (Fin 100) example_base) example_stream = Some s \<and>
     map ws_id (spans_of (st_out (stream_at s 0 0))) = [1, 3]"
proof -
  obtain s where run: "server_run example_env (serve 0 (Fin 100) example_base) example_stream = Some s"
    and st: "has_stream s 0 0"
    by (simp add: run_simps rpc_at_def example_stream_def stream_poll_def push_level_def push_chance_def
        yield_response_def stream_arm_def)
  from stream_sends_passing [OF run st]
  have "spans_of (st_out (stream_at s 0 0)) = map (span_to_wire (he_unfilled example_env) example_base) (sent_to 0 0 example_stream)"
    by blast
  moreover have "map sr_id (sent_to 0 0 example_stream) = [1, 3]"
    by (simp add: sent_to_def example_stream_def feed_def rpc_at_def setting_of_def passes_def example_span_def
        stream_state_new_def sampling_passes_def f64_le_refl level_order)
  ultimately have "map ws_id (spans_of (st_out (stream_at s 0 0))) = [1, 3]"
    by (simp add: comp_def)
  with run show ?thesis by (intro exI [of _ s] conjI)
qed

section \<open>The level and the chance a client sees\<close>

text \<open>The laws of a watch channel determine what it holds.\<close>

context watch_channel
begin

lemma held_run: "held \<lparr>wc_initial = v, wc_calls = WatchSubscribe # cs\<rparr> = watch_run 1 v cs"
proof (induction cs rule: rev_induct)
  case Nil
  show ?case using held_new [of v] by (simp add: watch_new_def)
next
  case (snoc c cs)
  let ?w = "\<lparr>wc_initial = v, wc_calls = WatchSubscribe # cs\<rparr>"
  have w: "\<lparr>wc_initial = v, wc_calls = WatchSubscribe # cs @ [x]\<rparr> = watch_call x ?w" for x
    by (simp add: watch_call_def)
  have r: "receivers ?w = 1 + count_receivers cs" by (simp add: receivers_def)
  show ?case
    using snoc r held_subscribe [of ?w] held_drop [of ?w] held_send [of ?w] held_lost [of ?w]
    by (cases c) (auto simp: w watch_run_append not_less)
qed

lemma held_unique: "wc_calls w = WatchSubscribe # cs \<Longrightarrow> held w = watch_held w"
  using held_run [of "wc_initial w" cs] by (cases w) (simp add: watch_held_def)

end

text \<open>A change is lost when it is sent while no receiver is open.\<close>

fun last_heard :: "int \<Rightarrow> bool \<Rightarrow> 'v watch_call list \<Rightarrow> bool" where
  "last_heard n h [] = h"
| "last_heard n h (WatchSubscribe # cs) = last_heard (n + 1) h cs"
| "last_heard n h (WatchDrop # cs) = last_heard (n - 1) h cs"
| "last_heard n h (WatchSend v # cs) = last_heard n (0 < n) cs"

definition heard :: "'v watch \<Rightarrow> bool" where
  "heard w \<longleftrightarrow> last_heard 0 True (wc_calls w)"

definition quiet_since :: "nat \<Rightarrow> 'v watch \<Rightarrow> bool" where
  "quiet_since n w \<longleftrightarrow> (\<forall>c \<in> set (drop n (wc_calls w)). \<forall>v. c \<noteq> WatchSend v)"

lemma last_heard_sent: "last_heard n h cs \<Longrightarrow> h \<longrightarrow> u = v \<Longrightarrow> watch_run n u cs = last_send v cs"
  by (induction n h cs arbitrary: u v rule: last_heard.induct) auto

lemma heard_sent: "heard w \<Longrightarrow> watch_held w = sent_last w"
  by (simp add: heard_def watch_held_def sent_last_def last_heard_sent)

lemma watch_run_quiet: "\<forall>c \<in> set cs. \<forall>v. c \<noteq> WatchSend v \<Longrightarrow> watch_run n u cs = u"
  by (induction n u cs rule: watch_run.induct) auto

definition watch_before :: "nat \<Rightarrow> 'v watch \<Rightarrow> 'v watch" where
  "watch_before n w = w\<lparr>wc_calls := take n (wc_calls w)\<rparr>"

lemma quiet_held:
  assumes "quiet_since n w"
  shows "watch_held (watch_before n w) = watch_held w"
proof -
  have "watch_held w = watch_run (0 + count_receivers (take n (wc_calls w)))
      (watch_run 0 (wc_initial w) (take n (wc_calls w))) (drop n (wc_calls w))"
    using watch_run_append [of 0 "wc_initial w" "take n (wc_calls w)" "drop n (wc_calls w)"]
    by (simp add: watch_held_def)
  then show ?thesis using assms by (simp add: watch_run_quiet quiet_since_def watch_before_def watch_held_def)
qed

text \<open>Channels only grow.\<close>

definition grows :: "'v watch \<Rightarrow> 'v watch \<Rightarrow> bool" where
  "grows w w' \<longleftrightarrow> wc_initial w' = wc_initial w \<and> (\<exists>ys. wc_calls w' = wc_calls w @ ys)"

definition bus_grows :: "broadcast \<Rightarrow> broadcast \<Rightarrow> bool" where
  "bus_grows b b' \<longleftrightarrow> grows (cb_level_tx b) (cb_level_tx b') \<and> grows (cb_chance_tx b) (cb_chance_tx b')"

lemma grows_refl [intro, simp]: "grows w w"
  by (simp add: grows_def)

lemma grows_trans: "grows u v \<Longrightarrow> grows v w \<Longrightarrow> grows u w"
  by (auto simp: grows_def)

lemma grows_call [intro, simp]: "grows w (watch_call c w)"
  by (simp add: grows_def watch_call_def)

lemma bus_grows_refl [intro, simp]: "bus_grows b b"
  by (simp add: bus_grows_def)

lemma bus_grows_trans: "bus_grows a b \<Longrightarrow> bus_grows b c \<Longrightarrow> bus_grows a c"
  by (auto simp: bus_grows_def intro: grows_trans)

lemma bus_grows_ops:
  "bus_grows b (set_level f b)" "bus_grows b (set_chance pct b)" "bus_grows b (guard_drop b)"
  "bus_grows b (enter_stream b)" "bus_grows b (subscribe_both b)" "bus_grows b (drop_both b)"
  by (simp_all add: bus_grows_def bus_defs Let_def)

lemma new_rpc_grows: "bus_grows b (fst (new_rpc cc msg b c))"
  using bus_grows_trans [OF bus_grows_ops(4) bus_grows_ops(5), of b]
  by (cases "rq_body msg") (auto simp: new_rpc_def start_stream_def Let_def bus_grows_ops)

lemma server_step_grows:
  assumes "server_step env s a = Some s'"
  shows "bus_grows (sv_bus s) (sv_bus s')"
  using assms
proof (cases rule: server_step_cases)
  case (stream i j r)
  then show ?thesis using stream_effect_bus [OF stream(4)] bus_grows_ops(6)
    by (simp split: if_splits)
qed (auto simp: new_rpc_grows connection_drop_def bus_grows_ops)

definition started :: "'v watch \<Rightarrow> bool" where
  "started w \<longleftrightarrow> (\<exists>cs. wc_calls w = WatchSubscribe # cs)"

lemma started_grows: "started w \<Longrightarrow> grows w w' \<Longrightarrow> started w'"
  by (auto simp: started_def grows_def)

lemma server_run_started:
  "server_run env (serve lh ch now) acts = Some s \<Longrightarrow> started (cb_level_tx (sv_bus s)) \<and> started (cb_chance_tx (sv_bus s))"
proof (induction rule: server_run_induct)
  case start
  show ?case by (simp add: serve_def broadcast_new_def watch_new_def watch_call_def started_def)
next
  case (step acts s a s')
  then show ?case using server_step_grows [OF step.hyps(2)] by (auto simp: bus_grows_def intro: started_grows)
qed

text \<open>What a receiver saw last is what the channel held at its last look.\<close>

definition news_ok :: "'v watch \<Rightarrow> nat \<Rightarrow> 'v list \<Rightarrow> bool \<Rightarrow> bool" where
  "news_ok w seen news due \<longleftrightarrow>
     seen \<le> length (wc_calls w) \<and> (news \<noteq> [] \<longrightarrow> last news = watch_held (watch_before seen w)) \<and> (due \<longrightarrow> news \<noteq> [])"

lemma news_ok_grows: "news_ok w seen news due \<Longrightarrow> grows w w' \<Longrightarrow> news_ok w' seen news due"
  by (auto simp: news_ok_def grows_def watch_before_def watch_held_def)

lemma news_ok_look: "news_ok w (length (wc_calls w)) (news @ [watch_held w]) due"
  by (simp add: news_ok_def watch_before_def watch_held_def)

lemma news_ok_fresh: "news_ok w (length (wc_calls w)) [] False"
  by (simp add: news_ok_def)

lemma news_ok_weaken: "news_ok w seen news due \<Longrightarrow> (due' \<Longrightarrow> due) \<Longrightarrow> news_ok w seen news due'"
  by (auto simp: news_ok_def)

definition stream_ok :: "broadcast \<Rightarrow> rpc_stream \<Rightarrow> bool" where
  "stream_ok b st \<longleftrightarrow>
     news_ok (cb_level_tx b) (st_level_seen st) (levels_of (st_out st)) (st_phase st \<in> {PhLevelSent, PhChanceSent, PhLoop}) \<and>
     news_ok (cb_chance_tx b) (st_chance_seen st) (chances_of (st_out st)) (st_phase st \<in> {PhChanceSent, PhLoop})"

lemma stream_ok_grows: "stream_ok b st \<Longrightarrow> bus_grows b b' \<Longrightarrow> stream_ok b' st"
  by (auto simp: stream_ok_def bus_grows_def intro: news_ok_grows)

definition env_reads :: "host_env \<Rightarrow> broadcast \<Rightarrow> bool" where
  "env_reads env b \<longleftrightarrow> he_level env (cb_level_tx b) = watch_held (cb_level_tx b) \<and>
     he_chance env (cb_chance_tx b) = watch_held (cb_chance_tx b)"

lemma stream_ok_look:
  assumes "stream_ok b st" "env_reads env b"
  shows "stream_ok b (push_level env b st)" "stream_ok b (push_chance env b st)"
    "st_phase st = PhGreeted \<Longrightarrow> stream_ok b ((push_level env b st)\<lparr>st_phase := PhLevelSent\<rparr>)"
    "st_phase st = PhLevelSent \<Longrightarrow> stream_ok b ((push_chance env b st)\<lparr>st_phase := PhChanceSent\<rparr>)"
  using assms by (auto simp: stream_ok_def env_reads_def push_level_def push_chance_def yield_response_def
      news_ok_look intro: news_ok_weaken)

lemma stream_ok_batch: "stream_ok b st \<Longrightarrow> stream_ok b (batch_loop env base ml rate batch st)"
  by (simp add: stream_ok_def batch_loop_out news_of_map)

lemma stream_ok_end: "stream_ok b st \<Longrightarrow> stream_ok b (st\<lparr>st_phase := PhEnded\<rparr>)"
  by (auto simp: stream_ok_def intro: news_ok_weaken)

lemma stream_effect_ok:
  assumes "stream_effect env c b st r" "stream_ok b st" "env_reads env b"
  shows "stream_ok (fst r) (snd r)"
  using assms
proof (induction rule: stream_effect.induct)
  case (poll st')
  have "st_phase st = PhStart \<Longrightarrow> stream_ok b ((yield_response (response_server_info (he_cc env) HOST_VERSION) st)\<lparr>st_phase := PhGreeted\<rparr>)"
    "st_phase st = PhChanceSent \<Longrightarrow> stream_ok b (st\<lparr>st_phase := PhLoop\<rparr>)"
    using poll(2) by (auto simp: stream_ok_def yield_response_def)
  with poll stream_ok_look [OF poll(2,3)] show ?case
    by (auto simp: stream_poll_def split: stream_phase.splits)
next
  case (arm a r)
  have "stream_ok (fst (stream_end b st)) (snd (stream_end b st))"
    using stream_ok_grows [OF stream_ok_end [OF arm(2)] bus_grows_ops(6)] by (simp add: stream_end_def)
  with arm stream_ok_look(1,2) [OF arm(2,3)] stream_ok_batch [OF arm(2)] show ?case
    by (auto simp: stream_arm_def split: if_splits select_arm.splits option.splits)
next
  case drop
  then show ?case using stream_ok_grows [OF stream_ok_end bus_grows_ops(6)] by (simp add: stream_end_def)
qed

lemma new_rpc_stream_ok:
  "\<exists>new. cs_streams (snd (new_rpc cc msg b c)) = cs_streams c @ new \<and>
     (\<forall>st \<in> set new. stream_ok (fst (new_rpc cc msg b c)) st)"
  by (cases "rq_body msg")
    (auto simp: new_rpc_def start_stream_def immediate_def Let_def stream_ok_def news_ok_fresh)

definition streams_ok :: "server \<Rightarrow> bool" where
  "streams_ok s \<longleftrightarrow> (\<forall>c \<in> set (sv_conns s). \<forall>st \<in> set (cs_streams c). stream_ok (sv_bus s) st)"

lemma streams_ok_at: "streams_ok s \<Longrightarrow> has_stream s i j \<Longrightarrow> stream_ok (sv_bus s) (stream_at s i j)"
  unfolding streams_ok_def has_stream_def stream_at_def by (meson nth_mem)

lemma streams_ok_put:
  assumes "streams_ok s" "bus_grows (sv_bus s) b'" "\<forall>st \<in> set (cs_streams c'). st \<in> set (cs_streams (sv_conns s ! i)) \<or> stream_ok b' st"
    "i < length (sv_conns s)"
  shows "streams_ok (s\<lparr>sv_bus := b', sv_conns := (sv_conns s)[i := c']\<rparr>)"
proof -
  have old: "stream_ok b' st" if "c \<in> set (sv_conns s)" "st \<in> set (cs_streams c)" for c st
    using assms(1,2) that by (auto simp: streams_ok_def intro: stream_ok_grows)
  have "stream_ok b' st" if "c \<in> set ((sv_conns s)[i := c'])" "st \<in> set (cs_streams c)" for c st
  proof (cases "c = c'")
    case True
    with that assms(3) old [OF nth_mem [OF assms(4)]] show ?thesis by blast
  next
    case False
    with that(1) have "c \<in> set (sv_conns s)" using set_update_subset_insert [of "sv_conns s" i c'] by blast
    with that(2) old show ?thesis by blast
  qed
  then show ?thesis by (simp add: streams_ok_def)
qed

lemma server_step_streams:
  assumes "server_step env s a = Some s'" "streams_ok s" "env_reads env (sv_bus s)"
  shows "streams_ok s'"
  using assms(1)
proof (cases rule: server_step_cases)
  case accept
  with assms(2) show ?thesis by (auto simp: streams_ok_def connection_new_def)
next
  case (rpc i msg)
  obtain new where new: "cs_streams (snd (new_rpc (he_cc env) msg (sv_bus s) (sv_conns s ! i))) = cs_streams (sv_conns s ! i) @ new"
      "\<forall>st \<in> set new. stream_ok (fst (new_rpc (he_cc env) msg (sv_bus s) (sv_conns s ! i))) st"
    using new_rpc_stream_ok by metis
  from rpc show ?thesis
    using streams_ok_put [OF assms(2) new_rpc_grows, of "snd (new_rpc (he_cc env) msg (sv_bus s) (sv_conns s ! i))" i "he_cc env" msg "sv_conns s ! i"] new
    by (auto simp: put_conn_def has_conn_def)
next
  case (stream i j r)
  then have "stream_ok (fst r) (snd r)"
    using stream_effect_ok [OF stream(4) _ assms(3)] streams_ok_at [OF assms(2) stream(2)] by (simp add: stream_at_def)
  with stream show ?thesis
    using server_step_grows [OF assms(1)] set_update_subset_insert [of "cs_streams (sv_conns s ! i)" j "snd r"]
    by (auto simp: put_stream_def has_stream_def Let_def intro!: streams_ok_put [OF assms(2)])
next
  case (disconnect i)
  then show ?thesis
    using server_step_grows [OF assms(1)]
    by (auto simp: put_conn_def has_conn_def intro!: streams_ok_put [OF assms(2)])
qed

lemma watch_env_reads:
  assumes "watch_channel (he_level env)" "watch_channel (he_chance env)"
    "started (cb_level_tx b)" "started (cb_chance_tx b)"
  shows "env_reads env b"
  using assms(3,4) watch_channel.held_unique [OF assms(1)] watch_channel.held_unique [OF assms(2)]
  by (auto simp: env_reads_def started_def)

lemma server_run_streams:
  assumes "watch_channel (he_level env)" "watch_channel (he_chance env)" "server_run env (serve lh ch now) acts = Some s"
  shows "streams_ok s \<and> env_reads env (sv_bus s)"
  using assms(3)
proof (induction rule: server_run_induct)
  case start
  have "server_run env (serve lh ch now) [] = Some (serve lh ch now)" by simp
  from server_run_started [OF this] show ?case
    using watch_env_reads [OF assms(1,2)] by (simp add: streams_ok_def serve_def)
next
  case (step acts s a s')
  then have "server_run env (serve lh ch now) (acts @ [a]) = Some s'" by (simp add: run_opt_append)
  from server_run_started [OF this] step show ?case
    using watch_env_reads [OF assms(1,2)] server_step_streams by blast
qed

text \<open>The version is the first message, once.\<close>

definition versions_of :: "response list \<Rightarrow> string list" where
  "versions_of out = concat (map (\<lambda>r. case rs_body r of RsServerInfo info \<Rightarrow> [wsi_version info] | _ \<Rightarrow> []) out)"

lemma versions_simps [simp]:
  "versions_of [] = []" "versions_of (xs @ ys) = versions_of xs @ versions_of ys"
  "versions_of [response_with_id n (response_span cc w)] = []"
  "versions_of [response_with_id n (response_cache_level cc f)] = []"
  "versions_of [response_with_id n (response_cache_chance cc p)] = []"
  "versions_of [response_with_id n (response_server_info cc v)] = [v]"
  by (simp_all add: versions_of_def response_defs)

lemma versions_of_map: "versions_of (map (\<lambda>r. response_with_id n (response_span cc (g r))) rs) = []"
  by (induction rs) (simp_all add: versions_of_def response_defs)

definition versioned :: "rpc_stream \<Rightarrow> bool" where
  "versioned st \<longleftrightarrow>
     versions_of (st_out st) = [] \<and> st_phase st \<in> {PhStart, PhEnded} \<or>
     versions_of (st_out st) = [HOST_VERSION] \<and> st_phase st \<noteq> PhStart"

lemma versioned_effect:
  assumes "stream_effect env c b st r" "versioned st"
  shows "versioned (snd r)"
  using assms
proof (induction rule: stream_effect.induct)
  case (poll st')
  then show ?case by (auto simp: versioned_def stream_defs split: stream_phase.splits)
next
  case (arm a r)
  then show ?case
    by (auto simp: versioned_def stream_defs batch_loop_out versions_of_map
        split: if_splits select_arm.splits option.splits)
next
  case drop
  then show ?case by (auto simp: versioned_def stream_end_def)
qed

lemma server_run_versioned:
  assumes "server_run env (serve lh ch now) acts = Some s" "has_stream s i j"
  shows "versioned (stream_at s i j)"
  using assms
proof (induction rule: server_run_induct)
  case start
  then show ?case by (simp add: serve_def has_stream_def)
next
  case (step acts s a s')
  from step.hyps(2) step.prems show ?case
  proof (cases rule: stream_step_cases)
    case same
    with step.IH show ?thesis by simp
  next
    case fresh
    then show ?thesis by (simp add: versioned_def)
  next
    case (moved r)
    with step.IH show ?thesis by (simp add: versioned_effect)
  qed
qed

definition shows_level :: "rpc_stream \<Rightarrow> wire_level_filter option" where
  "shows_level st = (case rev (levels_of (st_out st)) of [] \<Rightarrow> None | f # _ \<Rightarrow> Some f)"

definition shows_chance :: "rpc_stream \<Rightarrow> f64 option" where
  "shows_chance st = (case rev (chances_of (st_out st)) of [] \<Rightarrow> None | p # _ \<Rightarrow> Some p)"

lemma rev_case_last: "(case rev xs of [] \<Rightarrow> None | x # _ \<Rightarrow> Some x) = (if xs = [] then None else Some (last xs))"
  by (cases xs rule: rev_cases) auto

text \<open>A stream is up to date when it has looked at a channel since the last change sent on it.\<close>

lemma news_in_force:
  assumes "news_ok w seen news True" "quiet_since seen w" "heard w"
  shows "(case rev news of [] \<Rightarrow> None | x # _ \<Rightarrow> Some x) = Some (sent_last w)"
  using assms quiet_held [OF assms(2)] heard_sent [OF assms(3)] by (simp add: news_ok_def rev_case_last)

lemma settings_in_force:
  assumes "watch_channel (he_level env)" "watch_channel (he_chance env)"
    "server_run env (serve lh ch now) acts = Some s" "has_stream s i j" "st_phase (stream_at s i j) = PhLoop"
    "quiet_since (st_level_seen (stream_at s i j)) (cb_level_tx (sv_bus s))" "heard (cb_level_tx (sv_bus s))"
    "quiet_since (st_chance_seen (stream_at s i j)) (cb_chance_tx (sv_bus s))" "heard (cb_chance_tx (sv_bus s))"
  shows "map_option wlf_to_tracing (shows_level (stream_at s i j)) = Some (level_handle_get (cb_level_handle (sv_bus s))) \<and>
    shows_chance (stream_at s i j) = Some (chance_handle_get (cb_chance_handle (sv_bus s)))"
proof -
  have "stream_ok (sv_bus s) (stream_at s i j)"
    using server_run_streams [OF assms(1-3)] streams_ok_at assms(4) by blast
  then have n: "news_ok (cb_level_tx (sv_bus s)) (st_level_seen (stream_at s i j)) (levels_of (st_out (stream_at s i j))) True"
    "news_ok (cb_chance_tx (sv_bus s)) (st_chance_seen (stream_at s i j)) (chances_of (st_out (stream_at s i j))) True"
    by (simp_all add: stream_ok_def assms(5))
  have "bus_in_force (sv_bus s)" using server_run_ok [OF assms(3)] by (simp add: server_ok_def)
  with news_in_force [OF n(1) assms(6,7)] news_in_force [OF n(2) assms(8,9)] show ?thesis
    by (simp add: shows_level_def shows_chance_def bus_in_force_def)
qed

text \<open>The level and the chance a stream pushed last are the ones in force on the host, once the
  stream has been polled since the last change, provided that the last change was made while some
  stream was open.\<close>

theorem pushed_settings_in_force:
  assumes "watch_channel (he_level env)" "watch_channel (he_chance env)"
    "server_run env (serve lh ch now) acts = Some s" "has_stream s i j" "st_phase (stream_at s i j) = PhLoop"
    "quiet_since (st_level_seen (stream_at s i j)) (cb_level_tx (sv_bus s))" "heard (cb_level_tx (sv_bus s))"
    "quiet_since (st_chance_seen (stream_at s i j)) (cb_chance_tx (sv_bus s))" "heard (cb_chance_tx (sv_bus s))"
  shows "map_option wlf_to_tracing (shows_level (stream_at s i j)) = Some (level_handle_get (cb_level_handle (sv_bus s))) \<and>
    shows_chance (stream_at s i j) = Some (chance_handle_get (cb_chance_handle (sv_bus s)))"
  by (rule settings_in_force [OF assms])

lemma pushed_settings_in_force_witness:
  "\<exists>s. server_run example_env (serve 0 (Fin 100) example_base)
       [Accept, rpc_at 0 1 StartStream, PollStream 0 0, PollStream 0 0, PollStream 0 0, PollStream 0 0,
        rpc_at 0 2 (SetCacheLevel LfDebug), SelectArm 0 0 (LevelChanged True)] = Some s \<and>
     map_option wlf_to_tracing (shows_level (stream_at s 0 0)) = Some (AtMost DEBUG)"
proof -
  let ?acts = "[Accept, rpc_at 0 1 StartStream, PollStream 0 0, PollStream 0 0, PollStream 0 0, PollStream 0 0,
        rpc_at 0 2 (SetCacheLevel LfDebug), SelectArm 0 0 (LevelChanged True)]"
  obtain s where run: "server_run example_env (serve 0 (Fin 100) example_base) ?acts = Some s"
    and st: "has_stream s 0 0" "st_phase (stream_at s 0 0) = PhLoop"
      "quiet_since (st_level_seen (stream_at s 0 0)) (cb_level_tx (sv_bus s))" "heard (cb_level_tx (sv_bus s))"
      "quiet_since (st_chance_seen (stream_at s 0 0)) (cb_chance_tx (sv_bus s))" "heard (cb_chance_tx (sv_bus s))"
    and level: "level_handle_get (cb_level_handle (sv_bus s)) = AtMost DEBUG"
    by (simp add: run_simps rpc_at_def stream_poll_def push_level_def push_chance_def yield_response_def stream_arm_def
        stream_at_def bus_defs broadcast_new_def watch_new_def watch_call_def quiet_since_def heard_def
        level_handle_get_def level_handle_set_def)
  have "watch_channel (he_level example_env)" "watch_channel (he_chance example_env)"
    by (simp_all add: example_env_def reference_watch.watch_channel_axioms)
  from pushed_settings_in_force [OF this run st] run level show ?thesis by (intro exI [of _ s] conjI) simp_all
qed

text \<open>C40. A change made while no stream is open takes effect but is never shown: the next stream's
  first level is what the channel held before, not the level in force, because sending on a channel
  without receivers stores nothing.\<close>

theorem unheard_change_not_shown:
  assumes "watch_channel (he_level env)" "server_run env (serve lh ch now) acts = Some s" "live_streams s = 0" "has_conn s i"
  shows "\<exists>j s'. server_run env s [Rpc i \<lparr>rq_id = n, rq_control = cc, rq_body = SetCacheLevel f\<rparr>,
        Rpc i \<lparr>rq_id = k, rq_control = cc, rq_body = StartStream\<rparr>, PollStream i j, PollStream i j] = Some s' \<and>
     level_handle_get (cb_level_handle (sv_bus s')) = wlf_to_tracing f \<and>
     shows_level (stream_at s' i j) = Some (he_level env (cb_level_tx (sv_bus s)))"
proof -
  let ?b = "sv_bus s" and ?c = "sv_conns s ! i"
  let ?j = "length (cs_streams ?c)"
  have i: "i < length (sv_conns s)" "cs_open ?c" using assms(4) by (simp_all add: has_conn_def)
  have none: "receivers (cb_level_tx ?b) \<le> 0"
    using server_run_ok [OF assms(2)] assms(3) by (simp add: server_ok_def)
  let ?w = "watch_call WatchSubscribe (watch_call (WatchSend f) (cb_level_tx ?b))"
  have held: "he_level env ?w = he_level env (cb_level_tx ?b)"
    using watch_channel.held_subscribe [OF assms(1)] watch_channel.held_lost [OF assms(1) none] by simp
  have bus: "cb_level_tx (subscribe_both (enter_stream (set_level f ?b))) = ?w"
    "cb_level_tx (subscribe_both (set_level f ?b)) = ?w"
    "level_handle_get (cb_level_handle (subscribe_both (enter_stream (set_level f ?b)))) = wlf_to_tracing f"
    "level_handle_get (cb_level_handle (subscribe_both (set_level f ?b))) = wlf_to_tracing f"
    by (simp_all add: bus_defs level_handle_get_def level_handle_set_def)
  show ?thesis
    using i by (cases "cs_stream_guard ?c"; intro exI [of _ ?j])
      (simp_all add: run_simps stream_poll_def push_level_def yield_response_def nth_append
        stream_at_def bus held shows_level_def levels_of_def response_defs)
qed

lemma unheard_change_not_shown_witness:
  "\<exists>j s'. server_run example_env (serve 0 (Fin 100) example_base)
       [Accept, rpc_at 0 1 (SetCacheLevel LfTrace), rpc_at 0 2 StartStream, PollStream 0 j, PollStream 0 j] = Some s' \<and>
     level_handle_get (cb_level_handle (sv_bus s')) = AtMost TRACE \<and> shows_level (stream_at s' 0 j) = Some LfOff"
proof -
  let ?s = "(serve 0 (Fin 100) example_base)\<lparr>sv_conns := [connection_new example_base]\<rparr>"
  have w: "watch_channel (he_level example_env)"
    by (simp add: example_env_def reference_watch.watch_channel_axioms)
  have run: "server_run example_env (serve 0 (Fin 100) example_base) [Accept] = Some ?s" by (simp add: serve_def)
  have "live_streams ?s = 0" "has_conn ?s 0"
    by (simp_all add: live_streams_def conn_live_def has_conn_def connection_new_def)
  from unheard_change_not_shown [OF w run this, of 1 0 LfTrace 2]
  have "\<exists>j s'. server_run example_env ?s
       [rpc_at 0 1 (SetCacheLevel LfTrace), rpc_at 0 2 StartStream, PollStream 0 j, PollStream 0 j] = Some s' \<and>
     level_handle_get (cb_level_handle (sv_bus s')) = AtMost TRACE \<and>
     shows_level (stream_at s' 0 j) = Some (he_level example_env (cb_level_tx (sv_bus ?s)))"
    by (simp only: rpc_at_def wlf_to_tracing.simps)
  moreover have off: "he_level example_env (cb_level_tx (sv_bus ?s)) = LfOff"
    by (simp add: example_env_def serve_def broadcast_new_def watch_held_def watch_call_def watch_new_def
        level_handle_get_def u8_to_filter_def wlf_from_tracing_def)
  moreover have acc: "server_run example_env (serve 0 (Fin 100) example_base) (Accept # acts) = server_run example_env ?s acts" for acts
    by (simp add: serve_def)
  ultimately show ?thesis by (simp only: off acc)
qed

section \<open>Sampling\<close>

definition bucket :: "span_record \<Rightarrow> u64" where
  "bucket r = (case sr_parent_id r of Some p \<Rightarrow> p | None \<Rightarrow> sr_id r)"

text \<open>Sampling decides by the bucket alone, so a root and its children share their fate; a span
  that passes at a rate passes at every higher one; rate 1 passes every span and rate 0 none.\<close>

theorem sampling_by_bucket:
  assumes "sampling_passes r p" "f64_le p q" "bucket r' = bucket r"
  shows "sampling_passes r' q \<and> sampling_passes r' (Fin 1) \<and> \<not> sampling_passes r' (Fin 0) \<and> \<not> f64_le p (Fin 0)"
proof -
  let ?frac = "f64_div (f64_of_u64 (sampling_hash (bucket r))) (f64_of_u64 u64_max)"
  have rule: "sampling_passes x rate = (f64_le (Fin 1) rate \<or> \<not> f64_le rate (Fin 0) \<and>
      f64_lt (f64_div (f64_of_u64 (sampling_hash (bucket x))) (f64_of_u64 u64_max)) rate)" for x rate
    by (simp add: sampling_passes_def bucket_def Let_def)
  have c: "f64_le (Fin 1) (Fin 1)" "\<not> f64_le (Fin 1) (Fin 0)" "f64_le (Fin 0) (Fin 0)" by code_simp+
  have p: "\<not> f64_le p (Fin 0)"
    using assms(1) f64_le_trans [of "Fin 1" p "Fin 0"] c(2) by (auto simp: rule)
  then have "\<not> f64_le q (Fin 0)" using f64_le_trans [OF assms(2)] by blast
  moreover have "f64_le (Fin 1) p \<Longrightarrow> f64_le (Fin 1) q" using f64_le_trans assms(2) by blast
  moreover have "f64_lt ?frac p \<Longrightarrow> f64_lt ?frac q" using f64_lt_le_trans assms(2) by blast
  ultimately have "sampling_passes r' q" using assms(1,3) by (auto simp: rule)
  with p c show ?thesis by (simp add: rule)
qed

lemma sampling_by_bucket_witness:
  "sampling_passes (example_span 1 INFO) (Fin (3 / 4)) \<and> sampling_passes ((example_span 9 INFO)\<lparr>sr_parent_id := Some 1\<rparr>) (Fin (7 / 8))"
proof -
  have "sampling_passes (example_span 1 INFO) (Fin (3 / 4))" "f64_le (Fin (3 / 4)) (Fin (7 / 8))" by code_simp+
  moreover have "bucket ((example_span 9 INFO)\<lparr>sr_parent_id := Some 1\<rparr>) = bucket (example_span 1 INFO)"
    by (simp add: bucket_def example_span_def)
  ultimately show ?thesis using sampling_by_bucket by blast
qed

text \<open>A trace is not kept whole: the bucket of a grandchild is its parent, not the root.\<close>

lemma sampling_splits_trace:
  "sampling_passes (example_span 1 INFO) (Fin (1 / 2)) \<and>
   sampling_passes ((example_span 2 INFO)\<lparr>sr_parent_id := Some 1\<rparr>) (Fin (1 / 2)) \<and>
   \<not> sampling_passes ((example_span 3 INFO)\<lparr>sr_parent_id := Some 2\<rparr>) (Fin (1 / 2))"
  by code_simp

text \<open>\<open>set_level\<close> stores, then sends. When two of them interleave, the channel can end up with one
  level while the other is in force.\<close>

lemma set_level_interleaved:
  "let b' = level_send f (level_send g (level_store (wlf_to_tracing g) (level_store (wlf_to_tracing f) b)))
   in level_handle_get (cb_level_handle b') = wlf_to_tracing g \<and> sent_last (cb_level_tx b') = f"
  by (simp add: Let_def level_send_def level_store_def level_handle_get_def level_handle_set_def)

end
