(* ===== verification/Console.thy ===== *)
theory Console
  imports KeysProps NetProps ServerStreams
begin

text \<open>
  Host and console together: what the model shows is what is in force on the host, and a level key
  takes effect there.
\<close>

section \<open>From the host to the screen\<close>

definition levels_in :: "update list \<Rightarrow> wire_level_filter list" where
  "levels_in us = concat (map (\<lambda>u. case u of CacheLevelReceived f \<Rightarrow> [f] | _ \<Rightarrow> []) us)"

definition chances_in :: "update list \<Rightarrow> f64 list" where
  "chances_in us = concat (map (\<lambda>u. case u of CacheChanceReceived p \<Rightarrow> [p] | _ \<Rightarrow> []) us)"

definition versions_in :: "update list \<Rightarrow> string list" where
  "versions_in us = concat (map (\<lambda>u. case u of ServerInfoReceived i \<Rightarrow> [wsi_version i] | _ \<Rightarrow> []) us)"

definition spans_in :: "update list \<Rightarrow> wire_span list" where
  "spans_in us = concat (map (\<lambda>u. case u of SpanReceived s \<Rightarrow> [s] | _ \<Rightarrow> []) us)"

definition last_opt :: "'a list \<Rightarrow> 'a option" where
  "last_opt xs = (case rev xs of [] \<Rightarrow> None | x # _ \<Rightarrow> Some x)"

lemma last_opt_snoc [simp]: "last_opt [] = None" "last_opt (xs @ [x]) = Some x"
  by (simp_all add: last_opt_def)

lemma last_opt_append: "last_opt (xs @ ys) = (case last_opt ys of None \<Rightarrow> last_opt xs | Some y \<Rightarrow> Some y)"
  by (cases ys rule: rev_cases) (simp_all flip: append_assoc)

text \<open>What the model keeps of its updates is what the server's part of them says.\<close>

lemma news_lists:
  "last_of level_news evs = last_opt (levels_in (map snd evs))"
  "last_of chance_news evs = last_opt (chances_in (map snd evs))"
  "last_of version_news evs = last_opt (versions_in (map snd evs))"
proof (induction evs rule: rev_induct)
  case (snoc ev evs)
  case 1
  then show ?case using snoc by (cases "snd ev") (simp_all add: level_news_def levels_in_def)
  case 2
  then show ?case using snoc by (cases "snd ev") (simp_all add: chance_news_def chances_in_def)
  case 3
  then show ?case using snoc by (cases "snd ev") (simp_all add: version_news_def versions_in_def)
qed (simp_all add: levels_in_def chances_in_def versions_in_def)

lemma server_part:
  "levels_in (filter from_server us) = levels_in us"
  "chances_in (filter from_server us) = chances_in us"
  "versions_in (filter from_server us) = versions_in us"
  "spans_in (filter from_server us) = spans_in us"
proof (induction us)
  case (Cons u us)
  have "from_server u \<or> (case u of CacheLevelReceived f \<Rightarrow> False | CacheChanceReceived p \<Rightarrow> False
      | ServerInfoReceived i \<Rightarrow> False | SpanReceived s \<Rightarrow> False | _ \<Rightarrow> True)"
    by (cases u) (simp_all add: from_server_def)
  then have drop: "\<not> from_server u \<Longrightarrow> levels_in [u] = [] \<and> chances_in [u] = [] \<and> versions_in [u] = [] \<and> spans_in [u] = []"
    by (cases u) (simp_all add: levels_in_def chances_in_def versions_in_def spans_in_def)
  case 1
  then show ?case using Cons drop by (simp add: levels_in_def)
  case 2
  then show ?case using Cons drop by (simp add: chances_in_def)
  case 3
  then show ?case using Cons drop by (simp add: versions_in_def)
  case 4
  then show ?case using Cons drop by (simp add: spans_in_def)
qed (simp_all add: levels_in_def chances_in_def versions_in_def spans_in_def)

lemma response_part:
  "levels_in (concat (map item_updates (map ItemOk out))) = levels_of out"
  "chances_in (concat (map item_updates (map ItemOk out))) = chances_of out"
  "versions_in (concat (map item_updates (map ItemOk out))) = versions_of out"
  "spans_in (concat (map item_updates (map ItemOk out))) = spans_of out"
proof (induction out)
  case (Cons r out)
  have one: "levels_in (resp_updates r) = levels_of [r] \<and> chances_in (resp_updates r) = chances_of [r] \<and>
      versions_in (resp_updates r) = versions_of [r] \<and> spans_in (resp_updates r) = spans_of [r]"
    by (cases "rs_body r")
      (simp_all add: resp_updates_def resp_to_update_def levels_in_def chances_in_def versions_in_def spans_in_def
        levels_of_def chances_of_def versions_of_def spans_of_def)
  case 1
  then show ?case using Cons one by (simp add: levels_in_def levels_of_def item_updates_def)
  case 2
  then show ?case using Cons one by (simp add: chances_in_def chances_of_def item_updates_def)
  case 3
  then show ?case using Cons one by (simp add: versions_in_def versions_of_def item_updates_def)
  case 4
  then show ?case using Cons one by (simp add: spans_in_def spans_of_def item_updates_def)
qed (simp_all add: levels_in_def chances_in_def versions_in_def spans_in_def levels_of_def chances_of_def versions_of_def spans_of_def)

text \<open>The console and one stream of the host, with a transport that delivers what the stream yielded.\<close>

definition delivered_to :: "server \<Rightarrow> nat \<Rightarrow> nat \<Rightarrow> net_event list \<Rightarrow> bool" where
  "delivered_to s i j nevs \<longleftrightarrow>
     list_all roomy nevs \<and> concat (map consumed_by nevs) = map ItemOk (st_out (stream_at s i j))"

definition in_step :: "server \<Rightarrow> nat \<Rightarrow> nat \<Rightarrow> bool" where
  "in_step s i j \<longleftrightarrow> has_stream s i j \<and> st_phase (stream_at s i j) = PhLoop \<and>
     quiet_since (st_level_seen (stream_at s i j)) (cb_level_tx (sv_bus s)) \<and> heard (cb_level_tx (sv_bus s)) \<and>
     quiet_since (st_chance_seen (stream_at s i j)) (cb_chance_tx (sv_bus s)) \<and> heard (cb_chance_tx (sv_bus s))"

lemma spans_delivered:
  assumes "server_run env (serve lh ch now) acts = Some s" "has_stream s i j"
    "net_run cc addr net_new nevs = Some n" "delivered_to s i j nevs"
    "filter from_server (map snd evs) = filter from_server (nt_updates n)"
  shows "spans_in (map snd evs) = map (span_to_wire (he_unfilled env) now) (sent_to i j acts)"
proof -
  have "filter from_server (nt_updates n) = concat (map item_updates (map ItemOk (st_out (stream_at s i j))))"
    using net_delivers [OF assms(3)] assms(4) by (simp add: delivered_to_def net_new_def)
  then have "spans_in (map snd evs) = spans_of (st_out (stream_at s i j))"
    using assms(5) server_part [of "map snd evs"] response_part [of "st_out (stream_at s i j)"] by simp
  then show ?thesis using stream_spans [OF assms(1), of i j] assms(2) by simp
qed

text \<open>C1. Host, network task and reducer together: when a stream is in step with the host's settings,
  the transport has delivered what it yielded and the update channel had room, then in any
  interleaving with the user's keys the model shows the level and the chance in force on the host
  and the host's version, and the spans the model was given are exactly those the stream's settings
  let pass, as recorded by the cache.\<close>

theorem console_shows_host:
  assumes "watch_channel (he_level env)" "watch_channel (he_chance env)"
    "server_run env (serve lh ch now) acts = Some s" "in_step s i j"
    "net_run cc addr net_new nevs = Some n" "delivered_to s i j nevs"
    "ui_run (model_new b) evs = Some (m, es)" "filter from_server (map snd evs) = filter from_server (nt_updates n)"
  shows "map_option wlf_to_tracing (m_cache_level m) = Some (level_handle_get (cb_level_handle (sv_bus s))) \<and>
    m_cache_chance m = Some (chance_handle_get (cb_chance_handle (sv_bus s))) \<and>
    m_server_version m = Some HOST_VERSION \<and>
    spans_in (map snd evs) = map (span_to_wire (he_unfilled env) now) (sent_to i j acts)"
proof -
  let ?st = "stream_at s i j"
  have st: "has_stream s i j" "st_phase ?st = PhLoop" using assms(4) by (simp_all add: in_step_def)
  have "filter from_server (nt_updates n) = concat (map item_updates (map ItemOk (st_out ?st)))"
    using net_delivers [OF assms(5)] assms(6) by (simp add: delivered_to_def net_new_def)
  then have parts: "levels_in (map snd evs) = levels_of (st_out ?st)" "chances_in (map snd evs) = chances_of (st_out ?st)"
      "versions_in (map snd evs) = versions_of (st_out ?st)"
    using assms(8) server_part [of "map snd evs"] response_part [of "st_out ?st"] by simp_all
  have model: "m_cache_level m = shows_level ?st" "m_cache_chance m = shows_chance ?st"
      "m_server_version m = last_opt (versions_of (st_out ?st))"
    using settings_spec [OF assms(7)] news_lists [of evs] parts
    by (simp_all add: last_opt_def shows_level_def shows_chance_def)
  have "versions_of (st_out ?st) = [HOST_VERSION]"
    using server_run_versioned [OF assms(3) st(1)] st(2) by (simp add: versioned_def)
  moreover have "map_option wlf_to_tracing (shows_level ?st) = Some (level_handle_get (cb_level_handle (sv_bus s))) \<and>
      shows_chance ?st = Some (chance_handle_get (cb_chance_handle (sv_bus s)))"
    using assms(4) unfolding in_step_def by (intro settings_in_force [OF assms(1-3)]) blast+
  ultimately show ?thesis
    using model spans_delivered [OF assms(3) st(1) assms(5,6,8)] by (simp add: last_opt_def)
qed

definition example_session :: "server_action list" where
  "example_session =
     [Accept, rpc_at 0 1 StartStream, PollStream 0 0, PollStream 0 0, PollStream 0 0, PollStream 0 0,
      rpc_at 0 2 (SetCacheLevel LfDebug), SelectArm 0 0 (LevelChanged True)]"

definition example_messages :: "response list" where
  "example_messages =
     map (\<lambda>b. \<lparr>rs_id = 1, rs_control = 0, rs_body = b\<rparr>)
       [RsServerInfo \<lparr>wsi_version = HOST_VERSION\<rparr>, RsCacheLevel LfOff, RsCacheChance (Fin 100), RsCacheLevel LfDebug]"

definition example_net :: "net_event list" where
  "example_net =
     [NetDial Started SendOk SendOk SendOk,
      NetItems (ItemOk (hd example_messages)) (map ItemOk (tl example_messages)) SendOk SendOk SendOk]"

definition example_updates :: "(nat \<times> update) list" where
  "example_updates =
     [(0, Connected), (1, ServerInfoReceived \<lparr>wsi_version = HOST_VERSION\<rparr>), (2, RequestCacheLevel LfInfo),
      (3, CacheLevelReceived LfOff), (4, CacheChanceReceived (Fin 100)), (5, CacheLevelReceived LfDebug)]"

lemma console_shows_host_witness:
  "\<exists>m es. ui_run (model_new 4) example_updates = Some (m, es) \<and> m_cache_level m = Some LfDebug \<and>
     m_server_version m = Some HOST_VERSION"
proof -
  have off: "wlf_from_tracing (u8_to_filter 0) = LfOff" by code_simp
  obtain s where run: "server_run example_env (serve 0 (Fin 100) example_base) example_session = Some s"
    and st: "in_step s 0 0" and out: "st_out (stream_at s 0 0) = example_messages"
    and level: "level_handle_get (cb_level_handle (sv_bus s)) = AtMost DEBUG"
    by (simp add: example_session_def run_simps rpc_at_def stream_poll_def push_level_def push_chance_def yield_response_def
        stream_arm_def stream_at_def bus_defs broadcast_new_def watch_new_def watch_call_def quiet_since_def heard_def
        in_step_def level_handle_get_def level_handle_set_def example_messages_def response_defs example_env_def
        watch_held_def chance_handle_get_def off)
  obtain n where net: "net_run (\<lambda>_. 0) ''h:1'' net_new example_net = Some n"
    and sent: "nt_updates n = [Status (connecting_text ''h:1''), Connected, ServerInfoReceived \<lparr>wsi_version = HOST_VERSION\<rparr>,
      CacheLevelReceived LfOff, CacheChanceReceived (Fin 100), CacheLevelReceived LfDebug]"
    by (simp add: example_net_def example_messages_def net_new_def net_dial_def take_id_def net_items_def gather_def
        gather_item_def resp_updates_def resp_to_update_def MAX_BATCH_def Let_def)
  have del: "delivered_to s 0 0 example_net"
    by (simp add: example_net_def delivered_to_def out example_messages_def gather_def gather_item_def resp_updates_def
        resp_to_update_def roomy_def consumed_by_def MAX_BATCH_def)
  have upd: "filter from_server (map snd example_updates) = filter from_server (nt_updates n)"
    by (simp add: sent example_updates_def from_server_def)
  obtain m es where ui: "ui_run (model_new 4) example_updates = Some (m, es)"
    by (simp add: example_updates_def ui_step_def apply_update_def wrap_defs server_update_def)
  have w: "watch_channel (he_level example_env)" "watch_channel (he_chance example_env)"
    by (simp_all add: example_env_def reference_watch.watch_channel_axioms)
  from console_shows_host [OF w run st net del ui upd] level
  have "map_option wlf_to_tracing (m_cache_level m) = Some (AtMost DEBUG)" "m_server_version m = Some HOST_VERSION"
    by simp_all
  moreover from this(1) have "m_cache_level m = Some LfDebug"
    by (cases "m_cache_level m"; cases "the (m_cache_level m)") auto
  ultimately show ?thesis using ui by blast
qed

section \<open>From the keyboard to the host\<close>

lemma level_key_step:
  assumes "tu_exit t = None"
  shows "\<exists>t'. tui_step t (TuiBatch (Some [(now, RequestCacheLevel f, SendOk)])) = Some t' \<and>
    tu_outgoing t' = tu_outgoing t @ [OutSetCacheLevel f] \<and> tu_model t' = tu_model t"
  using assms by (simp add: tui_step_def tui_apply_def apply_update_def tui_effect_def out_send_def Let_def)

text \<open>C7. Whatever view is on the screen, while no input box or dialog is open a level key (Shift with O,
  I, D or T) puts that level in force on the host: the terminal loop queues one request, the
  network task sends it under a fresh id, and the host sets the level and acknowledges that id.\<close>

theorem level_key_takes_effect:
  assumes "tui_run (tui_new b) tevs = Some t" "tu_exit t = None" "modal_kind_of (tu_model t) = MODAL_NONE"
    "route_level k = Some f" "nt_phase n = NetStreaming" "has_conn s i"
  shows "route_key (tu_flags t) k = Some (RequestCacheLevel f) \<and>
    (\<exists>t' n' r s'. tui_step t (TuiBatch (Some [(clock, RequestCacheLevel f, SendOk)])) = Some t' \<and>
       tu_outgoing t' = tu_outgoing t @ [OutSetCacheLevel f] \<and>
       net_step (he_cc env) addr n (NetOutgoing (Some (OutSetCacheLevel f)) True SendOk) = Some n' \<and>
       nt_requests n' = nt_requests n @ [r] \<and> rq_id r = nt_next_id n \<and>
       server_step env s (Rpc i r) = Some s' \<and>
       level_handle_get (cb_level_handle (sv_bus s')) = wlf_to_tracing f \<and>
       cs_replies (sv_conns s' ! i) =
         cs_replies (sv_conns s ! i) @ [\<lparr>rs_id = nt_next_id n, rs_control = he_cc env CcNormal, rs_body = RsAck\<rparr>])"
proof -
  have "tu_flags t = flags_of (tu_model t)"
    using tui_run_settled [OF assms(1) settled_new] assms(2) by (simp add: settled_def)
  then have key: "route_key (tu_flags t) k = Some (RequestCacheLevel f)"
    using assms(3,4) by (simp add: route_key_def flags_of_def)
  obtain t' where t': "tui_step t (TuiBatch (Some [(clock, RequestCacheLevel f, SendOk)])) = Some t'"
      "tu_outgoing t' = tu_outgoing t @ [OutSetCacheLevel f]"
    using level_key_step [OF assms(2)] by blast
  let ?r = "(request_new (he_cc env) (SetCacheLevel f))\<lparr>rq_id := nt_next_id n\<rparr>"
  obtain n' where n': "net_step (he_cc env) addr n (NetOutgoing (Some (OutSetCacheLevel f)) True SendOk) = Some n'"
      "nt_requests n' = nt_requests n @ [?r]"
    using assms(5) by (simp add: net_outgoing_def take_id_def outgoing_body_def Let_def)
  obtain s' where s': "server_step env s (Rpc i ?r) = Some s'"
      "level_handle_get (cb_level_handle (sv_bus s')) = wlf_to_tracing f"
      "cs_replies (sv_conns s' ! i) =
         cs_replies (sv_conns s ! i) @ [\<lparr>rs_id = nt_next_id n, rs_control = he_cc env CcNormal, rs_body = RsAck\<rparr>]"
    using assms(6) by (simp add: has_conn_def new_rpc_def request_new_def set_level_def level_send_def level_store_def
        level_handle_get_def level_handle_set_def immediate_def response_defs Let_def)
  have "rq_id ?r = nt_next_id n" by simp
  with key t' n' s' show ?thesis by blast
qed

lemma level_key_takes_effect_witness:
  "\<exists>n' r s'. net_step (he_cc example_env) ''h:1'' (net_new\<lparr>nt_phase := NetStreaming, nt_next_id := 7\<rparr>)
        (NetOutgoing (Some (OutSetCacheLevel LfTrace)) True SendOk) = Some n' \<and> nt_requests n' = [r] \<and> rq_id r = 7 \<and>
     server_step example_env ((serve 0 (Fin 100) example_base)\<lparr>sv_conns := [connection_new example_base]\<rparr>) (Rpc 0 r) = Some s' \<and>
     level_handle_get (cb_level_handle (sv_bus s')) = AtMost TRACE"
proof -
  let ?n = "net_new\<lparr>nt_phase := NetStreaming, nt_next_id := 7\<rparr>"
  let ?s = "(serve 0 (Fin 100) example_base)\<lparr>sv_conns := [connection_new example_base]\<rparr>"
  have t: "tui_run (tui_new 4) [] = Some (tui_new 4)" "tu_exit (tui_new 4) = None"
      "modal_kind_of (tu_model (tui_new 4)) = MODAL_NONE"
    by (simp_all add: tui_new_def model_new_def modal_kind_of_def)
  have "route_level (KeyChar ''T'') = Some LfTrace" "nt_phase ?n = NetStreaming" "has_conn ?s 0"
    by (simp_all add: route_level_def has_conn_def connection_new_def)
  from level_key_takes_effect [OF t this, of 0 example_env "''h:1''"]
  obtain n' r s' where "net_step (he_cc example_env) ''h:1'' ?n (NetOutgoing (Some (OutSetCacheLevel LfTrace)) True SendOk) = Some n'"
      "nt_requests n' = nt_requests ?n @ [r]" "rq_id r = nt_next_id ?n" "server_step example_env ?s (Rpc 0 r) = Some s'"
      "level_handle_get (cb_level_handle (sv_bus s')) = wlf_to_tracing LfTrace"
    by blast
  moreover have "nt_requests ?n = []" "nt_next_id ?n = 7" by (simp_all add: net_new_def)
  ultimately show ?thesis by (intro exI [of _ n'] exI [of _ r] exI [of _ s'] conjI) simp_all
qed

end
