(* ===== verification/Pipeline.thy ===== *)
theory Pipeline
  imports System Console
begin

text \<open>
  The whole program, from the threads of the observed process to the table on the screen: cache,
  driver, stream of the host, network task and reducer together. The channel between a subscription
  and the stream that polls it may hand over in any order what was sent, each span once.
\<close>

section \<open>What the model holds\<close>

lemma spans_in_simps [simp]:
  "spans_in [] = []" "spans_in (us @ vs) = spans_in us @ spans_in vs" "spans_in [SpanReceived sp] = [sp]"
  by (simp_all add: spans_in_def)

definition received :: "wire_span list \<Rightarrow> model \<Rightarrow> bool" where
  "received ss m \<longleftrightarrow> model_ok m \<and> held_set (m_agg m) \<subseteq> set ss \<and>
     known_ids (m_agg m) \<subseteq> ws_id ` set ss \<and> held_ns (m_agg m) \<le> sum_list (map span_ns ss)"

lemma received_new:
  assumes "0 < n" "n < 2 ^ 32"
  shows "received [] (model_new n)"
  using agg_inv_new [OF assms]
  by (simp add: received_def model_ok_def model_new_def rate_ok_def rate_default_def BUCKETS_def)
    (simp add: held_set_def ring_set_def agg_new_def)

definition owed :: "wire_span list \<Rightarrow> bool" where
  "owed ss \<longleftrightarrow> distinct (map ws_id ss) \<and> sum_list (map span_ns ss) < 2 ^ 64"

lemma received_admits: "received ss m \<Longrightarrow> owed (ss @ [sp]) \<Longrightarrow> admits (m_agg m) sp"
  by (auto simp: received_def owed_def admits_def intro!: fresh_unknown)

lemma received_span:
  assumes m: "received ss m" and o: "owed (ss @ [sp])" and s: "span_received sp now m = Some m'" and ok: "model_ok m'"
  shows "received (ss @ [sp]) m'"
proof -
  have inv: "agg_inv (m_agg m)" using m by (simp add: received_def model_ok_def)
  note adm = received_admits [OF m o]
  obtain a new where a: "absorb sp (m_agg m) = Some (a, new)" using absorb_inv [OF inv adm] by blast
  have "m_agg m' = a"
    using s a by (auto simp: span_received_def try_graph_def split: view_mode.splits option.splits)
  moreover have step: "absorb_step (m_agg m) sp = Some a" using a by (simp add: absorb_step_def)
  ultimately show ?thesis
    using absorb_held [OF inv adm a] absorb_step_known [OF inv adm step] m ok
    by (auto simp: received_def)
qed

lemma received_step:
  assumes m: "received ss m" and o: "owed (ss @ spans_in [u])" and s: "apply_update u now m = Some (m', e)"
  shows "received (ss @ spans_in [u]) m'"
proof -
  have adm: "\<forall>sp. u = SpanReceived sp \<longrightarrow> admits (m_agg m) sp"
    using received_admits [OF m] o by auto
  have ok: "model_ok m'" using reducer_keeps [OF _ adm, of now] s m by (simp add: received_def)
  consider sp where "u = SpanReceived sp" | "u = ToggleSplitSelected" | "quiet m m'" "spans_in [u] = []"
    using quiet_step [of u now m m' e] s by (cases u) (auto simp: spans_in_def)
  then show ?thesis
  proof cases
    case (1 sp)
    with s have "span_received sp now m = Some m'" by (auto simp: apply_update_def wrap_defs)
    with 1 received_span [OF m _ _ ok] o show ?thesis by simp
  next
    case 2
    with s have t: "toggle_split_selected m = Some m'" by (auto simp: apply_update_def wrap_defs)
    then have "m_agg m' = m_agg m \<or> (\<exists>keys. set_split_keys keys (m_agg m) = Some (m_agg m'))"
      by (auto simp: toggle_split_selected_def split: option.splits if_splits)
    then have "held_set (m_agg m') \<subseteq> held_set (m_agg m) \<and> known_ids (m_agg m') \<subseteq> known_ids (m_agg m) \<and>
        held_ns (m_agg m') \<le> held_ns (m_agg m)"
      using m split_keys_forgets(2-4) [of "m_agg m" _ "m_agg m'"] unfolding received_def model_ok_def by (metis order_refl)
    then show ?thesis
      using m ok 2 by (auto simp: received_def spans_in_def intro: order_trans)
  next
    case 3
    with m ok show ?thesis by (simp add: received_def quiet_def)
  qed
qed


text \<open>A run of the reducer stops only at an update that fills a graph.\<close>

definition stuck_in_graph :: "model \<Rightarrow> (nat \<times> update) list \<Rightarrow> bool" where
  "stuck_in_graph m evs \<longleftrightarrow>
     (\<exists>k < length evs. \<exists>m' es. ui_run m (take k evs) = Some (m', es) \<and> fills_graph (snd (evs ! k)) m')"

lemma owed_prefix: "owed (xs @ ys) \<Longrightarrow> owed xs"
  by (simp add: owed_def)

lemma stuck_longer: "stuck_in_graph m evs \<Longrightarrow> stuck_in_graph m (evs @ evs')"
  unfolding stuck_in_graph_def by (metis length_append nth_append take_append append_Nil2 diff_is_0_eq' less_imp_le
      take0 trans_less_add1)

lemma ui_run_snoc:
  "ui_run m (evs @ [(now, u)]) =
     (case ui_run m evs of
        None \<Rightarrow> None
      | Some (m1, es) \<Rightarrow> map_option (\<lambda>(m2, e). (m2, es @ [e])) (apply_update u now m1))"
  by (simp add: run_opt_append ui_step_def split: option.split)

lemma received_run:
  assumes "0 < n" "n < 2 ^ 32" "owed (spans_in (map snd evs))"
  shows "case ui_run (model_new n) evs of
      Some (m, es) \<Rightarrow> received (spans_in (map snd evs)) m
    | None \<Rightarrow> stuck_in_graph (model_new n) evs"
  using assms(3)
proof (induction evs rule: rev_induct)
  case Nil
  then show ?case using received_new [OF assms(1,2)] by simp
next
  case (snoc ev evs)
  obtain now u where ev: "ev = (now, u)" by (cases ev)
  have o: "owed (spans_in (map snd evs) @ spans_in [u])" using snoc.prems by (simp add: ev)
  note IH = snoc.IH [OF owed_prefix [OF o]]
  show ?case
  proof (cases "ui_run (model_new n) evs")
    case None
    with IH show ?thesis using stuck_longer by (simp add: ui_run_snoc ev)
  next
    case (Some r)
    obtain m es where r: "r = (m, es)" by (cases r)
    with IH Some have m: "received (spans_in (map snd evs)) m" by simp
    show ?thesis
    proof (cases "apply_update u now m")
      case None
      have "\<forall>sp. u = SpanReceived sp \<longrightarrow> admits (m_agg m) sp" using received_admits [OF m] o by auto
      from returns_step [OF None _ this] m have "fills_graph u m" by (simp add: received_def)
      then have "stuck_in_graph (model_new n) (evs @ [ev])"
        unfolding stuck_in_graph_def using Some r ev by (intro exI [of _ "length evs"]) simp
      with None Some r show ?thesis by (simp add: ui_run_snoc ev)
    next
      case s: (Some st)
      obtain m' e where st: "st = (m', e)" by (cases st)
      from received_step [OF m o s [unfolded st]] s st Some r show ?thesis
        by (simp add: ui_run_snoc ev)
    qed
  qed
qed

section \<open>The batches of a stream\<close>

definition polled :: "nat \<Rightarrow> nat \<Rightarrow> server_action list \<Rightarrow> span_record list" where
  "polled i j acts = concat (map (\<lambda>a. case a of
       SelectArm k l (NextBatch (Some batch)) \<Rightarrow> if k = i \<and> l = j then batch else [] | _ \<Rightarrow> []) acts)"

lemma sent_polled: "mset (sent_to i j acts) \<subseteq># mset (polled i j acts)"
proof (induction acts rule: rev_induct)
  case (snoc a acts)
  have "mset (case a of SelectArm k l m \<Rightarrow> if k = i \<and> l = j then batch_passed (settings_at i acts) m else [] | _ \<Rightarrow> [])
      \<subseteq># mset (polled i j [a])"
    by (auto simp: polled_def batch_passed_def multiset_filter_subset split: server_action.splits select_arm.splits option.splits)
  with snoc show ?case
    by (simp add: sent_to_snoc polled_def subset_mset.add_mono)
qed (simp add: sent_to_def polled_def)


section \<open>From the process to the screen\<close>

text \<open>A span of the console that is one the subscription was sent, with events of the process only
  that were recorded under that span.\<close>

definition genuine :: "host_env \<Rightarrow> time_base \<Rightarrow> system \<Rightarrow> span_record list \<Rightarrow> wire_span \<Rightarrow> bool" where
  "genuine env now y inbox w \<longleftrightarrow> w \<in> span_to_wire (he_unfilled env) now ` set inbox \<and>
     set (ws_events w) \<subseteq>
       {event_to_wire (he_unfilled env) now ev | ev. (ws_id w, ev) \<in> set (sy_emitted y)}"

lemma ring_entry_ids: "agg_inv a \<Longrightarrow> map (ws_id \<circ> e_span) (ring_entries a) = order a"
  using agg_invD(1) [of a] by (fastforce simp: ring_entries_def ring_ok_def intro!: map_idI)

lemma ring_entries_held: "agg_inv a \<Longrightarrow> e \<in> set (ring_entries a) \<Longrightarrow> e_span e \<in> held_set a"
  using agg_invD(1) [of a] by (auto simp: ring_entries_mem held_set_def ring_set_def)

lemma sent_genuine:
  assumes "sys_inv y" "b \<in> set (dr_subscribers (sy_driver y))" "mset (polled i j acts) \<subseteq># mset (sb_inbox b)"
  shows "distinct (map sr_id (sent_to i j acts))"
    "r \<in> set (sent_to i j acts) \<Longrightarrow> genuine env now y (sb_inbox b) (span_to_wire (he_unfilled env) now r)"
proof -
  have sub: "mset (sent_to i j acts) \<subseteq># mset (sb_inbox b)"
    using sent_polled assms(3) by (rule subset_mset.order_trans)
  then have "mset (map sr_id (sent_to i j acts)) \<subseteq># mset (map sr_id (sb_inbox b))"
    using image_mset_subseteq_mono by fastforce
  then show "distinct (map sr_id (sent_to i j acts))"
    using inbox_distinct [OF assms(1,2)] by (rule distinct_sub_mset)
  assume "r \<in> set (sent_to i j acts)"
  then have r: "r \<in> set (sb_inbox b)" using set_mset_mono [OF sub] by auto
  then show "genuine env now y (sb_inbox b) (span_to_wire (he_unfilled env) now r)"
    using inbox_attributed [OF assms(1,2) r] by (auto simp: genuine_def wire_defs)
qed

text \<open>C2. Whatever the threads of the process do, whatever the server and the network do and whatever
  the user does at the keyboard: the console stops only at an update that fills a graph; otherwise
  the table is the one a recomputation from the spans in the ring gives, no span is in the ring
  twice, and every span there is one the process closed and the subscription was sent, with no event
  that was not recorded under it. The budget and the total span time are bounded by the widths of the
  counters.\<close>

theorem process_to_screen:
  assumes "cfg_lane_count config \<le> 2 ^ 62" "capacity + 3 < 2 ^ 56"
    "sys_machine.all_ok pred (sys_new capacity config) as"
    "run_opt (sys_step pred) (sys_new capacity config) as = Some y" "b \<in> set (dr_subscribers (sy_driver y))"
    "server_run env (serve lh ch now) acts = Some s" "has_stream s i j"
    "mset (polled i j acts) \<subseteq># mset (sb_inbox b)"
    "net_run cc addr net_new nevs = Some n" "delivered_to s i j nevs"
    "filter from_server (map snd evs) = filter from_server (nt_updates n)"
    "0 < budget" "budget < 2 ^ 32" "sum_list (map span_ns (spans_in (map snd evs))) < 2 ^ 64"
  shows "case ui_run (model_new budget) evs of
      None \<Rightarrow> stuck_in_graph (model_new budget) evs
    | Some (m, es) \<Rightarrow>
        rows (m_agg m) = batch_rows (m_agg m) \<and>
        distinct (map (ws_id \<circ> e_span) (ring_entries (m_agg m))) \<and>
        list_all (genuine env now y (sb_inbox b) \<circ> e_span) (ring_entries (m_agg m))"
proof -
  have y: "sys_inv y" by (rule sys_machine.run_inv [OF sys_new_inv [OF assms(1,2)] assms(3,4)])
  note sent = sent_genuine [OF y assms(5,8)]
  have spans: "spans_in (map snd evs) = map (span_to_wire (he_unfilled env) now) (sent_to i j acts)"
    by (rule spans_delivered [OF assms(6,7,9-11)])
  have "owed (spans_in (map snd evs))" using sent(1) assms(14) by (simp add: owed_def spans comp_def)
  from received_run [OF assms(12,13) this] show ?thesis
  proof (cases "ui_run (model_new budget) evs")
    case (Some r)
    obtain m es where r: "r = (m, es)" by (cases r)
    with Some \<open>case ui_run _ _ of Some (m, es) \<Rightarrow> _ m | None \<Rightarrow> _\<close>
    have m: "received (spans_in (map snd evs)) m" by simp
    then have inv: "agg_inv (m_agg m)" and held: "held_set (m_agg m) \<subseteq> set (spans_in (map snd evs))"
      by (simp_all add: received_def model_ok_def)
    have "genuine env now y (sb_inbox b) (e_span e)" if "e \<in> set (ring_entries (m_agg m))" for e
      using ring_entries_held [OF inv that] held sent(2) by (auto simp: spans)
    moreover have "distinct (map (ws_id \<circ> e_span) (ring_entries (m_agg m)))"
      using agg_invD(1) [OF inv] by (simp add: ring_entry_ids [OF inv] ring_ok_def)
    ultimately show ?thesis using Some r rows_batch [OF inv] by (simp add: list_all_iff)
  qed simp
qed

section \<open>A span on its way\<close>

definition sample_record :: span_record where
  "sample_record =
     \<lparr>sr_id = 1024, sr_parent_id = None, sr_metadata = empty_metadata, sr_fields = [(''x'', FBool True)],
      sr_events = [\<lparr>rr_value = \<lparr>er_metadata = Some empty_metadata, er_fields = [(''m'', FSmallString ''hi'')],
        er_recorded_at = Some 6\<rparr>, rr_shard = 0\<rparr>],
      sr_opened_at = 5, sr_closed_at = Some 9\<rparr>"

lemma sample_subscription:
  "\<exists>y b. run_opt (sys_step (\<lambda>_ _ _. True)) (sys_new 2 sample_config) sample_actions = Some y \<and>
     b \<in> set (dr_subscribers (sy_driver y)) \<and> sb_inbox b = [sample_record]"
proof -
  have "map_option (\<lambda>y. map sb_inbox (dr_subscribers (sy_driver y)))
      (run_opt (sys_step (\<lambda>_ _ _. True)) (sys_new 2 sample_config) sample_actions) = Some [[sample_record]]"
    by code_simp
  then show ?thesis by (auto simp: length_Suc_conv)
qed

definition sample_base :: time_base where
  "sample_base = \<lparr>tb_instant_at_start = 0, tb_systime_at_start = 1000\<rparr>"

definition sample_wire :: wire_span where
  "sample_wire = span_to_wire (he_unfilled example_env) sample_base sample_record"

definition sample_session :: "server_action list" where
  "sample_session =
     [Accept, rpc_at 0 1 StartStream, PollStream 0 0, PollStream 0 0, PollStream 0 0, PollStream 0 0,
      SelectArm 0 0 (NextBatch (Some [sample_record]))]"

definition sample_messages :: "response list" where
  "sample_messages =
     map (\<lambda>b. \<lparr>rs_id = 1, rs_control = 0, rs_body = b\<rparr>)
       [RsServerInfo \<lparr>wsi_version = HOST_VERSION\<rparr>, RsCacheLevel LfOff, RsCacheChance (Fin 100), RsSpan sample_wire]"

definition sample_net :: "net_event list" where
  "sample_net =
     [NetDial Started SendOk SendOk SendOk,
      NetItems (ItemOk (hd sample_messages)) (map ItemOk (tl sample_messages)) SendOk SendOk SendOk]"

definition sample_updates :: "(nat \<times> update) list" where
  "sample_updates =
     [(0, Connected), (1, ServerInfoReceived \<lparr>wsi_version = HOST_VERSION\<rparr>), (2, CacheLevelReceived LfOff),
      (3, RequestCacheLevel LfInfo), (4, CacheChanceReceived (Fin 100)), (5, SpanReceived sample_wire)]"

lemma sample_absorbed:
  "map_option (\<lambda>r. map e_span (ring_entries (fst r))) (absorb sample_wire (agg_new 4)) = Some [sample_wire]"
  by code_simp

lemma sample_reaches_ring:
  "\<exists>m es. ui_run (model_new 4) sample_updates = Some (m, es) \<and> map e_span (ring_entries (m_agg m)) = [sample_wire]"
proof -
  obtain a new where "absorb sample_wire (agg_new 4) = Some (a, new)" "map e_span (ring_entries a) = [sample_wire]"
    using sample_absorbed by auto
  then show ?thesis
    by (simp add: sample_updates_def ui_step_def apply_update_def wrap_defs server_update_def span_received_def
        model_new_def try_graph_def)
qed

lemma sample_stream:
  "\<exists>s. server_run example_env (serve 0 (Fin 100) sample_base) sample_session = Some s \<and>
     has_stream s 0 0 \<and> st_out (stream_at s 0 0) = sample_messages"
proof -
  have off: "wlf_from_tracing (u8_to_filter 0) = LfOff" by code_simp
  show ?thesis
    by (simp add: sample_session_def run_simps rpc_at_def stream_poll_def push_level_def push_chance_def yield_response_def
        stream_arm_def stream_at_def bus_defs broadcast_new_def watch_new_def watch_call_def
        level_handle_get_def level_handle_set_def sample_messages_def response_defs example_env_def
        watch_held_def chance_handle_get_def off sample_wire_def stream_state_new_def sampling_passes_def f64_le_refl)
qed

lemma sample_transport:
  "\<exists>n. net_run (\<lambda>_. 0) ''h:1'' net_new sample_net = Some n \<and>
     filter from_server (map snd sample_updates) = filter from_server (nt_updates n)"
  by (simp add: sample_net_def sample_messages_def net_new_def net_dial_def take_id_def net_items_def gather_def
      gather_item_def resp_updates_def resp_to_update_def MAX_BATCH_def sample_updates_def from_server_def Let_def)

lemma process_to_screen_witness:
  "\<exists>y m es. run_opt (sys_step (\<lambda>_ _ _. True)) (sys_new 2 sample_config) sample_actions = Some y \<and>
     ui_run (model_new 4) sample_updates = Some (m, es) \<and> map e_span (ring_entries (m_agg m)) = [sample_wire] \<and>
     genuine example_env sample_base y [sample_record] sample_wire"
proof -
  obtain y b where y: "run_opt (sys_step (\<lambda>_ _ _. True)) (sys_new 2 sample_config) sample_actions = Some y"
    "b \<in> set (dr_subscribers (sy_driver y))" and b: "sb_inbox b = [sample_record]"
    using sample_subscription by blast
  obtain s where s: "server_run example_env (serve 0 (Fin 100) sample_base) sample_session = Some s"
    "has_stream s 0 0" and out: "st_out (stream_at s 0 0) = sample_messages"
    using sample_stream by blast
  obtain n where n: "net_run (\<lambda>_. 0) ''h:1'' net_new sample_net = Some n"
    and upd: "filter from_server (map snd sample_updates) = filter from_server (nt_updates n)"
    using sample_transport by blast
  have cfg: "cfg_lane_count sample_config \<le> 2 ^ 62" "(2::nat) + 3 < 2 ^ 56" by (simp_all add: sample_config_def)
  have pol: "mset (polled 0 0 sample_session) \<subseteq># mset (sb_inbox b)"
    by (simp add: polled_def sample_session_def rpc_at_def b)
  have del: "delivered_to s 0 0 sample_net"
    by (simp add: sample_net_def delivered_to_def out sample_messages_def gather_def gather_item_def resp_updates_def
        resp_to_update_def roomy_def consumed_by_def MAX_BATCH_def)
  have "span_ns sample_wire = 4" by code_simp
  moreover have "spans_in (map snd sample_updates) = [sample_wire]" by (simp add: spans_in_def sample_updates_def)
  ultimately have ns: "sum_list (map span_ns (spans_in (map snd sample_updates))) < 2 ^ 64" by simp
  obtain m es where ui: "ui_run (model_new 4) sample_updates = Some (m, es)"
    and ring: "map e_span (ring_entries (m_agg m)) = [sample_wire]"
    using sample_reaches_ring by auto
  from process_to_screen [OF cfg sample_actions_ok y s pol n del upd _ _ ns, of 4] ui ring b
  have "list_all (genuine example_env sample_base y [sample_record]) [sample_wire]"
    by (simp add: list_all_iff flip: ring)
  then show ?thesis using y(1) ui ring by auto
qed

end
