(* ===== verification/GraphProps.thy ===== *)
theory GraphProps
  imports GraphStore
begin

text \<open>
  The graph store is right: a bin's statistics are those of the samples recorded into it, a sample
  lands in the bin of its time and disturbs no other retained bin, and the two inputs on which the
  code does not return.
\<close>

section \<open>Statistics of a bin\<close>

definition bin_of :: "u64 list \<Rightarrow> bin" where
  "bin_of vs = fold bin_record vs bin_new"

lemma bin_of_snoc: "bin_of (vs @ [v]) = bin_record v (bin_of vs)"
  by (simp add: bin_of_def)

lemma sum_unat_bound: "sum_list (map unat (vs :: u64 list)) \<le> length vs * (2 ^ 64 - 1)"
proof (induction vs)
  case (Cons v vs)
  have "unat v < 2 ^ LENGTH(64)" by (rule unsigned_less)
  then have "unat v \<le> 2 ^ 64 - 1" by simp
  with Cons show ?case by simp
qed simp

lemma sum_between:
  "\<forall>v \<in> set vs. lo \<le> unat v \<Longrightarrow> length vs * lo \<le> sum_list (map unat vs)"
  "\<forall>v \<in> set vs. unat v \<le> hi \<Longrightarrow> sum_list (map unat vs) \<le> length vs * hi"
  by (induction vs) auto

lemma sum_unat_small: "length (vs :: u64 list) < 2 ^ 64 \<Longrightarrow> sum_list (map unat vs) < 2 ^ 128"
proof -
  assume "length vs < 2 ^ 64"
  then have "length vs * (2 ^ 64 - 1) \<le> (2 ^ 64 - 1) * (2 ^ 64 - (1::nat))" by (intro mult_le_mono) simp_all
  with sum_unat_bound [of vs] have "sum_list (map unat vs) \<le> (2 ^ 64 - 1) * (2 ^ 64 - (1::nat))" by linarith
  then show ?thesis by simp
qed

lemma bin_of_count: "length vs < 2 ^ 64 \<Longrightarrow> unat (bn_count (bin_of vs)) = length vs"
proof (induction vs rule: rev_induct)
  case (snoc v vs)
  then show ?case by (simp add: bin_of_snoc bin_record_def unat_add_small)
qed (simp add: bin_of_def bin_new_def)

lemma bin_of_sum: "length vs < 2 ^ 64 \<Longrightarrow> unat (bn_sum_ns (bin_of vs)) = sum_list (map unat vs)"
proof (induction vs rule: rev_induct)
  case (snoc v vs)
  have "unat (ucast v :: u128) = unat v" by (simp add: unsigned_ucast_eq take_bit_nat_eq_self_iff order_less_trans [OF unsigned_less])
  moreover have "sum_list (map unat vs) + unat v < 2 ^ 128" using sum_unat_small [of "vs @ [v]"] snoc.prems by simp
  ultimately show ?case using snoc by (simp add: bin_of_snoc bin_record_def unat_add_small)
qed (simp add: bin_of_def bin_new_def)

lemma bin_of_samples: "bn_samples (bin_of vs) = take BIN_SAMPLE_CAP vs"
  by (induction vs rule: rev_induct)
    (auto simp: bin_of_snoc bin_record_def bin_of_def bin_new_def)

lemma bin_of_extremes:
  "vs \<noteq> [] \<Longrightarrow> length vs < 2 ^ 64 \<Longrightarrow>
     bn_min_ns (bin_of vs) \<in> set vs \<and> bn_max_ns (bin_of vs) \<in> set vs \<and>
     (\<forall>v \<in> set vs. bn_min_ns (bin_of vs) \<le> v \<and> v \<le> bn_max_ns (bin_of vs))"
proof (induction vs rule: rev_nonempty_induct)
  case (single v)
  then show ?case by (simp add: bin_of_def bin_new_def bin_record_def)
next
  case (snoc v vs)
  then have "bn_count (bin_of vs) \<noteq> 0" using bin_of_count [of vs] by auto
  with snoc show ?case by (auto simp: bin_of_snoc bin_record_def min_def max_def)
qed

text \<open>The statistic a bin shows is the statistic of what was recorded into it: count, smallest,
  largest, average rounded down, and for a percentile an element of the (first 4096) samples, so
  that every mode lies between the smallest and the largest sample.\<close>

theorem bin_statistics:
  assumes "vs \<noteq> []" "length vs < 2 ^ 64"
  shows "unat (bin_value (bin_of vs) mode Count) = length vs \<and>
    bin_aggregate Min (bin_of vs) \<in> set vs \<and> bin_aggregate Max (bin_of vs) \<in> set vs \<and>
    unat (bin_aggregate Avg (bin_of vs)) = sum_list (map unat vs) div length vs \<and>
    bin_aggregate (Percentile p) (bin_of vs) \<in> set (take 4096 vs) \<and>
    (\<forall>v \<in> set vs. bin_aggregate Min (bin_of vs) \<le> v \<and> v \<le> bin_aggregate Max (bin_of vs)) \<and>
    bin_aggregate Min (bin_of vs) \<le> bin_aggregate mode (bin_of vs) \<and>
    bin_aggregate mode (bin_of vs) \<le> bin_aggregate Max (bin_of vs)"
proof -
  let ?b = "bin_of vs"
  have nz: "bn_count ?b \<noteq> 0" using bin_of_count [OF assms(2)] assms(1) by auto
  note E = bin_of_extremes [OF assms]
  have mm: "bin_aggregate Min ?b = bn_min_ns ?b" "bin_aggregate Max ?b = bn_max_ns ?b"
    using nz by (simp_all add: bin_aggregate_def)
  have avg: "unat (bin_aggregate Avg ?b) = sum_list (map unat vs) div length vs"
  proof -
    have n: "unat (ucast (bn_count ?b) :: u128) = length vs"
      using bin_of_count [OF assms(2)] assms(2)
      by (simp add: unsigned_ucast_eq take_bit_nat_eq_self_iff)
    have "sum_list (map unat vs) div length vs < 2 ^ 64"
    proof -
      have "sum_list (map unat vs) \<le> length vs * (2 ^ 64 - 1)" by (rule sum_unat_bound)
      then have "sum_list (map unat vs) div length vs \<le> 2 ^ 64 - 1"
        by (metis assms(1) div_le_mono length_greater_0_conv nonzero_mult_div_cancel_left not_gr_zero)
      then show ?thesis by simp
    qed
    moreover have "unat (bn_sum_ns ?b div ucast (bn_count ?b)) = sum_list (map unat vs) div length vs"
      unfolding unat_div n bin_of_sum [OF assms(2)] ..
    ultimately show ?thesis
      using nz by (simp add: bin_aggregate_def unsigned_ucast_eq [of "bn_sum_ns ?b div ucast (bn_count ?b)"] take_bit_nat_eq_self)
  qed
  have pct: "bin_aggregate (Percentile q) ?b \<in> set (take 4096 vs)" for q
  proof -
    have "0 < length (sort (take 4096 vs))" using assms(1) by simp
    then have "length (sort (take 4096 vs)) - 1 < length (sort (take 4096 vs))" by (rule diff_less [OF zero_less_one])
    then have "sort (take 4096 vs) ! min k (length (sort (take 4096 vs)) - 1) \<in> set (sort (take 4096 vs))" for k
      by (intro nth_mem) (rule order_le_less_trans [OF min.cobounded2])
    then show ?thesis
      using nz assms(1) by (simp add: bin_aggregate_def bin_of_samples BIN_SAMPLE_CAP_def Let_def)
  qed
  have avg_between: "bn_min_ns ?b \<le> bin_aggregate Avg ?b \<and> bin_aggregate Avg ?b \<le> bn_max_ns ?b"
  proof -
    have "length vs * unat (bn_min_ns ?b) \<le> sum_list (map unat vs)"
      "sum_list (map unat vs) \<le> length vs * unat (bn_max_ns ?b)"
      using E by (auto intro!: sum_between simp: word_le_nat_alt)
    then have "length vs * unat (bn_min_ns ?b) div length vs \<le> sum_list (map unat vs) div length vs"
      "sum_list (map unat vs) div length vs \<le> length vs * unat (bn_max_ns ?b) div length vs"
      by (simp_all only: div_le_mono)
    then show ?thesis using assms(1) by (simp add: word_le_nat_alt avg)
  qed
  have "bin_aggregate mode ?b \<in> set vs \<or> mode = Avg"
    using pct set_take_subset [of 4096 vs] E mm by (cases mode) auto
  then show ?thesis
    using E mm avg pct avg_between bin_of_count [OF assms(2)] by (auto simp: bin_value_def is_count_def)
qed

lemma bin_statistics_witness:
  "bin_aggregate Min (bin_of [7, 3, 9, 4]) = 3 \<and> bin_aggregate Avg (bin_of [7, 3, 9, 4]) = 5 \<and>
   bin_aggregate (Percentile (Fin 50)) (bin_of [7, 3, 9, 4]) = 7 \<and>
   bin_aggregate (Percentile (Fin 50)) (bin_of [7, 3, 9, 4]) \<le> bin_aggregate Max (bin_of [7, 3, 9, 4])"
proof -
  have "bin_aggregate Min (bin_of [7, 3, 9, 4]) = 3" "bin_aggregate Avg (bin_of [7, 3, 9, 4]) = 5"
    "bin_aggregate (Percentile (Fin 50)) (bin_of [7, 3, 9, 4]) = 7" by code_simp+
  moreover have "[7, 3, 9, 4 :: u64] \<noteq> []" "length [7, 3, 9, 4 :: u64] < 2 ^ 64" by simp_all
  note bin_statistics [OF this, of "Percentile (Fin 50)" "Fin 50"]
  ultimately show ?thesis by blast
qed

section \<open>Where a sample lands\<close>

text \<open>The bin of a series at an absolute index.\<close>

definition bin_at :: "series \<Rightarrow> nat \<Rightarrow> bin option" where
  "bin_at s i =
     (if unat (se_base_idx s) \<le> i \<and> i < unat (se_base_idx s) + length (se_bins s)
      then se_bins s ! (i - unat (se_base_idx s)) else None)"

definition series_ok :: "series \<Rightarrow> bool" where
  "series_ok s \<longleftrightarrow> length (se_bins s) \<le> BIN_CAP \<and> unat (se_base_idx s) + length (se_bins s) < 2 ^ 63"

lemma evict_front_spec:
  "unat base + length bins < 2 ^ 64 \<Longrightarrow>
     evict_front bins base = (drop (length bins - BIN_CAP) bins, base + of_nat (length bins - BIN_CAP)) \<and>
     unat (base + of_nat (length bins - BIN_CAP)) = unat base + (length bins - BIN_CAP)"
proof (induction bins base rule: evict_front.induct)
  case (2 b bins base)
  show ?case
  proof (cases "length (b # bins) > BIN_CAP")
    case True
    have "unat (base + 1) = unat base + 1" using 2(2) by (simp add: unat_add_small)
    then have "unat (base + 1) + length bins < 2 ^ 64" using 2(2) by simp
    note IH = 2(1) [OF True this]
    have n: "length (b # bins) - BIN_CAP = Suc (length bins - BIN_CAP)" using True by (simp add: Suc_diff_le)
    define d where "d = length bins - BIN_CAP"
    have "base + of_nat (Suc d) = base + 1 + of_nat d" by simp
    then show ?thesis
      using IH True \<open>unat (base + 1) = unat base + 1\<close>
      unfolding n d_def [symmetric] \<open>base + of_nat (Suc d) = base + 1 + of_nat d\<close> by simp
  next
    case False
    then show ?thesis by simp
  qed
qed simp

definition landing_ok :: "u64 \<Rightarrow> series \<Rightarrow> bool" where
  "landing_ok bin_idx s \<longleftrightarrow> unat bin_idx < 2 ^ 63 - 1 \<and>
     (se_bins s \<noteq> [] \<longrightarrow> se_base_idx s \<le> bin_idx \<and> unat bin_idx - unat (se_base_idx s) < DEQUE_MAX)"

text \<open>The newest index a series covers after a sample.\<close>

definition newest :: "u64 \<Rightarrow> series \<Rightarrow> nat" where
  "newest bin_idx s = max (unat bin_idx) (if se_bins s = [] then 0 else unat (se_base_idx s) + length (se_bins s) - 1)"

lemma put_sample_parts:
  assumes s: "series_ok s" and l: "landing_ok bin_idx s"
  defines "base \<equiv> (if se_bins s = [] then bin_idx else se_base_idx s)"
  defines "bins \<equiv> se_bins s @ replicate (unat bin_idx + 1 - unat base - length (se_bins s)) None"
  defines "gone \<equiv> length bins - BIN_CAP"
  defines "slot \<equiv> unat bin_idx - (unat base + gone)"
  shows "unat base + gone \<le> unat bin_idx" "slot < length (drop gone bins)" "unat (base + of_nat gone) = unat base + gone"
    "unat base + length bins = newest bin_idx s + 1" "length (drop gone bins) \<le> BIN_CAP"
    "put_sample bin_idx v s = Some \<lparr>se_bins = (drop gone bins)
        [slot := Some (bin_record v (case drop gone bins ! slot of None \<Rightarrow> bin_new | Some b \<Rightarrow> b))],
      se_base_idx = base + of_nat gone\<rparr>"
proof -
  have le: "unat base \<le> unat bin_idx" and lt: "unat bin_idx < 2 ^ 63 - 1"
    and jump: "unat bin_idx - unat base < DEQUE_MAX"
    using l by (auto simp: landing_ok_def base_def word_le_nat_alt DEQUE_MAX_def split: if_splits)
  have need: "unat (bin_idx + 1 - base) = unat bin_idx + 1 - unat base"
  proof -
    have s1: "unat (bin_idx + 1) = unat bin_idx + 1" using lt by (simp add: unat_add_small)
    then have "base \<le> bin_idx + 1" using le by (simp add: word_le_nat_alt)
    then show ?thesis using s1 by (simp add: unat_sub)
  qed
  have len: "unat base + length bins = max (unat bin_idx + 1) (unat base + length (se_bins s))"
    using le by (simp add: bins_def)
  show new: "unat base + length bins = newest bin_idx s + 1"
    using len le by (auto simp: newest_def base_def)
  have small: "unat base + length bins < 2 ^ 64"
    using len s lt by (auto simp: series_ok_def base_def max_def split: if_splits)
  note ev = evict_front_spec [OF small, folded gone_def]
  show cutb: "unat (base + of_nat gone) = unat base + gone" using ev by simp
  have cap: "length (se_bins s) \<le> 600" using s by (simp add: series_ok_def BIN_CAP_def)
  show c: "unat base + gone \<le> unat bin_idx"
    using cap le len by (auto simp: gone_def BIN_CAP_def max_def split: if_splits)
  show sl: "slot < length (drop gone bins)"
    using c len le by (auto simp: slot_def)
  show "length (drop gone bins) \<le> BIN_CAP" by (simp add: gone_def)
  have sub: "unat (bin_idx - (base + of_nat gone)) = slot"
    using c cutb by (simp add: slot_def unat_sub word_le_nat_alt)
  have "\<not> unat bin_idx + 1 - unat base > DEQUE_MAX" using jump by simp
  then have fill: "fill_back (unat bin_idx + 1 - unat base) (se_bins s) = Some bins"
    by (simp only: fill_back_def bins_def if_False)
  show "put_sample bin_idx v s = Some \<lparr>se_bins = (drop gone bins)
        [slot := Some (bin_record v (case drop gone bins ! slot of None \<Rightarrow> bin_new | Some b \<Rightarrow> b))],
      se_base_idx = base + of_nat gone\<rparr>"
    using ev sub sl unfolding put_sample_def base_def [symmetric] Let_def need fill by simp
qed

lemma nth_padded: "j < length bins + k \<Longrightarrow> (bins @ replicate k None) ! j = (if j < length bins then bins ! j else None)"
  by (auto simp: nth_append)

lemma newest_bound: "series_ok s \<Longrightarrow> landing_ok bin_idx s \<Longrightarrow> newest bin_idx s + 1 < 2 ^ 63"
  by (auto simp: newest_def series_ok_def landing_ok_def)

text \<open>A sample whose time is not before the series' retained range is recorded: its bin, and no
  other, takes the value; every other bin of the last 600 indices is kept and older ones are
  forgotten; the series stays within its cap.\<close>

theorem sample_lands:
  assumes s: "series_ok s" and l: "landing_ok bin_idx s"
  shows "\<exists>s'. put_sample bin_idx v s = Some s' \<and> series_ok s' \<and>
    (\<forall>i. bin_at s' i =
      (if i = unat bin_idx then Some (bin_record v (case bin_at s i of None \<Rightarrow> bin_new | Some b \<Rightarrow> b))
       else if i + BIN_CAP \<le> newest bin_idx s then None else bin_at s i))"
proof -
  define base where "base = (if se_bins s = [] then bin_idx else se_base_idx s)"
  define bins where "bins = se_bins s @ replicate (unat bin_idx + 1 - unat base - length (se_bins s)) None"
  define gone where "gone = length bins - BIN_CAP"
  define slot where "slot = unat bin_idx - (unat base + gone)"
  note P = put_sample_parts [OF s l, folded base_def, folded bins_def, folded gone_def, folded slot_def]
  define x where "x = Some (bin_record v (case drop gone bins ! slot of None \<Rightarrow> bin_new | Some b \<Rightarrow> b))"
  define s' where "s' = \<lparr>se_bins = (drop gone bins)[slot := x], se_base_idx = base + of_nat gone\<rparr>"
  have at: "bins ! j = bin_at s (unat base + j)" if "j < length bins" for j
    using that nth_padded [of j "se_bins s"] by (auto simp: bins_def bin_at_def base_def split: if_splits)
  have here: "drop gone bins ! slot = bin_at s (unat bin_idx)"
    using P(1,2) by (simp add: at slot_def)
  have len: "length (se_bins s') = length bins - gone" "unat (se_base_idx s') = unat base + gone"
    using P(3) by (simp_all add: s'_def)
  have other: "bin_at s' i = bin_at s i" if "i \<noteq> unat bin_idx" "unat base + gone \<le> i" for i
  proof (cases "i < unat base + length bins")
    case True
    then have "bin_at s' i = (drop gone bins)[slot := x] ! (i - (unat base + gone))"
      using that len by (auto simp: bin_at_def s'_def)
    also have "\<dots> = drop gone bins ! (i - (unat base + gone))"
      using that P(1) by (intro nth_list_update_neq) (auto simp: slot_def)
    also have "\<dots> = bins ! (i - unat base)" using that True by simp
    also have "\<dots> = bin_at s i" using that True by (subst at) auto
    finally show ?thesis .
  next
    case False
    have "length (se_bins s) \<le> length bins" by (simp add: bins_def)
    then show ?thesis using False len by (auto simp: bin_at_def base_def)
  qed
  have hit: "bin_at s' (unat bin_idx) = x"
    using P(1,2) len by (auto simp: bin_at_def s'_def slot_def)
  have old: "bin_at s' i = None" if "i < unat base + gone" for i
    using that len by (simp add: bin_at_def)
  have before: "bin_at s i = None" if "i < unat base" for i
    using that by (auto simp: bin_at_def base_def split: if_splits)
  have "bin_at s' i =
      (if i = unat bin_idx then Some (bin_record v (case bin_at s i of None \<Rightarrow> bin_new | Some b \<Rightarrow> b))
       else if i + BIN_CAP \<le> newest bin_idx s then None else bin_at s i)" for i
  proof (cases "i = unat bin_idx")
    case True
    then show ?thesis using hit here by (simp add: x_def)
  next
    case False
    show ?thesis
    proof (cases "unat base + gone \<le> i")
      case True
      have "bin_at s i = None" if "i + BIN_CAP \<le> newest bin_idx s"
        using that True P(4) by (auto simp: gone_def)
      with other [OF False True] False show ?thesis by auto
    next
      case below: False
      then have "i + BIN_CAP \<le> newest bin_idx s \<or> i < unat base"
        using P(4) by (auto simp: gone_def)
      with False old [of i] before [of i] below show ?thesis by auto
    qed
  qed
  moreover have "series_ok s'"
    using P(4,5) newest_bound [OF s l] len by (simp add: series_ok_def gone_def)
  moreover have "put_sample bin_idx v s = Some s'" using P(6) by (simp add: s'_def x_def)
  ultimately show ?thesis by blast
qed

lemma sample_lands_witness:
  "\<exists>s'. put_sample 12 5 \<lparr>se_bins = [Some (bin_record 3 bin_new)], se_base_idx = 10\<rparr> = Some s' \<and>
     bin_at s' 12 = Some (bin_record 5 bin_new) \<and> bin_at s' 10 = Some (bin_record 3 bin_new) \<and> bin_at s' 11 = None"
proof -
  let ?s = "\<lparr>se_bins = [Some (bin_record 3 bin_new)], se_base_idx = 10\<rparr>"
  have "series_ok ?s" "landing_ok 12 ?s"
    by (simp_all add: series_ok_def landing_ok_def BIN_CAP_def DEQUE_MAX_def word_le_nat_alt)
  from sample_lands [OF this, of 5] obtain s' where s: "put_sample 12 5 ?s = Some s'"
    "\<And>i. bin_at s' i = (if i = unat (12 :: u64) then Some (bin_record 5 (case bin_at ?s i of None \<Rightarrow> bin_new | Some b \<Rightarrow> b))
       else if i + BIN_CAP \<le> newest 12 ?s then None else bin_at ?s i)" by blast
  show ?thesis
    by (rule exI [of _ s'], unfold s(2)) (simp add: s(1) bin_at_def newest_def BIN_CAP_def)
qed

section \<open>Where the store does not return\<close>

text \<open>C39. Two inputs crash the graph: a sample older than the first bin its series still has (spans
  arrive in close order only per thread, and a waiting child is recorded after its parent), and any
  sample once a window so small was entered that it rounds to zero nanoseconds.\<close>

theorem late_sample_panics:
  assumes "se_bins s \<noteq> []" "length (se_bins s) \<le> BIN_CAP" "unat (se_base_idx s) < 2 ^ 63" "bin_idx < se_base_idx s"
  shows "put_sample bin_idx v s = None \<and>
    store_record key 5 v (store_new (Fin (1 / 10000000000))) = None"
proof -
  let ?base = "se_base_idx s"
  have lt: "unat bin_idx < unat ?base" using assms(4) by (simp add: word_less_nat_alt)
  have suc: "unat (bin_idx + 1) = unat bin_idx + 1" using lt assms(3) by (simp add: unat_add_small)
  have "put_sample bin_idx v s = None"
  proof (cases "bin_idx + 1 = ?base")
    case True
    have "bin_idx - ?base = - 1" using True by (metis add_diff_cancel_left' diff_self minus_diff_eq diff_diff_eq2 diff_0)
    then have slot: "unat (bin_idx - ?base) = 2 ^ 64 - 1" by (simp add: unsigned_minus_1_eq_mask mask_eq_exp_minus_1)
    have ev: "evict_front (se_bins s) ?base = (se_bins s, ?base)"
      using assms(2) by (cases "se_bins s") simp_all
    show ?thesis
      using True assms(1,2) slot ev by (simp add: put_sample_def fill_back_def BIN_CAP_def)
  next
    case False
    then have "unat (bin_idx + 1) < unat ?base" using suc lt by (metis Suc_eq_plus1 Suc_leI le_neq_implies_less word_unat_eq_iff)
    then have "unat (bin_idx + 1 - ?base) = 2 ^ 64 + unat (bin_idx + 1) - unat ?base"
      by (subst unat_sub_if') (simp add: word_less_nat_alt not_le)
    moreover have "2 ^ 64 + unat (bin_idx + 1) - unat ?base > 2 ^ 57" using assms(3) by simp
    ultimately have "unat (bin_idx + 1 - ?base) > DEQUE_MAX" by (simp only: DEQUE_MAX_def)
    then show ?thesis using assms(1) by (simp add: put_sample_def fill_back_def)
  qed
  moreover have "store_record key 5 v (store_new (Fin (1 / 10000000000))) = None"
  proof -
    have "gs_window_ns (store_new (Fin (1 / 10000000000))) = 0" by code_simp
    then show ?thesis by (simp add: store_record_def store_new_def sat_sub_def Let_def)
  qed
  ultimately show ?thesis ..
qed

lemma late_sample_panics_witness:
  "put_sample 8 5 \<lparr>se_bins = [Some (bin_record 3 bin_new)], se_base_idx = 10\<rparr> = None"
  using late_sample_panics [of "\<lparr>se_bins = [Some (bin_record 3 bin_new)], se_base_idx = 10\<rparr>" 8 5 "[]"]
  by (simp add: BIN_CAP_def word_less_nat_alt)

end
