(* ===== verification/ModelRows.thy ===== *)
theory ModelRows
  imports Model ExploreProps
begin

text \<open>
  The rows of the table and the receive rate: the visible rows are the rows whose ancestors are all
  expanded, a row is marked as a parent exactly when some row extends it, expanding and collapsing
  reveal and hide exactly a row's descendants; the rate counts the events of the last four seconds
  of completed half-seconds, and what an idle period does to it.
\<close>

section \<open>Sorted stacks\<close>

definition extends :: "string list \<Rightarrow> string list \<Rightarrow> bool" where
  "extends s t \<longleftrightarrow> length t < length s \<and> starts_with s t"

lemma starts_with_append: "starts_with (xs @ zs) xs"
  by (auto simp: starts_with_iff)

lemma prefix_between:
  fixes p s t :: "'a::linorder list"
  assumes "p \<le> s" "s \<le> t" "starts_with t p"
  shows "starts_with s p"
  using assms
proof (induction p arbitrary: s t)
  case (Cons x p)
  obtain t' where t: "t = x # t'" "starts_with t' p" using Cons.prems(3) by (cases t) auto
  show ?case
  proof (cases s)
    case (Cons y s')
    with \<open>x # p \<le> s\<close> \<open>s \<le> t\<close> t have "y = x" "p \<le> s'" "s' \<le> t'" by (auto simp: less_le)
    with Cons.IH t(2) \<open>s = y # s'\<close> show ?thesis by simp
  qed (use Cons.prems in simp)
qed simp

definition stacks_sorted :: "(bucket_key \<times> 'a) list \<Rightarrow> bool" where
  "stacks_sorted rs = sorted (map (bk_stack \<circ> fst) rs)"

lemma rows_sorted: "stacks_sorted (rows a)"
proof -
  have "sorted (map (\<lambda>r. (bk_stack (fst r), bk_splits (fst r))) (rows a))" by (simp add: rows_def)
  then have "sorted_wrt (\<lambda>r q. bk_stack (fst r) \<le> bk_stack (fst q)) (rows a)"
    by (auto simp: sorted_map elim!: sorted_wrt_mono_rel [rotated])
  then show ?thesis by (simp add: stacks_sorted_def sorted_map)
qed

lemma child_scan_extends:
  "sorted (map (bk_stack \<circ> fst) rs) \<Longrightarrow> (\<And>r. r \<in> set rs \<Longrightarrow> stack \<le> bk_stack (fst r)) \<Longrightarrow>
     child_scan stack rs \<longleftrightarrow> (\<exists>r \<in> set rs. extends (bk_stack (fst r)) stack)"
proof (induction stack rs rule: child_scan.induct)
  case (2 stack key st rest)
  show ?case
  proof (cases "starts_with (bk_stack key) stack")
    case True
    with 2 show ?thesis by (auto simp: extends_def)
  next
    case False
    have "\<not> starts_with (bk_stack (fst r)) stack" if "r \<in> set rest" for r
    proof
      assume "starts_with (bk_stack (fst r)) stack"
      moreover have "stack \<le> bk_stack key" "bk_stack key \<le> bk_stack (fst r)" using 2(2,3) that by force+
      ultimately show False using False prefix_between by blast
    qed
    with False show ?thesis by (auto simp: extends_def)
  qed
qed simp

lemma extends_le: "extends s t \<Longrightarrow> t \<le> (s :: string list)"
proof -
  have "t \<le> t @ zs" for t zs :: "string list" by (induction t) auto
  then show "extends s t \<Longrightarrow> t \<le> s" by (auto simp: extends_def starts_with_iff)
qed

definition ancestors :: "string list \<Rightarrow> string list set" where
  "ancestors s = {take k s | k. 1 \<le> k \<and> k < length s}"

lemma row_visible_iff: "row_visible expanded s \<longleftrightarrow> ancestors s \<subseteq> expanded"
proof -
  have "ancestors s = (\<lambda>k. take k s) ` set [1..<length s]" by (auto simp: ancestors_def)
  then show ?thesis by (simp only: row_visible_def list_all_iff image_subset_iff)
qed

lemma keys_visible: "map vr_key (visible_from ex rs) = filter (\<lambda>k. ancestors (bk_stack k) \<subseteq> ex) (map fst rs)"
  by (induction ex rs rule: visible_from.induct) (auto simp: row_visible_iff)

lemma children_visible:
  "stacks_sorted (done @ rs) \<Longrightarrow> r \<in> set (visible_from ex rs) \<Longrightarrow>
     vr_has_children r = (\<exists>q \<in> set (done @ rs). extends (bk_stack (fst q)) (bk_stack (vr_key r)))"
proof (induction ex rs arbitrary: "done" rule: visible_from.induct)
  case (2 ex key st rest)
  show ?case
  proof (cases "row_visible ex (bk_stack key) \<and> r = \<lparr>vr_key = key, vr_stats = st, vr_depth = length (bk_stack key) - 1,
            vr_has_children = child_scan (bk_stack key) rest, vr_is_expanded = (bk_stack key \<in> ex)\<rparr>")
    case True
    have s: "sorted (map (bk_stack \<circ> fst) rest)" "\<And>q. q \<in> set rest \<Longrightarrow> bk_stack key \<le> bk_stack (fst q)"
      "\<And>q. q \<in> set done \<Longrightarrow> bk_stack (fst q) \<le> bk_stack key"
      using 2(3) by (auto simp: stacks_sorted_def sorted_append)
    have "\<not> extends (bk_stack (fst q)) (bk_stack key)" if "q \<in> set done" for q
    proof
      assume e: "extends (bk_stack (fst q)) (bk_stack key)"
      with extends_le [OF e] s(3) [OF that] have "bk_stack (fst q) = bk_stack key" by simp
      with e show False by (simp add: extends_def)
    qed
    moreover have "\<not> extends (bk_stack key) (bk_stack key)" by (simp add: extends_def)
    ultimately show ?thesis using True child_scan_extends [OF s(1,2)] by auto
  next
    case False
    with 2(4) have "r \<in> set (visible_from ex rest)" by (auto split: if_splits)
    with 2(1,2) [of "done @ [(key, st)]"] 2(3) show ?thesis by (cases "row_visible ex (bk_stack key)") auto
  qed
qed simp

text \<open>The visible rows are, in the order of the table, the rows whose every ancestor stack is
  expanded, and a row carries the parent mark exactly when the stack of some row extends its own.\<close>

theorem visible_rows_tree:
  "map vr_key (visible_rows m) =
     filter (\<lambda>k. ancestors (bk_stack k) \<subseteq> m_expanded m) (map fst (rows (m_agg m))) \<and>
   map vr_has_children (visible_rows m) =
     map (\<lambda>r. \<exists>q \<in> set (rows (m_agg m)). extends (bk_stack (fst q)) (bk_stack (vr_key r))) (visible_rows m)"
proof
  show "map vr_key (visible_rows m) =
     filter (\<lambda>k. ancestors (bk_stack k) \<subseteq> m_expanded m) (map fst (rows (m_agg m)))"
    unfolding visible_rows_def by (rule keys_visible)
  show "map vr_has_children (visible_rows m) =
     map (\<lambda>r. \<exists>q \<in> set (rows (m_agg m)). extends (bk_stack (fst q)) (bk_stack (vr_key r))) (visible_rows m)"
    unfolding visible_rows_def using children_visible [of "[]" "rows (m_agg m)"] rows_sorted by (intro map_cong) auto
qed

section \<open>Expanding and collapsing\<close>

lemma starts_with_take': "starts_with s t \<Longrightarrow> length t \<le> k \<Longrightarrow> starts_with (take k s) t"
  by (auto simp: starts_with_iff)

lemma take_starts: "starts_with s t \<Longrightarrow> k \<le> length t \<Longrightarrow> take k s = take k t"
  by (auto simp: starts_with_iff)

lemma ancestors_extends:
  assumes "starts_with s t" "t \<noteq> []"
  shows "ancestors s = (if s = t then {} else {take k s | k. length t \<le> k \<and> k < length s}) \<union> ancestors t"
proof -
  have len: "length t \<le> length s" "1 \<le> length t" using assms by (auto simp: starts_with_iff Suc_le_eq)
  have eq: "length s = length t \<Longrightarrow> s = t" using assms(1) by (auto simp: starts_with_iff)
  have "x \<in> ancestors s \<longleftrightarrow> x \<in> {take k s | k. length t \<le> k \<and> k < length s} \<union> ancestors t" for x
  proof
    assume "x \<in> ancestors s"
    then obtain k where k: "x = take k s" "1 \<le> k" "k < length s" by (auto simp: ancestors_def)
    show "x \<in> {take k s | k. length t \<le> k \<and> k < length s} \<union> ancestors t"
    proof (cases "length t \<le> k")
      case False
      with k take_starts [OF assms(1), of k] show ?thesis by (auto simp: ancestors_def)
    qed (use k in blast)
  next
    assume "x \<in> {take k s | k. length t \<le> k \<and> k < length s} \<union> ancestors t"
    then consider k where "x = take k s" "length t \<le> k" "k < length s"
      | k where "x = take k t" "1 \<le> k" "k < length t" by (auto simp: ancestors_def)
    then show "x \<in> ancestors s"
    proof cases
      case 1
      then have "1 \<le> k" using len by simp
      with 1 show ?thesis by (auto simp: ancestors_def)
    next
      case 2
      then have "x = take k s" "k < length s" using take_starts [OF assms(1), of k] len by simp_all
      with 2(2) show ?thesis unfolding ancestors_def by blast
    qed
  qed
  then show ?thesis using eq len by auto
qed

lemma selected_row:
  assumes "get_at (visible_rows m) (m_selected m) = Some r"
  shows "ancestors (bk_stack (vr_key r)) \<subseteq> m_expanded m" "vr_is_expanded r = (bk_stack (vr_key r) \<in> m_expanded m)"
proof -
  have r: "r \<in> set (visible_rows m)" using assms by (auto simp: get_at_def split: if_splits)
  then have "vr_key r \<in> set (map vr_key (visible_rows m))" by simp
  then show "ancestors (bk_stack (vr_key r)) \<subseteq> m_expanded m"
    unfolding visible_rows_def keys_visible by simp
  have "r \<in> set (visible_from ex rs) \<Longrightarrow> vr_is_expanded r = (bk_stack (vr_key r) \<in> ex)" for ex rs
    by (induction ex rs rule: visible_from.induct) (auto split: if_splits)
  with r show "vr_is_expanded r = (bk_stack (vr_key r) \<in> m_expanded m)" by (simp add: visible_rows_def)
qed

lemma prefix_extends: "starts_with (take k s) t \<Longrightarrow> k < length s \<Longrightarrow> extends s t"
  unfolding extends_def starts_with_iff
  by (metis append.assoc append_take_drop_id length_append length_take min.absorb4 not_add_less1 not_less le_less_trans)

text \<open>What expanding adds is at or below the row, so only the rows below it can need it.\<close>

definition below_prefixes :: "string list \<Rightarrow> bucket_key list \<Rightarrow> string list set" where
  "below_prefixes t ks =
     (\<Union>k \<in> {k \<in> set ks. extends (bk_stack k) t}. (\<lambda>j. take j (bk_stack k)) ` {length t..<length (bk_stack k)})"

lemma below_prefixes_rows:
  "below_prefixes t (map fst rs) = set (concat (map (\<lambda>(k, _).
     if starts_with (bk_stack k) t \<and> length (bk_stack k) > length t
     then map (\<lambda>len. take len (bk_stack k)) [length t..<length (bk_stack k)] else []) rs))"
proof (induction rs)
  case (Cons r rs)
  have "below_prefixes t (k # ks) =
      (if extends (bk_stack k) t then (\<lambda>j. take j (bk_stack k)) ` {length t..<length (bk_stack k)} else {}) \<union> below_prefixes t ks" for k ks
    by (auto simp: below_prefixes_def)
  with Cons show ?case by (cases r) (auto simp: extends_def)
qed (simp add: below_prefixes_def)

lemma expanded_below:
  assumes "k \<in> set ks" "t \<noteq> []" "ancestors t \<subseteq> ex"
  shows "ancestors (bk_stack k) \<subseteq> ex \<union> below_prefixes t ks \<longleftrightarrow> extends (bk_stack k) t \<or> ancestors (bk_stack k) \<subseteq> ex"
proof (cases "extends (bk_stack k) t")
  case True
  then have "ancestors (bk_stack k) = {take j (bk_stack k) | j. length t \<le> j \<and> j < length (bk_stack k)} \<union> ancestors t"
    using ancestors_extends [of "bk_stack k" t] assms(2) by (auto simp: extends_def)
  with True assms show ?thesis by (auto simp: below_prefixes_def)
next
  case False
  have "x \<notin> below_prefixes t ks" if "x \<in> ancestors (bk_stack k)" for x
  proof
    assume "x \<in> below_prefixes t ks"
    then have "starts_with x t" by (auto simp: below_prefixes_def extends_def intro: starts_with_take')
    with that False show False by (auto simp: ancestors_def intro: prefix_extends)
  qed
  with False show ?thesis by auto
qed

text \<open>C32. In the table, \<open>Enter\<close> on the row under the cursor makes exactly the rows below it visible
  besides those that were, in the order of the table; collapsing an expanded row hides exactly the
  rows below it. (A stack is never empty: it ends with the name of the span.)\<close>

theorem expand_collapse_subtree:
  assumes "m_focus m = Stacks" "get_at (visible_rows m) (m_selected m) = Some r" "bk_stack (vr_key r) \<noteq> []"
  shows "map vr_key (visible_rows (expand_all_selected m)) =
      filter (\<lambda>k. extends (bk_stack k) (bk_stack (vr_key r)) \<or> k \<in> set (map vr_key (visible_rows m))) (map fst (rows (m_agg m))) \<and>
    (vr_is_expanded r \<longrightarrow> map vr_key (visible_rows (collapse_selected m)) =
       filter (\<lambda>k. \<not> extends (bk_stack k) (bk_stack (vr_key r))) (map vr_key (visible_rows m)))"
proof
  let ?t = "bk_stack (vr_key r)" and ?ks = "map fst (rows (m_agg m))"
  note R = selected_row [OF assms(2)]
  note below_prefixes_rows [of ?t "rows (m_agg m)"]
  then have ex: "m_expanded (expand_all_selected m) = m_expanded m \<union> below_prefixes ?t ?ks" "m_agg (expand_all_selected m) = m_agg m"
    using assms(1,2) by (simp_all add: expand_all_selected_def Let_def)
  show "map vr_key (visible_rows (expand_all_selected m)) =
      filter (\<lambda>k. extends (bk_stack k) ?t \<or> k \<in> set (map vr_key (visible_rows m))) ?ks"
    unfolding visible_rows_def keys_visible ex using expanded_below [OF _ assms(3) R(1)]
    by (intro filter_cong refl) simp
  show "vr_is_expanded r \<longrightarrow> map vr_key (visible_rows (collapse_selected m)) =
       filter (\<lambda>k. \<not> extends (bk_stack k) ?t) (map vr_key (visible_rows m))"
  proof
    assume "vr_is_expanded r"
    then have c: "m_expanded (collapse_selected m) = {s \<in> m_expanded m. \<not> starts_with s ?t}"
      "m_agg (collapse_selected m) = m_agg m"
      using assms(1,2) by (simp_all add: collapse_selected_def retain_outside_def)
    have "ancestors s \<subseteq> {s \<in> m_expanded m. \<not> starts_with s ?t} \<longleftrightarrow> ancestors s \<subseteq> m_expanded m \<and> \<not> extends s ?t" for s
    proof -
      have "(\<exists>x \<in> ancestors s. starts_with x ?t) \<longleftrightarrow> extends s ?t"
      proof
        assume "\<exists>x \<in> ancestors s. starts_with x ?t"
        then obtain k where "starts_with (take k s) ?t" "k < length s" by (auto simp: ancestors_def)
        then show "extends s ?t" by (rule prefix_extends)
      next
        assume e: "extends s ?t"
        then have "take (length ?t) s = ?t" by (auto simp: extends_def starts_with_take)
        with e assms(3) show "\<exists>x \<in> ancestors s. starts_with x ?t"
          by (intro bexI [of _ ?t]) (auto simp: ancestors_def extends_def starts_with_take Suc_le_eq intro!: exI [of _ "length ?t"])
      qed
      then show ?thesis by auto
    qed
    then show "map vr_key (visible_rows (collapse_selected m)) =
       filter (\<lambda>k. \<not> extends (bk_stack k) ?t) (map vr_key (visible_rows m))"
      unfolding visible_rows_def keys_visible c by (simp add: conj_commute)
  qed
qed

text \<open>A table whose first row is expanded: \<open>Enter\<close> there, with all the rows it then shows.\<close>

lemma expand_collapse_subtree_witness:
  "let m = (model_new 3)\<lparr>m_agg := sample_agg 3, m_expanded := {[''a'']}\<rparr>
   in map (bk_stack \<circ> vr_key) (visible_rows m) = [[''a''], [''a'', ''b'']] \<and>
     map vr_key (visible_rows (expand_all_selected m)) =
       filter (\<lambda>k. extends (bk_stack k) [''a''] \<or> k \<in> set (map vr_key (visible_rows m))) (map fst (rows (m_agg m))) \<and>
     map vr_key (visible_rows (collapse_selected m)) =
       filter (\<lambda>k. \<not> extends (bk_stack k) [''a'']) (map vr_key (visible_rows m))"
proof -
  let ?m = "(model_new 3)\<lparr>m_agg := sample_agg 3, m_expanded := {[''a'']}\<rparr>"
  have vis: "map (bk_stack \<circ> vr_key) (visible_rows ?m) = [[''a''], [''a'', ''b'']]" "vr_is_expanded (visible_rows ?m ! 0)"
    by code_simp+
  then have row: "get_at (visible_rows ?m) 0 = Some (visible_rows ?m ! 0)" "bk_stack (vr_key (visible_rows ?m ! 0)) = [''a'']"
    by (auto simp: get_at_def map_eq_Cons_conv)
  have "m_selected ?m = 0" "m_focus ?m = Stacks" by (simp_all add: model_new_def)
  with expand_collapse_subtree [of ?m "visible_rows ?m ! 0"] row vis show ?thesis unfolding Let_def by simp
qed

section \<open>The receive rate\<close>

definition HALF_SECOND :: nat where "HALF_SECOND = 500000000"

text \<open>\<open>holds r K f\<close>: the counter's current half-second is number \<open>K\<close>, and it holds \<open>f k\<close> events for
  each of the nine half-seconds up to it.\<close>

definition holds :: "rate_tracker \<Rightarrow> nat \<Rightarrow> (nat \<Rightarrow> u32) \<Rightarrow> bool" where
  "holds r K f \<longleftrightarrow> length (rt_buckets r) = 9 \<and> rt_head r = K mod 9 \<and> 9 \<le> K \<and>
     (\<forall>k. k \<le> K \<and> K \<le> k + 8 \<longrightarrow> rt_buckets r ! (k mod 9) = f k) \<and> (\<forall>k > K. f k = 0)"

lemma mod9_neq: "k < K \<Longrightarrow> K \<le> k + 8 \<Longrightarrow> k mod 9 \<noteq> K mod (9 :: nat)"
  using mod_eq_dvd_iff_nat [of k K 9] by (auto dest: dvd_imp_le)

lemma holds_advance: "holds r K f \<Longrightarrow> holds (rate_advance n r) (K + n) f"
proof (induction n r arbitrary: K rule: rate_advance.induct)
  case (2 n r)
  define h where "h = (rt_head r + 1) mod BUCKETS"
  define r1 where "r1 = r\<lparr>rt_head := h, rt_buckets := (rt_buckets r)[h := 0]\<rparr>"
  have r: "length (rt_buckets r) = 9" "rt_head r = K mod 9" "9 \<le> K" "\<forall>k > K. f k = 0"
    "\<And>k. k \<le> K \<Longrightarrow> K \<le> k + 8 \<Longrightarrow> rt_buckets r ! (k mod 9) = f k"
    using 2(2) by (auto simp: holds_def)
  have h: "h = Suc K mod 9" using r(2) by (simp add: h_def BUCKETS_def mod_Suc_eq)
  have "rt_buckets r1 ! (k mod 9) = f k" if "k \<le> Suc K" "Suc K \<le> k + 8" for k
  proof (cases "k = Suc K")
    case False
    with that have "k \<le> K" "K \<le> k + 8" "k mod 9 \<noteq> Suc K mod 9" using mod9_neq [of k "Suc K"] by auto
    with r(5) show ?thesis by (simp add: r1_def h)
  qed (use r in \<open>simp add: r1_def h\<close>)
  with r h have "holds r1 (Suc K) f" by (auto simp: holds_def r1_def)
  with 2(1) [OF h_def, of "Suc K"] have "holds (rate_advance n r1) (Suc K + n) f" by (simp add: r1_def)
  then show ?case by (simp add: Let_def r1_def h_def)
qed simp

lemma sat_inc_small: "unat v < 2 ^ 32 - 1 \<Longrightarrow> sat_inc v = v + 1"
  by (auto simp: sat_inc_def unsigned_minus_1_eq_mask mask_eq_exp_minus_1)

lemma holds_count:
  assumes "holds r K f" "unat (f K) < 2 ^ 32 - 1"
  shows "holds (r\<lparr>rt_buckets := (rt_buckets r)[rt_head r := sat_inc (rt_buckets r ! rt_head r)]\<rparr>) K (f(K := f K + 1))"
proof -
  have r: "length (rt_buckets r) = 9" "rt_head r = K mod 9" "9 \<le> K" "\<forall>k > K. f k = 0"
    "\<And>k. k \<le> K \<Longrightarrow> K \<le> k + 8 \<Longrightarrow> rt_buckets r ! (k mod 9) = f k"
    using assms(1) by (auto simp: holds_def)
  have "(rt_buckets r)[K mod 9 := f K + 1] ! (k mod 9) = (f(K := f K + 1)) k" if "k \<le> K" "K \<le> k + 8" for k
  proof (cases "k = K")
    case False
    with that have "k mod 9 \<noteq> K mod 9" using mod9_neq [of k K] by simp
    with False r(5) [OF that] show ?thesis by simp
  qed (use r(1) in simp)
  moreover have "sat_inc (rt_buckets r ! rt_head r) = f K + 1"
    using sat_inc_small [OF assms(2)] r(5) [of K] r(2) by simp
  ultimately show ?thesis using r by (simp add: holds_def)
qed

lemma window_image:
  assumes "9 \<le> (K :: nat)"
  shows "bij_betw (\<lambda>k. k mod 9) {K - 8..<K} ({..<9} - {K mod 9})"
proof -
  have inj: "inj_on (\<lambda>k. k mod 9) {K - 8..<K}"
  proof (rule inj_onI)
    fix i j assume "i \<in> {K - 8..<K}" "j \<in> {K - 8..<K}" "i mod 9 = j mod 9"
    moreover from this have "j < i \<Longrightarrow> i \<le> j + 8" "i < j \<Longrightarrow> j \<le> i + 8" by auto
    ultimately show "i = j" using mod9_neq [of i j] mod9_neq [of j i] by (cases i j rule: linorder_cases) auto
  qed
  have sub: "(\<lambda>k. k mod 9) ` {K - 8..<K} \<subseteq> {..<9} - {K mod 9}" using mod9_neq [of _ K] assms by force
  have "card ((\<lambda>k. k mod 9) ` {K - 8..<K}) = card ({..<9} - {K mod 9})"
    using assms by (simp add: card_image [OF inj])
  then have "(\<lambda>k. k mod 9) ` {K - 8..<K} = {..<9} - {K mod 9}" using sub by (intro card_subset_eq) simp_all
  with inj show ?thesis by (simp add: bij_betw_def)
qed

lemma rate_sum_set:
  assumes "length (rt_buckets r) = 9"
  shows "rate_sum r = (\<Sum>i \<in> {..<9} - {rt_head r}. ucast (rt_buckets r ! i))"
proof -
  have "rate_sum r = sum_list (map (\<lambda>i. ucast (rt_buckets r ! i)) (filter (\<lambda>i. i \<noteq> rt_head r) [0..<9]))"
    using enumerate_map_upt [of 0 "\<lambda>i. rt_buckets r ! i" 9] map_nth [of "rt_buckets r"] assms
    by (simp add: rate_sum_def filter_map comp_def split_def)
  also have "\<dots> = (\<Sum>i \<in> set (filter (\<lambda>i. i \<noteq> rt_head r) [0..<9]). ucast (rt_buckets r ! i))"
    by (rule sum_list_distinct_conv_sum_set) simp
  also have "set (filter (\<lambda>i. i \<noteq> rt_head r) [0..<9]) = {..<9} - {rt_head r}" by auto
  finally show ?thesis .
qed

lemma holds_sum:
  assumes "holds r K f"
  shows "rate_sum r = (\<Sum>k \<in> {K - 8..<K}. ucast (f k))"
proof -
  have "rate_sum r = (\<Sum>i \<in> {..<9} - {K mod 9}. ucast (rt_buckets r ! i))"
    using assms rate_sum_set by (simp add: holds_def)
  also have "\<dots> = (\<Sum>k \<in> {K - 8..<K}. ucast (rt_buckets r ! (k mod 9)))"
    using assms by (intro sum.reindex_bij_betw [symmetric] window_image) (simp add: holds_def)
  also have "\<dots> = (\<Sum>k \<in> {K - 8..<K}. ucast (f k))"
    using assms by (intro sum.cong) (auto simp: holds_def)
  finally show ?thesis .
qed

text \<open>The half-second of an event, numbered from 9 at the first event.\<close>

definition half_second :: "nat \<Rightarrow> nat \<Rightarrow> nat" where
  "half_second t0 t = (t - t0) div HALF_SECOND + 9"

fun steady :: "nat \<Rightarrow> nat list \<Rightarrow> bool" where
  "steady t0 (t1 # t2 # ts) \<longleftrightarrow> t1 \<le> t2 \<and> half_second t0 t2 \<le> half_second t0 t1 + 9 \<and> steady t0 (t2 # ts)"
| "steady t0 ts \<longleftrightarrow> True"

definition tracks :: "nat \<Rightarrow> rate_tracker \<Rightarrow> nat list \<Rightarrow> nat \<Rightarrow> bool" where
  "tracks t0 r ts t \<longleftrightarrow> rt_bucket_start r = Some (t0 + HALF_SECOND * (half_second t0 t - 9)) \<and>
     holds r (half_second t0 t) (\<lambda>k. of_nat (length (filter (\<lambda>t. half_second t0 t = k) ts)))"

lemma half_second_mono: "t1 \<le> t2 \<Longrightarrow> half_second t0 t1 \<le> half_second t0 t2"
  by (simp add: half_second_def div_le_mono diff_le_mono)

lemma div_diff_mult: "0 < n \<Longrightarrow> q * n \<le> x \<Longrightarrow> (x - q * n) div n = x div n - (q :: nat)"
  using div_mult_self1 [of n "x - q * n" q] by simp

lemma elapsed_halves:
  assumes "t0 \<le> t1" "t1 \<le> t2"
  shows "(t2 - (t0 + HALF_SECOND * (half_second t0 t1 - 9))) div HALF_SECOND = half_second t0 t2 - half_second t0 t1"
proof -
  have "(t1 - t0) div HALF_SECOND * HALF_SECOND \<le> t1 - t0" by simp
  then have "(t1 - t0) div HALF_SECOND * HALF_SECOND \<le> t2 - t0" using assms by linarith
  then have "(t2 - t0 - (t1 - t0) div HALF_SECOND * HALF_SECOND) div HALF_SECOND =
      (t2 - t0) div HALF_SECOND - (t1 - t0) div HALF_SECOND"
    by (intro div_diff_mult) (simp_all add: HALF_SECOND_def)
  then show ?thesis by (simp add: half_second_def mult.commute)
qed

lemma record_tracks:
  assumes "tracks t0 r ts t" "t0 \<le> t" "t \<le> t'" "half_second t0 t' \<le> half_second t0 t + 9"
    and "length ts < 2 ^ 32 - 1" "t' < 2 ^ 64 * 1000000" "\<And>x. x \<in> set ts \<Longrightarrow> x \<le> t"
  shows "tracks t0 (rate_record t' r) (ts @ [t']) t'"
proof -
  let ?f = "\<lambda>ts k. of_nat (length (filter (\<lambda>t. half_second t0 t = k) ts)) :: u32"
  let ?start = "t0 + HALF_SECOND * (half_second t0 t - 9)"
  define n where "n = half_second t0 t' - half_second t0 t"
  have mono: "half_second t0 t \<le> half_second t0 t'" using assms(3) by (rule half_second_mono)
  have t': "half_second t0 t' = half_second t0 t + n" "n \<le> 9" using mono assms(4) by (simp_all add: n_def)
  have start: "rt_bucket_start r = Some ?start" and h: "holds r (half_second t0 t) (?f ts)"
    using assms(1) by (simp_all add: tracks_def)
  have "t' - ?start < 2 ^ 64 * 1000000" using assms(6) by simp
  then have "(t' - ?start) div 1000000 < 2 ^ 64" by (rule less_mult_imp_div_less)
  then have ms: "(t' - ?start) div 1000000 mod 2 ^ 64 = (t' - ?start) div 1000000" by simp
  have "(t' - ?start) div HALF_SECOND = n" using elapsed_halves [OF assms(2,3)] by (simp add: n_def)
  then have halves: "(t' - ?start) div 1000000 div 500 = n" by (simp add: HALF_SECOND_def div_mult2_eq [symmetric])
  define r1 where "r1 = (if n = 0 then r else (rate_advance n r)\<lparr>rt_bucket_start := Some (?start + HALF_SECOND * n)\<rparr>)"
  have "(t' - ?start) div 1000000 \<ge> 500 \<longleftrightarrow> n \<noteq> 0"
    unfolding halves [symmetric] by (simp only: div_eq_0_iff) (simp add: not_less)
  then have rec: "rate_record t' r = r1\<lparr>rt_buckets := (rt_buckets r1)[rt_head r1 := sat_inc (rt_buckets r1 ! rt_head r1)]\<rparr>"
    using halves ms t'(2) by (simp add: rate_record_def start r1_def BUCKETS_def HALF_SECOND_def Let_def)
  have "holds (rate_advance n r) (half_second t0 t') (?f ts)" using holds_advance [OF h, of n] t' by simp
  then have h1: "holds r1 (half_second t0 t') (?f ts)" by (cases "n = 0") (simp_all add: r1_def holds_def)
  have "length (filter (\<lambda>t. half_second t0 t = half_second t0 t') ts) < 2 ^ 32 - 1"
    using assms(5) le_less_trans [OF length_filter_le] by blast
  then have "unat (?f ts (half_second t0 t')) < 2 ^ 32 - 1" by (simp add: unat_of_nat)
  from holds_count [OF h1 this]
  have "holds (rate_record t' r) (half_second t0 t') ((?f ts)(half_second t0 t' := ?f ts (half_second t0 t') + 1))"
    by (simp add: rec)
  moreover have "(?f ts)(half_second t0 t' := ?f ts (half_second t0 t') + 1) = ?f (ts @ [t'])" by (auto simp: add.commute)
  moreover have "rt_bucket_start (rate_record t' r) = Some (t0 + HALF_SECOND * (half_second t0 t' - 9))"
  proof -
    have "rt_bucket_start r1 = Some (?start + HALF_SECOND * n)" using start by (simp add: r1_def)
    also have "?start + HALF_SECOND * n = t0 + HALF_SECOND * (half_second t0 t' - 9)"
    proof -
      have "half_second t0 t' - 9 = half_second t0 t - 9 + n" using t'(1) by (simp add: half_second_def)
      then show ?thesis by (simp only: add_mult_distrib2 add.assoc)
    qed
    finally show ?thesis by (simp add: rec)
  qed
  ultimately show ?thesis by (simp add: tracks_def)
qed

lemma tracks_first: "tracks t0 (rate_record t0 rate_default) [t0] t0"
proof -
  have "holds (rate_default\<lparr>rt_bucket_start := Some t0\<rparr>) 9 (\<lambda>k. 0)"
    by (auto simp: holds_def rate_default_def BUCKETS_def)
  from holds_count [OF this] have "holds (rate_record t0 rate_default) 9 ((\<lambda>k. 0)(9 := 1))"
    by (simp add: rate_record_def rate_default_def BUCKETS_def fun_upd_def)
  moreover have "(\<lambda>k. of_nat (length (filter (\<lambda>t. half_second t0 t = k) [t0])) :: u32) = (\<lambda>k. 0)(9 := 1)"
    by (auto simp: half_second_def)
  ultimately show ?thesis by (simp add: tracks_def half_second_def rate_record_def rate_default_def)
qed

lemma steady_tracks:
  "tracks t0 r (xs @ [t]) t \<Longrightarrow> t0 \<le> t \<Longrightarrow> steady t0 (t # ts) \<Longrightarrow> length (xs @ t # ts) < 2 ^ 32 \<Longrightarrow>
     (\<And>x. x \<in> set ts \<Longrightarrow> x < 2 ^ 64 * 1000000) \<Longrightarrow> (\<And>x. x \<in> set xs \<Longrightarrow> x \<le> t) \<Longrightarrow>
     tracks t0 (fold rate_record ts r) (xs @ t # ts) (last (t # ts))"
proof (induction ts arbitrary: r xs t)
  case (Cons t2 ts)
  have step: "tracks t0 (rate_record t2 r) ((xs @ [t]) @ [t2]) t2"
    using Cons.prems by (intro record_tracks [OF Cons.prems(1,2)]) auto
  have "tracks t0 (fold rate_record ts (rate_record t2 r)) ((xs @ [t]) @ t2 # ts) (last (t2 # ts))"
  proof (rule Cons.IH [OF step])
    show "t0 \<le> t2" "steady t0 (t2 # ts)" "length ((xs @ [t]) @ t2 # ts) < 2 ^ 32"
      using Cons.prems by auto
    show "x \<le> t2" if "x \<in> set (xs @ [t])" for x
      using that Cons.prems(3,6) by (auto dest: order_trans)
  qed (use Cons.prems in auto)
  then show ?case by simp
qed simp

lemma steady_last: "steady t0 (t # us) \<Longrightarrow> x \<in> set (t # us) \<Longrightarrow> x \<le> last (t # us)"
proof (induction us arbitrary: t x)
  case (Cons t2 us)
  have "t \<le> t2" "steady t0 (t2 # us)" using Cons.prems(1) by auto
  with Cons.IH [of t2 x] Cons.IH [of t2 t2] Cons.prems(2) show ?case by auto
qed simp

text \<open>C33. As long as no idle period lasts more than nine half-seconds, the receive rate is exact: the
  counter sums the events of the eight completed half-seconds before the one of the last event (its
  own is left out), whatever the times of the events.\<close>

theorem rate_counts_window:
  assumes "steady t0 (t0 # ts)" "length (t0 # ts) < 2 ^ 32" "last (t0 # ts) < 2 ^ 64 * 1000000"
  shows "unat (rate_sum (fold rate_record (t0 # ts) rate_default)) =
    length (filter (\<lambda>t. half_second t0 t < half_second t0 (last (t0 # ts)) \<and>
                       half_second t0 (last (t0 # ts)) \<le> half_second t0 t + 8) (t0 # ts))"
proof -
  let ?K = "half_second t0 (last (t0 # ts))" and ?es = "t0 # ts"
  have "x < 2 ^ 64 * 1000000" if "x \<in> set ts" for x
    using steady_last [OF assms(1), of x] assms(3) that by simp
  with steady_tracks [OF _ _ assms(1), of "rate_record t0 rate_default" "[]"] tracks_first assms(2)
  have "tracks t0 (fold rate_record ?es rate_default) ?es (last ?es)" by simp
  then have h: "holds (fold rate_record ?es rate_default) ?K (\<lambda>k. of_nat (length (filter (\<lambda>t. half_second t0 t = k) ?es)))"
    by (simp add: tracks_def)
  have small: "length (filter P ?es) < 2 ^ 32" for P using assms(2) le_less_trans [OF length_filter_le] by blast
  have "rate_sum (fold rate_record ?es rate_default) =
      (\<Sum>k \<in> {?K - 8..<?K}. of_nat (length (filter (\<lambda>t. half_second t0 t = k) ?es)))"
  proof -
    have narrow: "(ucast (of_nat n :: u32) :: u64) = of_nat n" if "n < 2 ^ 32" for n
      using that by (intro word_unat_eq_iff [THEN iffD2]) (simp add: unat_of_nat unsigned_ucast_eq take_bit_nat_eq_self)
    show ?thesis unfolding holds_sum [OF h] by (intro sum.cong refl narrow small)
  qed
  also have "\<dots> = of_nat (\<Sum>k \<in> {?K - 8..<?K}. length (filter (\<lambda>t. half_second t0 t = k) ?es))" by simp
  also have "(\<Sum>k \<in> {?K - 8..<?K}. length (filter (\<lambda>t. half_second t0 t = k) ?es)) =
      length (filter (\<lambda>t. half_second t0 t \<in> {?K - 8..<?K}) ?es)" (is "?l = ?n")
  proof -
    have "(\<Sum>k \<in> A. length (filter (\<lambda>t. half_second t0 t = k) es)) = length (filter (\<lambda>t. half_second t0 t \<in> A) es)"
      if "finite A" for A and es :: "nat list"
    proof (induction es)
      case (Cons t es)
      have "(\<Sum>k \<in> A. length (filter (\<lambda>t. half_second t0 t = k) (t # es))) =
          (\<Sum>k \<in> A. (if k = half_second t0 t then 1 else 0) + length (filter (\<lambda>t. half_second t0 t = k) es))"
        by (intro sum.cong) auto
      with Cons that show ?case by (simp add: sum.distrib)
    qed simp
    then show ?thesis by blast
  qed
  finally have "rate_sum (fold rate_record ?es rate_default) = of_nat ?n" .
  moreover have "?n < 2 ^ 64" using small [of "\<lambda>t. half_second t0 t \<in> {?K - 8..<?K}"] by simp
  ultimately have "unat (rate_sum (fold rate_record ?es rate_default)) = ?n" by (simp add: unat_of_nat)
  moreover have "half_second t0 t \<in> {?K - 8..<?K} \<longleftrightarrow> half_second t0 t < ?K \<and> ?K \<le> half_second t0 t + 8" for t by auto
  ultimately show ?thesis by simp
qed

lemma rate_counts_window_witness:
  "unat (rate_sum (fold rate_record [7, 8, 1700000000, 2600000000] rate_default)) = 3"
  using rate_counts_window [of 7 "[8, 1700000000, 2600000000]"]
  by (simp add: half_second_def HALF_SECOND_def)

section \<open>After an idle period\<close>

lemma advance_all:
  assumes "length (rt_buckets r) = 9" "rt_head r < 9"
  shows "rt_buckets (rate_advance 9 r) = replicate 9 0 \<and> rt_head (rate_advance 9 r) = rt_head r \<and>
    rt_bucket_start (rate_advance 9 r) = rt_bucket_start r"
proof -
  have start: "rt_bucket_start (rate_advance n q) = rt_bucket_start q" for n q
    by (induction n q rule: rate_advance.induct) (simp_all add: Let_def)
  define K where "K = rt_head r + 9"
  have "holds r K (\<lambda>k. if k \<le> K then rt_buckets r ! (k mod 9) else 0)"
    using assms by (auto simp: holds_def K_def)
  from holds_advance [OF this, of 9] have h: "length (rt_buckets (rate_advance 9 r)) = 9"
    "rt_head (rate_advance 9 r) = (K + 9) mod 9"
    "\<And>k. k \<le> K + 9 \<Longrightarrow> K + 9 \<le> k + 8 \<Longrightarrow> rt_buckets (rate_advance 9 r) ! (k mod 9) = 0"
    unfolding holds_def by auto
  have "rt_buckets (rate_advance 9 r) ! i = 0" if "i < 9" for i
  proof -
    define m where "m = (K + 9 - i) mod 9"
    have "9 * ((K + 9 - i) div 9) + m = K + 9 - i" by (simp add: m_def)
    then have k: "K + 9 - m = i + 9 * ((K + 9 - i) div 9)" using that by linarith
    have "m < 9" by (simp add: m_def)
    then have "rt_buckets (rate_advance 9 r) ! ((K + 9 - m) mod 9) = 0" by (intro h(3)) simp_all
    moreover have "(K + 9 - m) mod 9 = i" unfolding k using that by simp
    ultimately show ?thesis by simp
  qed
  then have "rt_buckets (rate_advance 9 r) = replicate 9 0" using h(1) by (intro nth_equalityI) auto
  moreover have "(K + 9) mod 9 = rt_head r" using assms(2) mod_mult_self2 [of "rt_head r" 9 2] by (simp add: K_def add.commute)
  ultimately show ?thesis using h(2) start by simp
qed

lemma record_after_idle:
  assumes "length (rt_buckets r) = 9" "rt_head r < 9" "rt_bucket_start r = Some s"
    and "s + 9 * HALF_SECOND \<le> t" "t < 2 ^ 64 * 1000000"
  shows "rate_record t r = \<lparr>rt_buckets = (replicate 9 0)[rt_head r := 1], rt_head = rt_head r,
    rt_bucket_start = Some (s + 9 * HALF_SECOND)\<rparr>"
proof -
  have "t - s < 2 ^ 64 * 1000000" using assms(5) by simp
  then have "(t - s) div 1000000 < 2 ^ 64" by (rule less_mult_imp_div_less)
  moreover have "4500 \<le> (t - s) div 1000000" using div_le_mono [of 4500000000 "t - s" 1000000] assms(4)
    by (simp add: HALF_SECOND_def)
  moreover from this have "9 \<le> (t - s) div 1000000 div 500" using div_le_mono [of 4500 _ 500] by fastforce
  ultimately have "rate_record t r = (rate_advance 9 r)\<lparr>rt_bucket_start := Some (s + 4500000000),
      rt_buckets := (rt_buckets (rate_advance 9 r))[rt_head (rate_advance 9 r) := sat_inc (rt_buckets (rate_advance 9 r) ! rt_head (rate_advance 9 r))]\<rparr>"
    using assms(3) by (simp add: rate_record_def BUCKETS_def min_absorb2)
  with advance_all [OF assms(1,2)] assms(2) show ?thesis
    by (cases "rate_advance 9 r") (simp add: HALF_SECOND_def sat_inc_def)
qed

text \<open>After an idle period the rate is wrong: the counter advances its start by at most nine
  half-seconds per event, so for every nine half-seconds of the idle period one event is counted and
  wiped again by the next: the rate reads 0 although the events arrive at any rate.\<close>

theorem rate_zero_after_idle:
  assumes "length (rt_buckets r) = BUCKETS" "rt_head r < BUCKETS" "rt_bucket_start r = Some s" "ts \<noteq> []"
    and "\<forall>t \<in> set ts. s + 9 * HALF_SECOND * length ts \<le> t \<and> t < 2 ^ 64 * 1000000"
  shows "rate_sum (fold rate_record ts r) = 0 \<and>
    rt_bucket_start (fold rate_record ts r) = Some (s + 9 * HALF_SECOND * length ts)"
proof -
  define h where "h = rt_head r"
  have h: "h < 9" using assms(2) by (simp add: h_def BUCKETS_def)
  have "length (rt_buckets r) = 9 \<Longrightarrow> rt_head r = h \<Longrightarrow> rt_bucket_start r = Some s \<Longrightarrow> ts \<noteq> [] \<Longrightarrow>
      \<forall>t \<in> set ts. s + 9 * HALF_SECOND * length ts \<le> t \<and> t < 2 ^ 64 * 1000000 \<Longrightarrow>
      fold rate_record ts r = \<lparr>rt_buckets = (replicate 9 0)[h := 1], rt_head = h,
        rt_bucket_start = Some (s + 9 * HALF_SECOND * length ts)\<rparr>"
  proof (induction ts arbitrary: r s)
    case (Cons t ts)
    let ?r = "\<lparr>rt_buckets = (replicate 9 0)[h := 1], rt_head = h, rt_bucket_start = Some (s + 9 * HALF_SECOND)\<rparr>"
    have r: "rate_record t r = ?r"
      using record_after_idle [of r s t] Cons.prems h by auto
    show ?case
    proof (cases "ts = []")
      case False
      have "\<forall>t \<in> set ts. s + 9 * HALF_SECOND + 9 * HALF_SECOND * length ts \<le> t \<and> t < 2 ^ 64 * 1000000"
        using Cons.prems(5) by (auto simp: algebra_simps)
      with Cons.IH [of ?r "s + 9 * HALF_SECOND"] False show ?thesis by (simp add: r algebra_simps)
    qed (simp add: r)
  qed simp
  from this assms
  have f: "fold rate_record ts r = \<lparr>rt_buckets = (replicate 9 0)[h := 1], rt_head = h,
      rt_bucket_start = Some (s + 9 * HALF_SECOND * length ts)\<rparr>"
    by (simp add: BUCKETS_def h_def)
  have "rate_sum (fold rate_record ts r) = (\<Sum>i \<in> {..<9} - {h}. ucast ((replicate 9 0 :: u32 list)[h := 1] ! i))"
    using rate_sum_set [of "fold rate_record ts r"] by (simp add: f)
  also have "\<dots> = 0" by (intro sum.neutral) simp
  finally show ?thesis by (simp add: f)
qed

lemma rate_zero_after_idle_witness:
  "rate_sum (fold rate_record (replicate 3 20000000000) (rate_record 0 rate_default)) = 0"
proof -
  have "rate_record 0 rate_default = \<lparr>rt_buckets = [1, 0, 0, 0, 0, 0, 0, 0, 0], rt_head = 0, rt_bucket_start = Some 0\<rparr>"
    by (simp add: rate_record_def rate_default_def BUCKETS_def sat_inc_def numeral_nat)
  with rate_zero_after_idle [of "rate_record 0 rate_default" 0 "replicate 3 20000000000"] show ?thesis
    by (simp add: BUCKETS_def HALF_SECOND_def)
qed

end
