(* ===== verification/ServerOps.thy ===== *)
theory ServerOps
  imports ServerStreams
begin

text \<open>
  The server one operation at a time. \<open>Server\<close> runs a handler as one step; here a handler, or the drop
  of a connection, is the sequence of operations \<open>server.rs\<close> performs on the connection's settings
  and on the shared \<open>CacheLevelBroadcast\<close>, and those of other connections may come between any two
  of them. The handlers of one connection do not overlap (\<open>new_rpc\<close> and \<open>drop\<close> take it by
  exclusive reference), its streams run on. A handler that is not interrupted does what \<open>Server\<close>
  says; what holds in spite of every interruption is stated on this machine.
\<close>

section \<open>The operations of a handler\<close>

datatype handler_op =
    SetStreaming bool
  | SetMinLevel wire_level
  | SetRate f64
  | EnterStream
  | SubscribeLevel
  | SubscribeChance
  | SpawnStream u64
  | LevelStore level_filter
  | LevelSend wire_level_filter
  | ChanceStore f64
  | ChanceSend f64
  | Reply response
  | LeaveStream

text \<open>\<open>set_level\<close>, \<open>set_chance\<close> and the body of \<open>StreamGuard::drop\<close> below its \<open>fetch_sub\<close>.\<close>

definition set_level_ops :: "wire_level_filter \<Rightarrow> handler_op list" where
  "set_level_ops f = [LevelStore (wlf_to_tracing f), LevelSend f]"

definition set_chance_ops :: "f64 \<Rightarrow> handler_op list" where
  "set_chance_ops pct =
     (let pct = (if f64_is_nan pct then Fin 0 else f64_clamp (Fin 0) (Fin 100) pct)
      in [ChanceStore pct, ChanceSend pct])"

definition reset_ops :: "handler_op list" where
  "reset_ops = [LevelStore OFF, LevelSend LfOff, ChanceStore (Fin 100), ChanceSend (Fin 100)]"

definition start_ops :: "u64 \<Rightarrow> handler_op list" where
  "start_ops request_id = [SetStreaming True, EnterStream, SubscribeLevel, SubscribeChance, SpawnStream request_id]"

definition rpc_ops :: "(control_code \<Rightarrow> u8) \<Rightarrow> request \<Rightarrow> handler_op list" where
  "rpc_ops cc msg =
     (let request_id = rq_id msg; ack = Reply (response_with_id request_id (response_ack cc))
      in case rq_body msg of
           StartStream \<Rightarrow> start_ops request_id
         | StopStream \<Rightarrow> [SetStreaming False, ack]
         | SetLevel l \<Rightarrow> [SetMinLevel l, ack]
         | SetCacheLevel f \<Rightarrow> set_level_ops f @ [ack]
         | SetCacheChance pct \<Rightarrow> set_chance_ops pct @ [ack]
         | SetSamplingRate rate \<Rightarrow>
             if \<not> (f64_le (Fin 0) rate \<and> f64_le rate (Fin 1)) \<or> f64_is_nan rate
             then [Reply (response_with_id request_id (rate_error cc rate))]
             else [SetRate rate, ack]
         | RqNoop \<Rightarrow> [])"

text \<open>A handler under way: what it has left to do, and the receivers it has subscribed.\<close>

record handler =
  hd_ops :: "handler_op list"
  hd_level_rx :: nat
  hd_chance_rx :: nat

definition handler_new :: "handler_op list \<Rightarrow> handler" where
  "handler_new ops = \<lparr>hd_ops = ops, hd_level_rx = 0, hd_chance_rx = 0\<rparr>"

text \<open>\<open>LeaveStream\<close> is the \<open>fetch_sub\<close> of the dropped guard; the reset follows when it read 1.\<close>

fun op_run :: "handler_op \<Rightarrow> broadcast \<times> connection \<times> handler \<Rightarrow> broadcast \<times> connection \<times> handler" where
  "op_run (SetStreaming on) (b, c, h) = (b, c\<lparr>cs_state := (cs_state c)\<lparr>ss_streaming := on\<rparr>\<rparr>, h)"
| "op_run (SetMinLevel l) (b, c, h) = (b, c\<lparr>cs_state := (cs_state c)\<lparr>ss_min_level := Some l\<rparr>\<rparr>, h)"
| "op_run (SetRate rate) (b, c, h) = (b, c\<lparr>cs_state := (cs_state c)\<lparr>ss_sampling_rate := rate\<rparr>\<rparr>, h)"
| "op_run EnterStream (b, c, h) =
     (if \<not> cs_stream_guard c then (enter_stream b, c\<lparr>cs_stream_guard := True\<rparr>, h) else (b, c, h))"
| "op_run SubscribeLevel (b, c, h) =
     (let w = watch_call WatchSubscribe (cb_level_tx b)
      in (b\<lparr>cb_level_tx := w\<rparr>, c, h\<lparr>hd_level_rx := length (wc_calls w)\<rparr>))"
| "op_run SubscribeChance (b, c, h) =
     (let w = watch_call WatchSubscribe (cb_chance_tx b)
      in (b\<lparr>cb_chance_tx := w\<rparr>, c, h\<lparr>hd_chance_rx := length (wc_calls w)\<rparr>))"
| "op_run (SpawnStream request_id) (b, c, h) =
     (b, c\<lparr>cs_streams := cs_streams c @
        [\<lparr>st_request_id = request_id, st_phase = PhStart, st_level_seen = hd_level_rx h,
          st_chance_seen = hd_chance_rx h, st_out = []\<rparr>]\<rparr>, h)"
| "op_run (LevelStore f) (b, c, h) = (level_store f b, c, h)"
| "op_run (LevelSend f) (b, c, h) = (level_send f b, c, h)"
| "op_run (ChanceStore pct) (b, c, h) = (chance_store pct b, c, h)"
| "op_run (ChanceSend pct) (b, c, h) = (chance_send pct b, c, h)"
| "op_run (Reply r) (b, c, h) = (b, immediate r c, h)"
| "op_run LeaveStream (b, c, h) =
     (let prev = cb_active_streams b;
          b = b\<lparr>cb_active_streams := (if prev = 0 then 2 ^ 64 - 1 else prev - 1)\<rparr>;
          c = c\<lparr>cs_stream_guard := False\<rparr>
      in if prev = 1 then (b, c, h\<lparr>hd_ops := reset_ops\<rparr>) else (b, c, h))"

section \<open>The machine\<close>

record fine_server =
  fs_server :: server
  fs_handlers :: "nat \<rightharpoonup> handler"

definition fine_serve :: "u8 \<Rightarrow> f64 \<Rightarrow> time_base \<Rightarrow> fine_server" where
  "fine_serve level_handle chance_handle now =
     \<lparr>fs_server = serve level_handle chance_handle now, fs_handlers = (\<lambda>_. None)\<rparr>"

abbreviation fs_bus :: "fine_server \<Rightarrow> broadcast" where
  "fs_bus s \<equiv> sv_bus (fs_server s)"

abbreviation fs_conns :: "fine_server \<Rightarrow> connection list" where
  "fs_conns s \<equiv> sv_conns (fs_server s)"

text \<open>A request or the end of connection \<open>i\<close> starts a handler, \<open>Continue i\<close> runs its next operation or
  ends it; the rest of the steps are those of the streams and of \<open>accept\<close>.\<close>

datatype fine_action = Start server_action | Continue nat

definition begin_handler :: "nat \<Rightarrow> connection \<Rightarrow> handler_op list \<Rightarrow> fine_server \<Rightarrow> fine_server" where
  "begin_handler i c ops s =
     \<lparr>fs_server = put_conn i (fs_bus s, c) (fs_server s), fs_handlers = (fs_handlers s)(i \<mapsto> handler_new ops)\<rparr>"

definition idle_conn :: "fine_server \<Rightarrow> nat \<Rightarrow> bool" where
  "idle_conn s i \<longleftrightarrow> has_conn (fs_server s) i \<and> fs_handlers s i = None"

fun fine_step :: "host_env \<Rightarrow> fine_server \<Rightarrow> fine_action \<Rightarrow> fine_server option" where
  "fine_step env s (Start a) =
     (case a of
        Rpc i msg \<Rightarrow>
          if idle_conn s i then Some (begin_handler i (fs_conns s ! i) (rpc_ops (he_cc env) msg) s) else None
      | Disconnect i \<Rightarrow>
          if idle_conn s i
          then Some (begin_handler i ((fs_conns s ! i)\<lparr>cs_open := False\<rparr>)
                      (if cs_stream_guard (fs_conns s ! i) then [LeaveStream] else []) s)
          else None
      | _ \<Rightarrow> map_option (\<lambda>sv. s\<lparr>fs_server := sv\<rparr>) (server_step env (fs_server s) a))"
| "fine_step env s (Continue i) =
     (case fs_handlers s i of
        None \<Rightarrow> None
      | Some h \<Rightarrow>
          (case hd_ops h of
             [] \<Rightarrow> Some (s\<lparr>fs_handlers := (fs_handlers s)(i := None)\<rparr>)
           | op # ops \<Rightarrow>
               (case op_run op (fs_bus s, fs_conns s ! i, h\<lparr>hd_ops := ops\<rparr>) of
                  (b, c, h') \<Rightarrow>
                    Some \<lparr>fs_server = put_conn i (b, c) (fs_server s), fs_handlers = (fs_handlers s)(i \<mapsto> h')\<rparr>)))"

abbreviation fine_run :: "host_env \<Rightarrow> fine_server \<Rightarrow> fine_action list \<Rightarrow> fine_server option" where
  "fine_run env \<equiv> run_opt (fine_step env)"

definition ops_left :: "fine_server \<Rightarrow> nat \<Rightarrow> handler_op list" where
  "ops_left s i = (case fs_handlers s i of None \<Rightarrow> [] | Some h \<Rightarrow> hd_ops h)"

section \<open>A handler that is not interrupted\<close>

fun op_runs :: "nat \<Rightarrow> broadcast \<times> connection \<times> handler \<Rightarrow> broadcast \<times> connection \<times> handler" where
  "op_runs 0 z = z"
| "op_runs (Suc n) (b, c, h) =
     (case hd_ops h of [] \<Rightarrow> (b, c, h) | op # ops \<Rightarrow> op_runs n (op_run op (b, c, h\<lparr>hd_ops := ops\<rparr>)))"

lemma set_level_whole: "fst (op_runs 2 (b, c, handler_new (set_level_ops f))) = set_level f b"
  by (simp add: numeral_2_eq_2 set_level_ops_def handler_new_def set_level_def)

lemma set_chance_whole: "fst (op_runs 2 (b, c, handler_new (set_chance_ops pct))) = set_chance pct b"
  by (simp add: numeral_2_eq_2 set_chance_ops_def handler_new_def set_chance_def Let_def)

lemma guard_drop_whole: "fst (op_runs 5 (b, c, handler_new [LeaveStream])) = guard_drop b"
  by (simp add: eval_nat_numeral handler_new_def guard_drop_def reset_ops_def Let_def)

lemma new_rpc_whole:
  "\<exists>n h. op_runs n (b, c, handler_new (rpc_ops cc msg)) = (fst (new_rpc cc msg b c), snd (new_rpc cc msg b c), h) \<and> hd_ops h = []"
proof (cases "rq_body msg")
  case StartStream
  then show ?thesis
    by (intro exI [of _ 5])
      (simp add: rpc_ops_def new_rpc_def start_ops_def start_stream_def handler_new_def subscribe_both_def
        enter_stream_def eval_nat_numeral Let_def)
qed (intro exI [of _ 3]; simp add: rpc_ops_def new_rpc_def set_level_ops_def set_chance_ops_def set_level_def set_chance_def
    handler_new_def eval_nat_numeral Let_def; fail)+

lemma connection_drop_whole:
  "\<exists>n h. op_runs n (b, c\<lparr>cs_open := False\<rparr>, handler_new (if cs_stream_guard c then [LeaveStream] else [])) =
     (fst (connection_drop b c), snd (connection_drop b c), h) \<and> hd_ops h = []"
  by (intro exI [of _ 5])
    (simp add: connection_drop_def guard_drop_def reset_ops_def handler_new_def eval_nat_numeral Let_def)

text \<open>The steps of \<open>Server\<close> are the uninterrupted runs of this machine.\<close>

definition put_handler :: "nat \<Rightarrow> broadcast \<times> connection \<times> handler \<Rightarrow> fine_server \<Rightarrow> fine_server" where
  "put_handler i z s =
     (case z of (b, c, h) \<Rightarrow> \<lparr>fs_server = put_conn i (b, c) (fs_server s), fs_handlers = (fs_handlers s)(i \<mapsto> h)\<rparr>)"

lemma put_handler_sel [simp]:
  "fs_handlers (put_handler i (b, c, h) s) = (fs_handlers s)(i \<mapsto> h)"
  "fs_server (put_handler i (b, c, h) s) = put_conn i (b, c) (fs_server s)"
  by (simp_all add: put_handler_def)

lemma put_conn_again [simp]: "put_conn i r (put_conn i r' s) = put_conn i r s"
  by (simp add: put_conn_def)

lemma put_handler_again [simp]: "put_handler i z (put_handler i z' s) = put_handler i z s"
  by (cases z; cases z') (simp add: put_handler_def)

lemma continue_op:
  "fs_handlers s i = Some h \<Longrightarrow> hd_ops h = op # ops \<Longrightarrow>
     fine_step env s (Continue i) = Some (put_handler i (op_run op (fs_bus s, fs_conns s ! i, h\<lparr>hd_ops := ops\<rparr>)) s)"
  by (simp add: put_handler_def split: prod.split)

lemma continue_runs:
  "i < length (fs_conns s) \<Longrightarrow> fs_handlers s i = Some h \<Longrightarrow> op_runs n (fs_bus s, fs_conns s ! i, h) = (b, c, h') \<Longrightarrow> hd_ops h' = [] \<Longrightarrow>
     \<exists>k. fine_run env s (replicate k (Continue i)) = Some ((put_handler i (b, c, h') s)\<lparr>fs_handlers := (fs_handlers s)(i := None)\<rparr>)"
proof (induction n arbitrary: s h)
  case 0
  then show ?case by (intro exI [of _ 1]) (cases s; auto simp: put_handler_def put_conn_def)
next
  case (Suc n)
  show ?case
  proof (cases "hd_ops h")
    case Nil
    with Suc.prems show ?thesis by (intro exI [of _ 1]) (cases s; auto simp: put_handler_def put_conn_def)
  next
    case (Cons op ops)
    obtain b1 c1 h1 where run: "op_run op (fs_bus s, fs_conns s ! i, h\<lparr>hd_ops := ops\<rparr>) = (b1, c1, h1)"
      by (cases "op_run op (fs_bus s, fs_conns s ! i, h\<lparr>hd_ops := ops\<rparr>)")
    let ?s = "put_handler i (b1, c1, h1) s"
    have "\<exists>k. fine_run env ?s (replicate k (Continue i)) = Some ((put_handler i (b, c, h') ?s)\<lparr>fs_handlers := (fs_handlers ?s)(i := None)\<rparr>)"
      using Suc.prems run Cons by (intro Suc.IH [of ?s h1]) (simp_all del: put_handler_again)
    then obtain k where "fine_run env ?s (replicate k (Continue i)) = Some ((put_handler i (b, c, h') s)\<lparr>fs_handlers := (fs_handlers s)(i := None)\<rparr>)"
      by auto
    with continue_op [OF Suc.prems(2) Cons, of env] run show ?thesis by (intro exI [of _ "Suc k"]) (simp add: fun_upd_def)
  qed
qed

lemma handler_runs:
  assumes "idle_conn s i" "op_runs n (fs_bus s, c0, handler_new ops) = (b, c, h)" "hd_ops h = []"
  shows "\<exists>k. fine_run env (begin_handler i c0 ops s) (replicate k (Continue i)) = Some (s\<lparr>fs_server := put_conn i (b, c) (fs_server s)\<rparr>)"
proof -
  have i: "i < length (fs_conns s)" "fs_handlers s i = None" using assms(1) by (simp_all add: idle_conn_def has_conn_def)
  let ?s = "begin_handler i c0 ops s"
  have "\<exists>k. fine_run env ?s (replicate k (Continue i)) = Some ((put_handler i (b, c, h) ?s)\<lparr>fs_handlers := (fs_handlers ?s)(i := None)\<rparr>)"
    using i assms(2,3) by (intro continue_runs [where h = "handler_new ops"]) (simp_all add: begin_handler_def)
  moreover have "(put_handler i (b, c, h) ?s)\<lparr>fs_handlers := (fs_handlers ?s)(i := None)\<rparr> = s\<lparr>fs_server := put_conn i (b, c) (fs_server s)\<rparr>"
    using i by (cases s) (simp add: begin_handler_def put_handler_def fun_upd_idem)
  ultimately show ?thesis by simp
qed

lemma server_step_uninterrupted:
  assumes "server_step env (fs_server s) a = Some sv" "\<forall>i. fs_handlers s i = None"
  shows "\<exists>acts. fine_run env s (Start a # acts) = Some (s\<lparr>fs_server := sv\<rparr>)"
proof (cases a)
  case (Rpc i msg)
  with assms have i: "idle_conn s i" by (auto simp: idle_conn_def split: if_splits)
  obtain n h where "op_runs n (fs_bus s, fs_conns s ! i, handler_new (rpc_ops (he_cc env) msg)) =
      (fst (new_rpc (he_cc env) msg (fs_bus s) (fs_conns s ! i)), snd (new_rpc (he_cc env) msg (fs_bus s) (fs_conns s ! i)), h)" "hd_ops h = []"
    using new_rpc_whole by meson
  from handler_runs [OF i this, of env] assms Rpc i show ?thesis
    by (auto simp: idle_conn_def)
next
  case (Disconnect i)
  with assms have i: "idle_conn s i" by (auto simp: idle_conn_def split: if_splits)
  obtain n h where "op_runs n (fs_bus s, (fs_conns s ! i)\<lparr>cs_open := False\<rparr>,
        handler_new (if cs_stream_guard (fs_conns s ! i) then [LeaveStream] else [])) =
      (fst (connection_drop (fs_bus s) (fs_conns s ! i)), snd (connection_drop (fs_bus s) (fs_conns s ! i)), h)" "hd_ops h = []"
    using connection_drop_whole by meson
  from handler_runs [OF i this, of env] assms Disconnect i show ?thesis
    by (auto simp: idle_conn_def)
qed (use assms in \<open>auto intro!: exI [of _ "[]"]\<close>)

section \<open>The counter of streams\<close>

fun plain_op :: "handler_op \<Rightarrow> bool" where
  "plain_op EnterStream = False"
| "plain_op (SpawnStream n) = False"
| "plain_op LeaveStream = False"
| "plain_op _ = True"

text \<open>What a handler under way may have left, and where its connection then stands.\<close>

definition starting :: "connection \<Rightarrow> handler_op list \<Rightarrow> bool" where
  "starting c ops \<longleftrightarrow>
     (\<exists>n k. ops = drop k (start_ops n) \<and>
        (if k < 2 then cs_stream_guard c \<longleftrightarrow> cs_streams c \<noteq> [] else cs_stream_guard c \<and> (5 \<le> k \<longrightarrow> cs_streams c \<noteq> [])))"

definition hand_ok :: "connection \<Rightarrow> handler_op list \<Rightarrow> bool" where
  "hand_ok c ops \<longleftrightarrow>
     (if cs_open c then starting c ops \<or> list_all plain_op ops \<and> (cs_stream_guard c \<longleftrightarrow> cs_streams c \<noteq> [])
      else if cs_stream_guard c then ops = [LeaveStream] else list_all plain_op ops)"

definition fine_ok :: "fine_server \<Rightarrow> bool" where
  "fine_ok s \<longleftrightarrow>
     cb_active_streams (fs_bus s) = length (watching (fs_server s)) \<and>
     (\<forall>i. case fs_handlers s i of
        None \<Rightarrow> i < length (fs_conns s) \<longrightarrow> conn_ok (fs_conns s ! i)
      | Some h \<Rightarrow> i < length (fs_conns s) \<and> hand_ok (fs_conns s ! i) (hd_ops h))"

lemma hand_done: "hand_ok c [] \<Longrightarrow> conn_ok c"
  by (auto simp: hand_ok_def conn_ok_def starting_def start_ops_def drop_Cons' split: if_splits)

lemma rpc_hand:
  "conn_ok c \<Longrightarrow> cs_open c \<Longrightarrow> hand_ok c (rpc_ops cc msg)"
proof (cases "rq_body msg")
  case StartStream
  assume "conn_ok c" "cs_open c"
  then have "starting c (start_ops (rq_id msg))"
    unfolding starting_def conn_ok_def by (intro exI [of _ "rq_id msg"] exI [of _ 0]) simp
  with \<open>cs_open c\<close> StartStream show ?thesis by (simp add: hand_ok_def rpc_ops_def Let_def)
qed (auto simp: hand_ok_def conn_ok_def rpc_ops_def set_level_ops_def set_chance_ops_def Let_def)

lemma drop_hand:
  "conn_ok c \<Longrightarrow> cs_open c \<Longrightarrow> hand_ok (c\<lparr>cs_open := False\<rparr>) (if cs_stream_guard c then [LeaveStream] else [])"
  by (simp add: hand_ok_def)

text \<open>An operation keeps the counter in step with its connection's guard.\<close>

definition guard_count :: "connection \<Rightarrow> nat" where
  "guard_count c = (if cs_stream_guard c then 1 else 0)"

lemma plain_run:
  assumes "op_run op (b, c, h) = (b', c', h')" "plain_op op"
  shows "cs_open c' = cs_open c" "cs_stream_guard c' = cs_stream_guard c" "cs_streams c' = cs_streams c"
    "cb_active_streams b' = cb_active_streams b" "hd_ops h' = hd_ops h"
  using assms by (cases op; auto simp: bus_defs immediate_def Let_def)+

lemma starting_cases [consumes 1]:
  assumes "starting c (op # ops)"
  obtains n where "op = SetStreaming True" "ops = drop 1 (start_ops n)" "cs_stream_guard c \<longleftrightarrow> cs_streams c \<noteq> []"
  | n where "op = EnterStream" "ops = drop 2 (start_ops n)" "cs_stream_guard c \<longleftrightarrow> cs_streams c \<noteq> []"
  | n where "op = SubscribeLevel" "ops = drop 3 (start_ops n)" "cs_stream_guard c"
  | n where "op = SubscribeChance" "ops = drop 4 (start_ops n)" "cs_stream_guard c"
  | n where "op = SpawnStream n" "ops = []" "cs_stream_guard c"
  using assms by (auto simp: starting_def start_ops_def drop_Cons' split: if_splits)

lemma startingI:
  "ops = drop k (start_ops n) \<Longrightarrow>
   (if k < 2 then cs_stream_guard c \<longleftrightarrow> cs_streams c \<noteq> [] else cs_stream_guard c \<and> (5 \<le> k \<longrightarrow> cs_streams c \<noteq> [])) \<Longrightarrow> starting c ops"
  unfolding starting_def by blast

lemma starting_run:
  assumes "op_run op (b, c, h\<lparr>hd_ops := ops\<rparr>) = (b', c', h')" "starting c (op # ops)"
  shows "starting c' (hd_ops h') \<and> cs_open c' = cs_open c \<and>
    cb_active_streams b' + guard_count c = cb_active_streams b + guard_count c'"
  using assms(2)
proof (cases rule: starting_cases)
  case (1 n)
  with assms(1) show ?thesis by (auto simp: guard_count_def intro!: startingI [where k = 1 and n = n])
next
  case (2 n)
  with assms(1) show ?thesis
    by (auto simp: guard_count_def enter_stream_def intro!: startingI [where k = 2 and n = n] split: if_splits)
next
  case (3 n)
  with assms(1) show ?thesis by (auto simp: guard_count_def Let_def intro!: startingI [where k = 3 and n = n])
next
  case (4 n)
  with assms(1) show ?thesis by (auto simp: guard_count_def Let_def intro!: startingI [where k = 4 and n = n])
next
  case (5 n)
  with assms(1) show ?thesis
    by (auto simp: guard_count_def intro!: startingI [where k = 5 and n = n] simp: start_ops_def)
qed

lemma op_run_ok:
  assumes "op_run op (b, c, h\<lparr>hd_ops := ops\<rparr>) = (b', c', h')" "hand_ok c (op # ops)" "cs_stream_guard c \<Longrightarrow> 0 < cb_active_streams b"
  shows "hand_ok c' (hd_ops h') \<and> cb_active_streams b' + guard_count c = cb_active_streams b + guard_count c'"
proof -
  consider "cs_open c" "starting c (op # ops)" | "plain_op op" "list_all plain_op ops"
      "cs_open c \<Longrightarrow> cs_stream_guard c \<longleftrightarrow> cs_streams c \<noteq> []" "\<not> cs_open c \<Longrightarrow> \<not> cs_stream_guard c"
    | "\<not> cs_open c" "cs_stream_guard c" "op = LeaveStream" "ops = []"
    using assms(2) by (auto simp: hand_ok_def split: if_splits)
  then show ?thesis
  proof cases
    case 1
    with starting_run [OF assms(1) 1(2)] show ?thesis by (simp add: hand_ok_def)
  next
    case 2
    with plain_run [OF assms(1) 2(1)] show ?thesis by (auto simp: hand_ok_def guard_count_def)
  next
    case 3
    with assms(1,3) show ?thesis by (auto simp: hand_ok_def guard_count_def reset_ops_def Let_def split: if_splits)
  qed
qed

lemma stream_step_keeps:
  assumes "fine_step env s (Start a) = Some s'" "\<forall>i msg. a \<noteq> Rpc i msg" "\<forall>i. a \<noteq> Disconnect i"
  shows "fs_handlers s' = fs_handlers s" "cb_active_streams (fs_bus s') = cb_active_streams (fs_bus s)"
    "cb_level_handle (fs_bus s') = cb_level_handle (fs_bus s) \<and> cb_chance_handle (fs_bus s') = cb_chance_handle (fs_bus s) \<and>
      sent_last (cb_level_tx (fs_bus s')) = sent_last (cb_level_tx (fs_bus s)) \<and>
      sent_last (cb_chance_tx (fs_bus s')) = sent_last (cb_chance_tx (fs_bus s))"
    "\<And>k. k < length (fs_conns s) \<Longrightarrow> k < length (fs_conns s')"
    "\<And>k. k < length (fs_conns s) \<Longrightarrow> cs_open (fs_conns s' ! k) = cs_open (fs_conns s ! k)"
    "\<And>k. k < length (fs_conns s) \<Longrightarrow> cs_stream_guard (fs_conns s' ! k) = cs_stream_guard (fs_conns s ! k)"
    "\<And>k. k < length (fs_conns s) \<Longrightarrow> (cs_streams (fs_conns s' ! k) = []) = (cs_streams (fs_conns s ! k) = [])"
    "\<And>k. k < length (fs_conns s') \<Longrightarrow> \<not> k < length (fs_conns s) \<Longrightarrow>
      conn_ok (fs_conns s' ! k) \<and> \<not> cs_stream_guard (fs_conns s' ! k)"
proof -
  obtain sv where step: "server_step env (fs_server s) a = Some sv" and s': "s' = s\<lparr>fs_server := sv\<rparr>"
    using assms by (cases a) auto
  have "fs_handlers s' = fs_handlers s \<and> cb_active_streams (fs_bus s') = cb_active_streams (fs_bus s) \<and>
    (cb_level_handle (fs_bus s') = cb_level_handle (fs_bus s) \<and> cb_chance_handle (fs_bus s') = cb_chance_handle (fs_bus s) \<and>
      sent_last (cb_level_tx (fs_bus s')) = sent_last (cb_level_tx (fs_bus s)) \<and>
      sent_last (cb_chance_tx (fs_bus s')) = sent_last (cb_chance_tx (fs_bus s))) \<and>
    (\<forall>k < length (fs_conns s). k < length (fs_conns s') \<and> cs_open (fs_conns s' ! k) = cs_open (fs_conns s ! k) \<and>
       cs_stream_guard (fs_conns s' ! k) = cs_stream_guard (fs_conns s ! k) \<and>
       (cs_streams (fs_conns s' ! k) = []) = (cs_streams (fs_conns s ! k) = [])) \<and>
    (\<forall>k < length (fs_conns s'). \<not> k < length (fs_conns s) \<longrightarrow> conn_ok (fs_conns s' ! k) \<and> \<not> cs_stream_guard (fs_conns s' ! k))"
    (is "?handlers \<and> ?active \<and> ?settings \<and> (\<forall>k < _. ?old k) \<and> (\<forall>k < _. _ \<longrightarrow> ?new k)")
    using step
  proof (cases rule: server_step_cases)
    case accept
    then show ?thesis by (auto simp: s' nth_append connection_new_def conn_ok_def)
  next
    case (stream i j r)
    then show ?thesis using stream_effect_bus [OF stream(4)]
      by (auto simp: s' has_stream_def nth_list_update drop_both_def split: if_splits)
  qed (use assms in auto)
  then have c: ?handlers ?active ?settings "\<And>k. k < length (fs_conns s) \<Longrightarrow> ?old k"
    "\<And>k. k < length (fs_conns s') \<Longrightarrow> \<not> k < length (fs_conns s) \<Longrightarrow> ?new k" by blast+
  show ?handlers ?active ?settings by (rule c)+
  show "k < length (fs_conns s')" "cs_open (fs_conns s' ! k) = cs_open (fs_conns s ! k)"
    "cs_stream_guard (fs_conns s' ! k) = cs_stream_guard (fs_conns s ! k)"
    "(cs_streams (fs_conns s' ! k) = []) = (cs_streams (fs_conns s ! k) = [])" if "k < length (fs_conns s)" for k
    using c(4) [OF that] by blast+
  show "conn_ok (fs_conns s' ! k) \<and> \<not> cs_stream_guard (fs_conns s' ! k)"
    if "k < length (fs_conns s')" "\<not> k < length (fs_conns s)" for k
    by (rule c(5) [OF that])
qed

lemma watching_kept:
  assumes "\<forall>k < length xs. k < length ys \<and> P (ys ! k) = P (xs ! k)"
    "\<forall>k < length ys. \<not> k < length xs \<longrightarrow> \<not> P (ys ! k)"
  shows "length (filter P ys) = length (filter P xs)"
proof -
  have "{i. i < length ys \<and> P (ys ! i)} = {i. i < length xs \<and> P (xs ! i)}" using assms by blast
  then show ?thesis by (simp add: length_filter_conv_card)
qed

lemma guards_update:
  "i < length xs \<Longrightarrow> length (filter cs_stream_guard (xs[i := c])) + guard_count (xs ! i) = length (filter cs_stream_guard xs) + guard_count c"
  using length_filter_update [of i xs cs_stream_guard c] by (simp add: guard_count_def)

lemma hand_ok_cong:
  "cs_open c' = cs_open c \<Longrightarrow> cs_stream_guard c' = cs_stream_guard c \<Longrightarrow> (cs_streams c' = []) = (cs_streams c = []) \<Longrightarrow>
     hand_ok c' ops = hand_ok c ops"
  "cs_open c' = cs_open c \<Longrightarrow> cs_stream_guard c' = cs_stream_guard c \<Longrightarrow> (cs_streams c' = []) = (cs_streams c = []) \<Longrightarrow>
     conn_ok c' = conn_ok c"
  by (simp_all add: hand_ok_def starting_def conn_ok_def)

lemma fine_ok_start:
  assumes "fine_ok s" "idle_conn s i" "\<And>c. conn_ok c \<Longrightarrow> cs_open c \<Longrightarrow> c = fs_conns s ! i \<Longrightarrow> hand_ok (f c) ops"
    "cs_stream_guard (f (fs_conns s ! i)) = cs_stream_guard (fs_conns s ! i)"
  shows "fine_ok (begin_handler i (f (fs_conns s ! i)) ops s)"
proof -
  have i: "i < length (fs_conns s)" "cs_open (fs_conns s ! i)" "fs_handlers s i = None"
    using assms(2) by (simp_all add: idle_conn_def has_conn_def)
  then have "conn_ok (fs_conns s ! i)" using assms(1) by (auto simp: fine_ok_def split: option.splits)
  with assms(3) i have "hand_ok (f (fs_conns s ! i)) ops" by blast
  moreover have "length (filter cs_stream_guard ((fs_conns s)[i := f (fs_conns s ! i)])) = length (filter cs_stream_guard (fs_conns s))"
    using guards_update [OF i(1), of "f (fs_conns s ! i)"] assms(4) by (simp add: guard_count_def split: if_splits)
  ultimately show ?thesis using assms(1) i
    by (auto simp: fine_ok_def begin_handler_def handler_new_def watching_def nth_list_update split: option.splits)
qed

lemma guard_counted_fine: "fine_ok s \<Longrightarrow> i < length (fs_conns s) \<Longrightarrow> cs_stream_guard (fs_conns s ! i) \<Longrightarrow> 0 < cb_active_streams (fs_bus s)"
  by (auto simp: fine_ok_def watching_def filter_empty_conv)

lemma fine_ok_handler:
  "fine_ok s \<Longrightarrow> fs_handlers s j = Some h \<Longrightarrow> j < length (fs_conns s) \<and> hand_ok (fs_conns s ! j) (hd_ops h)"
  by (auto simp: fine_ok_def split: option.splits dest!: spec [of _ j])

lemma fine_ok_continue:
  assumes "fine_ok s" "fs_handlers s i = Some h" "hd_ops h = op # ops"
    "op_run op (fs_bus s, fs_conns s ! i, h\<lparr>hd_ops := ops\<rparr>) = (b, c, h')"
  shows "fine_ok (put_handler i (b, c, h') s)"
proof -
  have i: "i < length (fs_conns s)" "hand_ok (fs_conns s ! i) (op # ops)"
    using assms(1,2,3) by (auto simp: fine_ok_def split: option.splits dest!: spec [of _ i])
  have ok: "hand_ok c (hd_ops h')" "cb_active_streams b + guard_count (fs_conns s ! i) = cb_active_streams (fs_bus s) + guard_count c"
    using op_run_ok [OF assms(4) i(2)] guard_counted_fine [OF assms(1) i(1)] by blast+
  have "cb_active_streams b = length (filter cs_stream_guard ((fs_conns s)[i := c]))"
    using guards_update [OF i(1), of c] ok(2) assms(1) by (simp add: fine_ok_def watching_def)
  with assms(1) ok(1) i(1) show ?thesis
    by (auto simp: fine_ok_def watching_def nth_list_update split: option.splits)
qed

lemma fine_step_ok:
  assumes "fine_step env s a = Some s'" "fine_ok s"
  shows "fine_ok s'"
proof (cases a)
  case (Continue i)
  with assms(1) obtain h where h: "fs_handlers s i = Some h" by (auto split: option.splits)
  show ?thesis
  proof (cases "hd_ops h")
    case Nil
    with Continue assms(1) h have s': "s' = s\<lparr>fs_handlers := (fs_handlers s)(i := None)\<rparr>" by simp
    from assms(2) h Nil have "hand_ok (fs_conns s ! i) []" by (auto simp: fine_ok_def split: option.splits dest!: spec [of _ i])
    with hand_done assms(2) show ?thesis by (auto simp: fine_ok_def s' split: option.splits)
  next
    case (Cons op ops)
    obtain b c h' where run: "op_run op (fs_bus s, fs_conns s ! i, h\<lparr>hd_ops := ops\<rparr>) = (b, c, h')"
      by (cases "op_run op (fs_bus s, fs_conns s ! i, h\<lparr>hd_ops := ops\<rparr>)")
    with continue_op [OF h Cons] Continue assms(1) have "s' = put_handler i (b, c, h') s" by simp
    with fine_ok_continue [OF assms(2) h Cons run] show ?thesis by simp
  qed
next
  case (Start sa)
  show ?thesis
  proof (cases "(\<exists>i msg. sa = Rpc i msg) \<or> (\<exists>i. sa = Disconnect i)")
    case True
    then show ?thesis
    proof (elim disjE exE)
      fix i msg assume "sa = Rpc i msg"
      with Start assms(1) have "idle_conn s i" "s' = begin_handler i (fs_conns s ! i) (rpc_ops (he_cc env) msg) s"
        by (auto split: if_splits)
      with fine_ok_start [OF assms(2), of i "\<lambda>c. c"] rpc_hand show ?thesis by simp
    next
      fix i assume "sa = Disconnect i"
      with Start assms(1) have "idle_conn s i" "s' = begin_handler i ((fs_conns s ! i)\<lparr>cs_open := False\<rparr>)
          (if cs_stream_guard (fs_conns s ! i) then [LeaveStream] else []) s"
        by (auto split: if_splits)
      with fine_ok_start [OF assms(2), of i "\<lambda>c. c\<lparr>cs_open := False\<rparr>" "if cs_stream_guard (fs_conns s ! i) then [LeaveStream] else []"]
        drop_hand show ?thesis by auto
    qed
  next
    case False
    then have k: "\<forall>i msg. sa \<noteq> Rpc i msg" "\<forall>i. sa \<noteq> Disconnect i" by auto
    note kept = stream_step_keeps [OF assms(1) [unfolded Start] k]
    have "length (watching (fs_server s')) = length (watching (fs_server s))"
      unfolding watching_def using kept(4,6,8) by (intro watching_kept) auto
    moreover have old: "j < length (fs_conns s') \<and> conn_ok (fs_conns s' ! j) = conn_ok (fs_conns s ! j) \<and>
        hand_ok (fs_conns s' ! j) ops = hand_ok (fs_conns s ! j) ops" if "j < length (fs_conns s)" for j ops
      using kept(4) [OF that] hand_ok_cong [OF kept(5) [OF that] kept(6) [OF that] kept(7) [OF that]] by blast
    moreover have "conn_ok (fs_conns s' ! j)" if "j < length (fs_conns s')" "fs_handlers s j = None" for j
    proof (cases "j < length (fs_conns s)")
      case True
      with that(2) assms(2) have "conn_ok (fs_conns s ! j)" by (auto simp: fine_ok_def split: option.splits)
      with old [OF True] show ?thesis by blast
    next
      case False
      with kept(8) that(1) show ?thesis by blast
    qed
    moreover have "fs_handlers s' = fs_handlers s" "cb_active_streams (fs_bus s') = cb_active_streams (fs_bus s)"
      by (rule kept(1), rule kept(2))
    moreover have "cb_active_streams (fs_bus s) = length (watching (fs_server s))" using assms(2) by (simp add: fine_ok_def)
    moreover note fine_ok_handler [OF assms(2)]
    ultimately show ?thesis by (simp add: fine_ok_def split: option.splits)
  qed
qed

lemma fine_ok_init: "fine_ok (fine_serve lh ch now)"
  by (simp add: fine_ok_def fine_serve_def serve_def broadcast_new_def watching_def Let_def)

lemma fine_run_ok: "fine_run env s acts = Some s' \<Longrightarrow> fine_ok s \<Longrightarrow> fine_ok s'"
  by (induction acts arbitrary: s) (auto split: option.splits dest: fine_step_ok)

section \<open>The reset of the last console\<close>

definition settings_kept :: "fine_server \<Rightarrow> fine_server \<Rightarrow> bool" where
  "settings_kept s s' \<longleftrightarrow>
     cb_level_handle (fs_bus s') = cb_level_handle (fs_bus s) \<and> cb_chance_handle (fs_bus s') = cb_chance_handle (fs_bus s) \<and>
     sent_last (cb_level_tx (fs_bus s')) = sent_last (cb_level_tx (fs_bus s)) \<and>
     sent_last (cb_chance_tx (fs_bus s')) = sent_last (cb_chance_tx (fs_bus s))"

text \<open>Operations that set nothing but what a reset sets, and the runs that perform only these.\<close>

fun calm_op :: "handler_op \<Rightarrow> bool" where
  "calm_op (LevelStore f) = (f = OFF)"
| "calm_op (LevelSend f) = (f = LfOff)"
| "calm_op (ChanceStore pct) = (pct = Fin 100)"
| "calm_op (ChanceSend pct) = (pct = Fin 100)"
| "calm_op _ = True"

fun calm_next :: "fine_server \<Rightarrow> fine_action \<Rightarrow> bool" where
  "calm_next s (Start a) = True"
| "calm_next s (Continue i) = (case ops_left s i of [] \<Rightarrow> True | op # _ \<Rightarrow> calm_op op)"

fun calm_run :: "host_env \<Rightarrow> fine_server \<Rightarrow> fine_action list \<Rightarrow> bool" where
  "calm_run env s [] = True"
| "calm_run env s (a # acts) =
     (calm_next s a \<and> (case fine_step env s a of None \<Rightarrow> True | Some s' \<Rightarrow> calm_run env s' acts))"

text \<open>How far the reset of connection \<open>i\<close> has come, whatever calm steps the others took.\<close>

definition reset_reached :: "broadcast \<Rightarrow> handler_op list \<Rightarrow> bool" where
  "reset_reached b ops \<longleftrightarrow>
     (\<exists>k. ops = drop k reset_ops \<and>
        (1 \<le> k \<longrightarrow> cb_level_handle b = filter_to_u8 OFF) \<and> (2 \<le> k \<longrightarrow> sent_last (cb_level_tx b) = LfOff) \<and>
        (3 \<le> k \<longrightarrow> cb_chance_handle b = Fin 100) \<and> (4 \<le> k \<longrightarrow> sent_last (cb_chance_tx b) = Fin 100))"

definition only_resets :: "broadcast \<Rightarrow> broadcast \<Rightarrow> bool" where
  "only_resets b b' \<longleftrightarrow>
     cb_level_handle b' \<in> {cb_level_handle b, filter_to_u8 OFF} \<and> sent_last (cb_level_tx b') \<in> {sent_last (cb_level_tx b), LfOff} \<and>
     cb_chance_handle b' \<in> {cb_chance_handle b, Fin 100} \<and> sent_last (cb_chance_tx b') \<in> {sent_last (cb_chance_tx b), Fin 100}"

lemma only_resets_kept: "settings_kept s s' \<Longrightarrow> only_resets (fs_bus s) (fs_bus s')"
  by (simp add: settings_kept_def only_resets_def)

lemma calm_op_resets: "op_run op (b, c, h) = (b', c', h') \<Longrightarrow> calm_op op \<Longrightarrow> only_resets b b'"
  by (cases op) (auto simp: only_resets_def bus_defs level_handle_set_def chance_handle_set_def Let_def split: if_splits)

lemma reset_reached_mono: "reset_reached b ops \<Longrightarrow> only_resets b b' \<Longrightarrow> reset_reached b' ops"
  unfolding reset_reached_def only_resets_def insert_iff empty_iff by metis

lemma reset_cases [consumes 1]:
  assumes "reset_reached b (op # ops)"
  obtains "op = LevelStore OFF" "ops = drop 1 reset_ops"
  | "op = LevelSend LfOff" "ops = drop 2 reset_ops" "cb_level_handle b = filter_to_u8 OFF"
  | "op = ChanceStore (Fin 100)" "ops = drop 3 reset_ops" "cb_level_handle b = filter_to_u8 OFF" "sent_last (cb_level_tx b) = LfOff"
  | "op = ChanceSend (Fin 100)" "ops = drop 4 reset_ops" "cb_level_handle b = filter_to_u8 OFF" "sent_last (cb_level_tx b) = LfOff"
      "cb_chance_handle b = Fin 100"
  using assms by (auto simp: reset_reached_def reset_ops_def drop_Cons' split: if_splits)

lemma resetI:
  "ops = drop k reset_ops \<Longrightarrow> (1 \<le> k \<Longrightarrow> cb_level_handle b = filter_to_u8 OFF) \<Longrightarrow> (2 \<le> k \<Longrightarrow> sent_last (cb_level_tx b) = LfOff) \<Longrightarrow>
   (3 \<le> k \<Longrightarrow> cb_chance_handle b = Fin 100) \<Longrightarrow> (4 \<le> k \<Longrightarrow> sent_last (cb_chance_tx b) = Fin 100) \<Longrightarrow> reset_reached b ops"
  unfolding reset_reached_def by blast

lemma reset_run:
  assumes "reset_reached b (op # ops)" "op_run op (b, c, h\<lparr>hd_ops := ops\<rparr>) = (b', c', h')"
  shows "reset_reached b' (hd_ops h') \<and> calm_op op \<and> cs_open c' = cs_open c"
  using assms(1)
proof (cases rule: reset_cases)
  case 1
  with assms(2) show ?thesis by (auto simp: level_store_def level_handle_set_def intro!: resetI [where k = 1])
next
  case 2
  with assms(2) show ?thesis by (auto simp: level_send_def intro!: resetI [where k = 2])
next
  case 3
  with assms(2) show ?thesis by (auto simp: chance_store_def chance_handle_set_def intro!: resetI [where k = 3])
next
  case 4
  with assms(2) show ?thesis by (auto simp: chance_send_def intro!: resetI [where k = 4])
qed

lemma reset_done: "reset_reached b [] \<Longrightarrow> cb_level_handle b = filter_to_u8 OFF \<and> sent_last (cb_level_tx b) = LfOff \<and>
    cb_chance_handle b = Fin 100 \<and> sent_last (cb_chance_tx b) = Fin 100"
  by (auto simp: reset_reached_def reset_ops_def drop_Cons' split: if_splits)

definition resetting :: "fine_server \<Rightarrow> nat \<Rightarrow> bool" where
  "resetting s i \<longleftrightarrow> i < length (fs_conns s) \<and> \<not> cs_open (fs_conns s ! i) \<and> reset_reached (fs_bus s) (ops_left s i)"

text \<open>A handler of connection \<open>i\<close> moves only by its own steps, and a closed connection stays closed.\<close>

lemma fine_step_other:
  assumes "fine_step env s a = Some s'" "a \<noteq> Continue i" "i < length (fs_conns s)" "\<not> cs_open (fs_conns s ! i)"
  shows "fs_handlers s' i = fs_handlers s i \<and> i < length (fs_conns s') \<and> \<not> cs_open (fs_conns s' ! i) \<and>
    cs_stream_guard (fs_conns s' ! i) = cs_stream_guard (fs_conns s ! i) \<and>
    (calm_next s a \<longrightarrow> only_resets (fs_bus s) (fs_bus s'))"
proof (cases a)
  case (Continue j)
  with assms(1) obtain h where h: "fs_handlers s j = Some h" by (auto split: option.splits)
  show ?thesis
  proof (cases "hd_ops h")
    case Nil
    with Continue assms h show ?thesis by (auto simp: only_resets_def)
  next
    case (Cons op ops)
    obtain b c h' where run: "op_run op (fs_bus s, fs_conns s ! j, h\<lparr>hd_ops := ops\<rparr>) = (b, c, h')"
      by (cases "op_run op (fs_bus s, fs_conns s ! j, h\<lparr>hd_ops := ops\<rparr>)")
    with continue_op [OF h Cons] Continue assms(1) have s': "s' = put_handler j (b, c, h') s" by simp
    have "j \<noteq> i" using Continue assms(2) by blast
    then show ?thesis using s' assms(3,4) calm_op_resets [OF run] h Cons Continue by (simp add: ops_left_def)
  qed
next
  case (Start sa)
  show ?thesis
  proof (cases "(\<exists>j msg. sa = Rpc j msg) \<or> (\<exists>j. sa = Disconnect j)")
    case True
    with Start assms show ?thesis
      by (auto simp: idle_conn_def has_conn_def begin_handler_def nth_list_update only_resets_def split: if_splits)
  next
    case False
    then have k: "\<forall>i msg. sa \<noteq> Rpc i msg" "\<forall>i. sa \<noteq> Disconnect i" by auto
    note kept = stream_step_keeps [OF assms(1) [unfolded Start] k]
    from kept(3) have "only_resets (fs_bus s) (fs_bus s')" by (simp add: only_resets_def)
    then show ?thesis using kept(1) kept(4) [OF assms(3)] kept(5) [OF assms(3)] kept(6) [OF assms(3)] assms(4) by simp
  qed
qed

lemma resetting_step:
  assumes "fine_step env s a = Some s'" "calm_next s a" "resetting s i"
  shows "resetting s' i"
proof (cases "a = Continue i")
  case False
  note r = assms(3) [unfolded resetting_def]
  note other = fine_step_other [OF assms(1) False]
  have "ops_left s' i = ops_left s i" using other r by (simp add: ops_left_def)
  with other r assms(2) reset_reached_mono show ?thesis by (simp add: resetting_def) blast
next
  case True
  with assms(1) obtain h where h: "fs_handlers s i = Some h" by (auto split: option.splits)
  show ?thesis
  proof (cases "hd_ops h")
    case Nil
    with True assms h show ?thesis by (auto simp: resetting_def ops_left_def)
  next
    case (Cons op ops)
    obtain b c h' where run: "op_run op (fs_bus s, fs_conns s ! i, h\<lparr>hd_ops := ops\<rparr>) = (b, c, h')"
      by (cases "op_run op (fs_bus s, fs_conns s ! i, h\<lparr>hd_ops := ops\<rparr>)")
    with continue_op [OF h Cons] True assms(1) have s': "s' = put_handler i (b, c, h') s" by simp
    have "reset_reached (fs_bus s) (op # ops)" using assms(3) h Cons by (simp add: resetting_def ops_left_def)
    from reset_run [OF this run] s' assms(3) show ?thesis by (simp add: resetting_def ops_left_def)
  qed
qed

lemma resetting_run:
  "fine_run env s acts = Some s' \<Longrightarrow> calm_run env s acts \<Longrightarrow> resetting s i \<Longrightarrow> resetting s' i"
  by (induction acts arbitrary: s) (auto split: option.splits dest: resetting_step)

lemma between_keeps:
  "fine_run env s acts = Some s' \<Longrightarrow> Continue i \<notin> set acts \<Longrightarrow> i < length (fs_conns s) \<Longrightarrow> \<not> cs_open (fs_conns s ! i) \<Longrightarrow>
     fs_handlers s' i = fs_handlers s i \<and> i < length (fs_conns s') \<and> \<not> cs_open (fs_conns s' ! i) \<and>
     cs_stream_guard (fs_conns s' ! i) = cs_stream_guard (fs_conns s ! i)"
proof (induction acts arbitrary: s)
  case (Cons a acts)
  then obtain s1 where s1: "fine_step env s a = Some s1" "fine_run env s1 acts = Some s'" by (auto split: option.splits)
  have "a \<noteq> Continue i" using Cons.prems(2) by auto
  note o = fine_step_other [OF s1(1) this Cons.prems(3,4)]
  from Cons.IH [OF s1(2)] Cons.prems(2) o show ?case by auto
qed simp

lemma reset_finishes:
  assumes "fs_handlers s i = Some h" "hd_ops h = reset_ops"
  shows "\<exists>s'. fine_run env s (replicate 5 (Continue i)) = Some s' \<and> calm_run env s (replicate 5 (Continue i)) \<and> fs_handlers s' i = None"
  using assms by (simp add: eval_nat_numeral reset_ops_def ops_left_def)

lemma watching_idle: "fine_ok s \<Longrightarrow> \<forall>k. fs_handlers s k = None \<Longrightarrow> watching (fs_server s) = consoles (fs_server s)"
  by (auto simp: fine_ok_def watching_def consoles_def conn_ok_def in_set_conv_nth intro!: filter_cong)

text \<open>The drop of a connection without a guard does nothing; that of one with a guard is \<open>LeaveStream\<close>.\<close>

lemma disconnect_begins:
  assumes "fine_ok s" "fine_step env s (Start (Disconnect i)) = Some s1"
  shows "i < length (fs_conns s1)" "\<not> cs_open (fs_conns s1 ! i)" "fs_bus s1 = fs_bus s"
    "cs_stream_guard (fs_conns s1 ! i) \<longleftrightarrow> cs_streams (fs_conns s ! i) \<noteq> []"
    "fs_handlers s1 i = Some (handler_new (if cs_streams (fs_conns s ! i) = [] then [] else [LeaveStream]))"
proof -
  from assms(2) have idle: "idle_conn s i" and s1: "s1 = begin_handler i ((fs_conns s ! i)\<lparr>cs_open := False\<rparr>)
      (if cs_stream_guard (fs_conns s ! i) then [LeaveStream] else []) s" by (auto split: if_splits)
  have i: "i < length (fs_conns s)" "cs_open (fs_conns s ! i)" "fs_handlers s i = None"
    using idle by (simp_all add: idle_conn_def has_conn_def)
  then have "conn_ok (fs_conns s ! i)" using assms(1) by (auto simp: fine_ok_def split: option.splits)
  then have "cs_stream_guard (fs_conns s ! i) \<longleftrightarrow> cs_streams (fs_conns s ! i) \<noteq> []" using i(2) by (simp add: conn_ok_def)
  then show "i < length (fs_conns s1)" "\<not> cs_open (fs_conns s1 ! i)" "fs_bus s1 = fs_bus s"
    "cs_stream_guard (fs_conns s1 ! i) \<longleftrightarrow> cs_streams (fs_conns s ! i) \<noteq> []"
    "fs_handlers s1 i = Some (handler_new (if cs_streams (fs_conns s ! i) = [] then [] else [LeaveStream]))"
    using i by (simp_all add: s1 begin_handler_def)
qed

lemma leave_stream_step:
  assumes "fine_ok s" "fine_step env s (Continue i) = Some s'" "fs_handlers s i = Some (handler_new [LeaveStream])"
    "cs_stream_guard (fs_conns s ! i)"
  shows "settings_kept s s'" "ops_left s' i = (if watching (fs_server s') = [] then reset_ops else [])"
    "fs_handlers s' i \<noteq> None" "fs_conns s' ! i = (fs_conns s ! i)\<lparr>cs_stream_guard := False\<rparr>" "i < length (fs_conns s')"
proof -
  let ?prev = "cb_active_streams (fs_bus s)"
  have i: "i < length (fs_conns s)" using fine_ok_handler [OF assms(1,3)] by blast
  have prev: "0 < ?prev" by (rule guard_counted_fine [OF assms(1) i assms(4)])
  have s': "s' = put_handler i ((fs_bus s)\<lparr>cb_active_streams := ?prev - 1\<rparr>, (fs_conns s ! i)\<lparr>cs_stream_guard := False\<rparr>,
      handler_new (if ?prev = 1 then reset_ops else [])) s"
    using assms(2,3) prev by (auto simp: put_handler_def handler_new_def Let_def split: if_splits)
  have "fine_ok s'" by (rule fine_step_ok [OF assms(2,1)])
  then have "?prev - 1 = length (watching (fs_server s'))" using s' by (simp add: fine_ok_def)
  then have last: "?prev = 1 \<longleftrightarrow> watching (fs_server s') = []" using prev by auto
  show "settings_kept s s'" "fs_handlers s' i \<noteq> None" "fs_conns s' ! i = (fs_conns s ! i)\<lparr>cs_stream_guard := False\<rparr>"
    "i < length (fs_conns s')" using i by (simp_all add: s' settings_kept_def)
  show "ops_left s' i = (if watching (fs_server s') = [] then reset_ops else [])"
    unfolding last [symmetric] by (simp add: s' ops_left_def handler_new_def)
qed

lemma reset_turns_off:
  assumes "resetting s i" "fine_run env s later = Some s'" "calm_run env s later" "fs_handlers s' i = None"
  shows "level_handle_get (cb_level_handle (fs_bus s')) = OFF \<and> (\<forall>md. \<not> level_enabled (cb_level_handle (fs_bus s')) md) \<and>
    sent_last (cb_level_tx (fs_bus s')) = LfOff \<and> cb_chance_handle (fs_bus s') = Fin 100 \<and> sent_last (cb_chance_tx (fs_bus s')) = Fin 100"
proof -
  have "resetting s' i" by (rule resetting_run [OF assms(2,3,1)])
  then have "reset_reached (fs_bus s') []" using assms(4) by (simp add: resetting_def ops_left_def)
  from reset_done [OF this] show ?thesis by (simp add: level_handle_get_def level_enabled_def)
qed

text \<open>C9. However the operations of the handlers on the server interleave, the counter of active
  streams is the number of guards that are held, which with no handler under way is the number of
  open connections that started a stream. The end of a connection that never started one changes
  nothing. The end of one that did changes no setting by giving up its guard, whatever ran before
  that, and has nothing left to do when other guards are held then. When none is, it has the whole
  reset left, which it can always finish, and once it has, provided no other handler has set a level
  other than \<open>OFF\<close> or a chance other than 100 meanwhile, the level filter is \<open>OFF\<close>, so that no callsite is
  enabled, the chance is 100, and both are what was broadcast last.\<close>

theorem last_console_turns_off:
  assumes "fine_run env (fine_serve lh ch now) acts = Some s" "fine_step env s (Start (Disconnect i)) = Some s1"
    "fine_run env s1 between = Some s2" "Continue i \<notin> set between" "fine_step env s2 (Continue i) = Some s3"
  shows "cb_active_streams (fs_bus s) = length (watching (fs_server s)) \<and>
    ((\<forall>k. fs_handlers s k = None) \<longrightarrow> watching (fs_server s) = consoles (fs_server s)) \<and>
    settings_kept s s1 \<and> settings_kept s2 s3 \<and>
    (if cs_streams (fs_conns s ! i) = [] \<or> watching (fs_server s3) \<noteq> [] then ops_left s3 i = []
     else ops_left s3 i = reset_ops \<and>
       (\<exists>s4. fine_run env s3 (replicate 5 (Continue i)) = Some s4 \<and> calm_run env s3 (replicate 5 (Continue i)) \<and> fs_handlers s4 i = None) \<and>
       (\<forall>later s4. fine_run env s3 later = Some s4 \<and> calm_run env s3 later \<and> fs_handlers s4 i = None \<longrightarrow>
          level_handle_get (cb_level_handle (fs_bus s4)) = OFF \<and> (\<forall>md. \<not> level_enabled (cb_level_handle (fs_bus s4)) md) \<and>
          sent_last (cb_level_tx (fs_bus s4)) = LfOff \<and>
          cb_chance_handle (fs_bus s4) = Fin 100 \<and> sent_last (cb_chance_tx (fs_bus s4)) = Fin 100))"
proof -
  have ok: "fine_ok s" by (rule fine_run_ok [OF assms(1) fine_ok_init])
  note b = disconnect_begins [OF ok assms(2)]
  have ok2: "fine_ok s2" by (rule fine_run_ok [OF assms(3) fine_step_ok [OF assms(2) ok]])
  note k = between_keeps [OF assms(3,4) b(1,2)]
  have base: "cb_active_streams (fs_bus s) = length (watching (fs_server s))"
    "(\<forall>k. fs_handlers s k = None) \<longrightarrow> watching (fs_server s) = consoles (fs_server s)" "settings_kept s s1"
    using ok watching_idle [OF ok] b(3) by (auto simp: fine_ok_def settings_kept_def)
  show ?thesis
  proof (cases "cs_streams (fs_conns s ! i) = []")
    case True
    with k b(5) assms(5) have "s3 = s2\<lparr>fs_handlers := (fs_handlers s2)(i := None)\<rparr>" by (simp add: handler_new_def)
    with base True show ?thesis by (simp add: settings_kept_def ops_left_def)
  next
    case False
    with k b(4,5) have h: "fs_handlers s2 i = Some (handler_new [LeaveStream])" "cs_stream_guard (fs_conns s2 ! i)" by simp_all
    note l = leave_stream_step [OF ok2 assms(5) h]
    show ?thesis
    proof (cases "watching (fs_server s3) = []")
      case False
      with base l show ?thesis by simp
    next
      case True
      then obtain h3 where h3: "fs_handlers s3 i = Some h3" "hd_ops h3 = reset_ops"
        using l(2,3) by (auto simp: ops_left_def)
      have "reset_reached (fs_bus s3) reset_ops" by (rule resetI [where k = 0]) simp_all
      with True l(2,4,5) k have "resetting s3 i" by (simp add: resetting_def)
      then have off: "\<forall>later s4. fine_run env s3 later = Some s4 \<and> calm_run env s3 later \<and> fs_handlers s4 i = None \<longrightarrow>
          level_handle_get (cb_level_handle (fs_bus s4)) = OFF \<and> (\<forall>md. \<not> level_enabled (cb_level_handle (fs_bus s4)) md) \<and>
          sent_last (cb_level_tx (fs_bus s4)) = LfOff \<and>
          cb_chance_handle (fs_bus s4) = Fin 100 \<and> sent_last (cb_chance_tx (fs_bus s4)) = Fin 100"
        by (intro allI impI) (elim conjE, rule reset_turns_off)
      from base l(1,2) True False reset_finishes [OF h3, of env] off show ?thesis by simp
    qed
  qed
qed

abbreviation fine_rpc :: "nat \<Rightarrow> u64 \<Rightarrow> request_body \<Rightarrow> nat \<Rightarrow> fine_action list" where
  "fine_rpc i n b k \<equiv> Start (rpc_at i n b) # replicate k (Continue i)"

lemmas fine_simps = fine_serve_def run_simps rpc_at_def idle_conn_def begin_handler_def handler_new_def rpc_ops_def
  start_ops_def set_level_ops_def put_conn_def level_send_def level_store_def eval_nat_numeral

text \<open>Two consoles; while the first ends, the second, which has not started its stream yet, asks for one.\<close>

lemma last_console_turns_off_witness:
  "\<exists>s s1 s2 s3 s4. fine_run example_env (fine_serve 0 (Fin 100) example_base)
       ([Start Accept, Start Accept] @ fine_rpc 0 1 StartStream 6 @ fine_rpc 0 2 (SetCacheLevel LfTrace) 4) = Some s \<and>
     level_handle_get (cb_level_handle (fs_bus s)) = AtMost TRACE \<and>
     fine_step example_env s (Start (Disconnect 0)) = Some s1 \<and>
     fine_run example_env s1 [Start (rpc_at 1 7 StartStream), Continue 1] = Some s2 \<and>
     fine_step example_env s2 (Continue 0) = Some s3 \<and>
     fine_run example_env s3 ([Continue 0, Continue 1, Continue 1] @ replicate 4 (Continue 0)) = Some s4 \<and>
     level_handle_get (cb_level_handle (fs_bus s4)) = OFF \<and> cb_chance_handle (fs_bus s4) = Fin 100"
proof -
  let ?later = "[Continue 0, Continue 1, Continue 1] @ replicate 4 (Continue 0)"
  obtain s s1 s2 s3 s4 where run: "fine_run example_env (fine_serve 0 (Fin 100) example_base)
       ([Start Accept, Start Accept] @ fine_rpc 0 1 StartStream 6 @ fine_rpc 0 2 (SetCacheLevel LfTrace) 4) = Some s"
    and level: "level_handle_get (cb_level_handle (fs_bus s)) = AtMost TRACE"
    and step: "fine_step example_env s (Start (Disconnect 0)) = Some s1"
    and between: "fine_run example_env s1 [Start (rpc_at 1 7 StartStream), Continue 1] = Some s2"
    and leave: "fine_step example_env s2 (Continue 0) = Some s3"
    and later: "fine_run example_env s3 ?later = Some s4" "calm_run example_env s3 ?later" "fs_handlers s4 0 = None"
    and conns: "cs_streams (fs_conns s ! 0) \<noteq> []" "watching (fs_server s3) = []"
    by (simp add: fine_simps level_handle_get_def level_handle_set_def put_handler_def enter_stream_def ops_left_def
        reset_ops_def watching_def broadcast_new_def chance_send_def chance_store_def)
  have quiet: "Continue 0 \<notin> set [Start (rpc_at 1 7 StartStream), Continue 1]" by simp
  from last_console_turns_off [OF run step between quiet leave] conns
  have "\<forall>later s4. fine_run example_env s3 later = Some s4 \<and> calm_run example_env s3 later \<and> fs_handlers s4 0 = None \<longrightarrow>
      level_handle_get (cb_level_handle (fs_bus s4)) = OFF \<and> cb_chance_handle (fs_bus s4) = Fin 100" by (auto simp del: fine_step.simps)
  with later have "level_handle_get (cb_level_handle (fs_bus s4)) = OFF \<and> cb_chance_handle (fs_bus s4) = Fin 100" by blast
  with run level step between leave later(1) show ?thesis
    by (intro exI [of _ s] exI [of _ s1] exI [of _ s2] exI [of _ s3] exI [of _ s4] conjI) simp_all
qed

text \<open>The reset is not part of the \<open>fetch_sub\<close> that decides on it: a console that starts its stream
  and sets a level in between is switched off, though its request was acknowledged and it is there.\<close>

lemma reset_interleaved:
  "\<exists>s. fine_run example_env (fine_serve 0 (Fin 100) example_base)
       ([Start Accept, Start Accept] @ fine_rpc 0 1 StartStream 6 @ [Start (Disconnect 0), Continue 0] @
        fine_rpc 1 2 StartStream 6 @ fine_rpc 1 3 (SetCacheLevel LfTrace) 4 @ replicate 5 (Continue 0)) = Some s \<and>
     fs_handlers s = (\<lambda>_. None) \<and> consoles (fs_server s) = [fs_conns s ! 1] \<and>
     cs_replies (fs_conns s ! 1) = [response_with_id 3 (response_ack (he_cc example_env))] \<and>
     level_handle_get (cb_level_handle (fs_bus s)) = OFF"
  by (simp add: fine_simps level_handle_get_def level_handle_set_def enter_stream_def
      reset_ops_def consoles_def broadcast_new_def chance_send_def chance_store_def fun_eq_iff)

end
