(* ===== verification/Drawing.thy ===== *)
theory Drawing
  imports Installer
begin

text \<open>
  Text on its way to the screen, shared by the statistics mode and the views: number formatting and
  padding of \<open>format!\<close>, and the styled text the code hands to ratatui (\<open>Style\<close>, \<open>Span\<close>, \<open>Line\<close>
  as data). Layout and drawing themselves are ratatui's.
\<close>

section \<open>Formatting\<close>

text \<open>\<open>{:.k}\<close>: the exact value rounded to \<open>k\<close> decimals, ties to even.\<close>

definition fmt_decimals :: "nat \<Rightarrow> rat \<Rightarrow> string" where
  "fmt_decimals k q =
     (let t = round_half_even (q * 10 ^ k);
          ds = show_uint (t mod 10 ^ k)
      in if k = 0 then show_uint t
         else show_uint (t div 10 ^ k) @ ''.'' @ replicate (k - length ds) (CHR ''0'') @ ds)"

definition fmt_fixed :: "nat \<Rightarrow> f64 \<Rightarrow> string" where
  "fmt_fixed k x =
     (case x of
        NaN \<Rightarrow> ''NaN''
      | PosInf \<Rightarrow> ''inf''
      | NegInf \<Rightarrow> ''-inf''
      | _ \<Rightarrow> (if f64_is_neg x then ''-'' else []) @ fmt_decimals k \<bar>f64_val x\<bar>)"

text \<open>Operations on numbers only the views use.\<close>

definition f64_min :: "f64 \<Rightarrow> f64 \<Rightarrow> f64" where
  "f64_min a b = (if a = NaN then b else if b = NaN then a else if f64_lt b a then b else a)"

definition f64_abs :: "f64 \<Rightarrow> f64" where
  "f64_abs x = (case x of NegInf \<Rightarrow> PosInf | NegZero \<Rightarrow> Fin 0 | Fin q \<Rightarrow> Fin \<bar>q\<bar> | _ \<Rightarrow> x)"

definition f64_floor :: "f64 \<Rightarrow> f64" where
  "f64_floor x =
     (if f64_is_finite x \<and> \<not> f64_is_zero x then Fin (of_int \<lfloor>f64_val x\<rfloor>) else x)"

text \<open>\<open>as i64\<close>, \<open>as i32\<close>: towards zero, saturating.\<close>

definition f64_to_int :: "int \<Rightarrow> f64 \<Rightarrow> int" where
  "f64_to_int bound x =
     (case x of
        PosInf \<Rightarrow> bound - 1
      | NegInf \<Rightarrow> - bound
      | Fin q \<Rightarrow> max (- bound) (min (bound - 1) (if 0 \<le> q then \<lfloor>q\<rfloor> else \<lceil>q\<rceil>))
      | _ \<Rightarrow> 0)"

text \<open>\<open>{:<w}\<close>, \<open>{:>w}\<close>, \<open>{:^w}\<close>: the width counts characters.\<close>

definition char_count :: "string \<Rightarrow> nat" where
  "char_count s = length (chars s)"

definition pad_right :: "nat \<Rightarrow> string \<Rightarrow> string" where
  "pad_right w s = s @ replicate (w - char_count s) (CHR '' '')"

definition pad_left :: "nat \<Rightarrow> string \<Rightarrow> string" where
  "pad_left w s = replicate (w - char_count s) (CHR '' '') @ s"

definition pad_center :: "nat \<Rightarrow> string \<Rightarrow> string" where
  "pad_center w s =
     (let pad = w - char_count s
      in replicate (pad div 2) (CHR '' '') @ s @ replicate (pad - pad div 2) (CHR '' ''))"

text \<open>Characters outside ASCII that the program prints.\<close>

definition column_rule :: string where "column_rule = map char_of [226 :: nat, 148, 130]"
definition em_dash :: string where "em_dash = map char_of [226 :: nat, 128, 148]"
definition middle_dot :: string where "middle_dot = map char_of [194 :: nat, 183]"
definition ellipsis :: string where "ellipsis = map char_of [226 :: nat, 128, 166]"

section \<open>Styled text\<close>

datatype color =
    ColBlack | ColRed | ColGreen | ColYellow | ColMagenta | ColCyan | ColWhite | ColDarkGray
  | ColLightGreen | ColLightYellow | ColLightBlue | ColRgb nat nat nat

datatype modifier = Bold | Dim | Underlined | Reversed

record style =
  sy_fg :: "color option"
  sy_bg :: "color option"
  sy_modifiers :: "modifier set"

definition style_default :: style where
  "style_default = \<lparr>sy_fg = None, sy_bg = None, sy_modifiers = {}\<rparr>"

definition fg :: "color \<Rightarrow> style \<Rightarrow> style" where
  "fg c st = st\<lparr>sy_fg := Some c\<rparr>"

definition bg :: "color \<Rightarrow> style \<Rightarrow> style" where
  "bg c st = st\<lparr>sy_bg := Some c\<rparr>"

definition add_modifiers :: "modifier set \<Rightarrow> style \<Rightarrow> style" where
  "add_modifiers ms st = st\<lparr>sy_modifiers := sy_modifiers st \<union> ms\<rparr>"

lemmas style_defs = style_default_def fg_def bg_def add_modifiers_def

type_synonym tui_span = "string \<times> style"

datatype alignment = AlignLeft | AlignCenter | AlignRight

record tui_line =
  tl_spans :: "tui_span list"
  tl_alignment :: alignment

definition raw :: "string \<Rightarrow> tui_span" where
  "raw s = (s, style_default)"

definition line_of :: "tui_span list \<Rightarrow> tui_line" where
  "line_of spans = \<lparr>tl_spans = spans, tl_alignment = AlignLeft\<rparr>"

definition centered :: "tui_line \<Rightarrow> tui_line" where
  "centered l = l\<lparr>tl_alignment := AlignCenter\<rparr>"

definition right_aligned :: "tui_line \<Rightarrow> tui_line" where
  "right_aligned l = l\<lparr>tl_alignment := AlignRight\<rparr>"

definition text_line :: "string \<Rightarrow> tui_line" where
  "text_line s = line_of [raw s]"

definition line_text :: "tui_line \<Rightarrow> string" where
  "line_text l = concat (map fst (tl_spans l))"

text \<open>\<open>Constraint\<close> of a pane or column.\<close>

datatype length_constraint = CMin nat | CLength nat

text \<open>\<open>join\<close> on a slice of strings, \<open>str::lines\<close>.\<close>

fun join :: "string \<Rightarrow> string list \<Rightarrow> string" where
  "join sep [] = []"
| "join sep [s] = s"
| "join sep (s # t # ss) = s @ sep @ join sep (t # ss)"

definition cut_return :: "string \<Rightarrow> string" where
  "cut_return l = (if ends_with l (char_of (13 :: nat)) then butlast l else l)"

function str_lines :: "string \<Rightarrow> string list" where
  "str_lines s =
     (if s = [] then []
      else let l = takeWhile (\<lambda>c. c \<noteq> char_of (10 :: nat)) s; r = drop (length l) s
           in if r = [] then [l] else cut_return l # str_lines (tl r))"
  by pat_completeness auto
termination
  by (relation "measure length") (auto simp: Let_def)

declare str_lines.simps [simp del]

end
