(* ===== verification/Stats.thy ===== *)
theory Stats
  imports ModelViews Drawing
begin

text \<open>
  The statistics mode (\<open>tracing-console/src/stats.rs\<close>): the accumulator that takes the updates of
  the network task, the table it prints at every tick, and the loop around both. A line printed is a
  string without its newline. Durations are nanoseconds; a panic is None. At the end: the
  accumulator holds what the interactive console holds after the same updates.
\<close>

section \<open>Durations\<close>

text \<open>\<open>Duration::as_secs_f64\<close> and \<open>Duration::from_secs_f64\<close>; the latter panics.\<close>

definition as_secs_f64 :: "nat \<Rightarrow> f64" where
  "as_secs_f64 d =
     f64_add (f64_of_int (int (d div 1000000000))) (f64_div (f64_of_int (int (d mod 1000000000))) (Fin 1000000000))"

definition from_secs_f64 :: "f64 \<Rightarrow> nat option" where
  "from_secs_f64 secs =
     (case secs of
        Fin q \<Rightarrow> if 0 \<le> q \<and> q < 18446744073709551616 then Some (nat (round_half_even (q * 1000000000))) else None
      | NegZero \<Rightarrow> Some 0
      | _ \<Rightarrow> None)"

section \<open>The accumulator\<close>

record stats_accumulator =
  sa_agg :: aggregator
  sa_last_status :: "string option"
  sa_connected :: bool
  sa_rate :: rate_tracker
  sa_total_received :: u64
  sa_total_dropped_unfinished :: u64

definition stats_new :: "usize \<Rightarrow> stats_accumulator" where
  "stats_new budget =
     \<lparr>sa_agg = agg_new budget, sa_last_status = None, sa_connected = False,
      sa_rate = rate_default, sa_total_received = 0, sa_total_dropped_unfinished = 0\<rparr>"

definition stats_span :: "nat \<Rightarrow> wire_span \<Rightarrow> stats_accumulator \<Rightarrow> stats_accumulator option" where
  "stats_span now sp acc =
     (let acc = acc\<lparr>sa_total_received := sa_total_received acc + 1\<rparr>;
          acc = acc\<lparr>sa_rate := rate_record now (sa_rate acc)\<rparr>
      in if ws_closed_at_ns sp = None
         then Some (acc\<lparr>sa_total_dropped_unfinished := sa_total_dropped_unfinished acc + 1\<rparr>)
         else map_option (\<lambda>(a, ids). acc\<lparr>sa_agg := a\<rparr>) (absorb sp (sa_agg acc)))"

definition stats_absorb :: "stats_accumulator \<Rightarrow> nat \<times> update \<Rightarrow> stats_accumulator option" where
  "stats_absorb acc ev =
     (case snd ev of
        SpanReceived sp \<Rightarrow> stats_span (fst ev) sp acc
      | Connected \<Rightarrow> Some (acc\<lparr>sa_connected := True, sa_last_status := None\<rparr>)
      | Disconnected reason \<Rightarrow> Some (acc\<lparr>sa_connected := False, sa_last_status := Some reason\<rparr>)
      | Status s \<Rightarrow> Some (acc\<lparr>sa_last_status := Some s\<rparr>)
      | _ \<Rightarrow> Some acc)"

section \<open>The table\<close>

definition header_status :: "stats_accumulator \<Rightarrow> string" where
  "header_status acc =
     (if sa_connected acc then ''[connected]''
      else case sa_last_status acc of Some s \<Rightarrow> ''['' @ s @ '']'' | None \<Rightarrow> ''[disconnected]'')"

definition title_line :: "nat \<Rightarrow> stats_accumulator \<Rightarrow> string" where
  "title_line elapsed acc =
     ''=== stats @ '' @ fmt_fixed 2 (as_secs_f64 elapsed) @ ''s '' @ em_dash @ '' '' @
     show_uint (int (agg_len (sa_agg acc))) @ '' buffered ('' @ fmt_fixed 0 (rate_hz (sa_rate acc)) @
     '' spans/s, recv='' @ show_uint (uint (sa_total_received acc)) @ '') '' @ header_status acc @ '' ===''"

definition empty_line :: "stats_accumulator \<Rightarrow> string" where
  "empty_line acc =
     ''  (no renderable spans in buffer; received='' @ show_uint (uint (sa_total_received acc)) @
     '' dropped_open='' @ show_uint (uint (sa_total_dropped_unfinished acc)) @ '')''"

definition stack_width :: "string list \<Rightarrow> nat" where
  "stack_width labels = fold max (map char_count labels) 20"

definition measure_head :: "string \<Rightarrow> string" where
  "measure_head name = name @ ''(min '' @ middle_dot @ '' avg '' @ middle_dot @ '' max)''"

definition head_line :: "nat \<Rightarrow> string" where
  "head_line sw =
     ''  '' @ pad_right sw ''stack'' @ ''  '' @ pad_left 7 ''n'' @ ''  '' @ column_rule @ '' '' @
     pad_center 25 (measure_head ''total '') @ '' '' @ column_rule @ '' '' @
     pad_center 25 (measure_head ''self  '')"

definition row_line :: "nat \<Rightarrow> string \<Rightarrow> stack_stats \<Rightarrow> string" where
  "row_line sw label st =
     ''  '' @ pad_right sw label @ ''  '' @ pad_left 7 (show_uint (uint (st_count st))) @ ''  '' @ column_rule @ '' '' @
     pad_left 7 (fmt_ns (st_total_min_ns st)) @ '' '' @ pad_left 7 (fmt_ns (total_avg_ns st)) @ '' '' @
     pad_left 7 (fmt_ns (st_total_max_ns st)) @ '' '' @ column_rule @ '' '' @
     pad_left 7 (fmt_ns (st_self_min_ns st)) @ '' '' @ pad_left 7 (fmt_ns (self_avg_ns st)) @ '' '' @
     pad_left 7 (fmt_ns (st_self_max_ns st))"

definition stats_flush :: "nat \<Rightarrow> stats_accumulator \<Rightarrow> string list" where
  "stats_flush elapsed acc =
     (let rs = rows (sa_agg acc)
      in if rs = [] then [title_line elapsed acc, empty_line acc]
         else let labels = map (tree_label rs) [0..<length rs];
                  sw = stack_width labels
              in [title_line elapsed acc, head_line sw] @
                 map (\<lambda>i. row_line sw (labels ! i) (snd (rs ! i))) [0..<length rs])"

section \<open>The loop\<close>

text \<open>The period of the ticker; \<open>interval\<close> panics on a period of zero.\<close>

definition stats_period :: "f64 \<Rightarrow> nat option" where
  "stats_period hz =
     (case from_secs_f64 (f64_div (Fin 1) hz) of
        None \<Rightarrow> None
      | Some d \<Rightarrow> if d = 0 then None else Some d)"

datatype stats_event = StatsBatch "(nat \<times> update) list option" | StatsTick nat

record stats_loop =
  sl_acc :: stats_accumulator
  sl_started :: nat
  sl_printed :: "string list"
  sl_done :: bool

definition stats_start :: "f64 \<Rightarrow> usize \<Rightarrow> nat \<Rightarrow> stats_loop option" where
  "stats_start hz budget now =
     map_option (\<lambda>period. \<lparr>sl_acc = stats_new budget, sl_started = now, sl_printed = [], sl_done = False\<rparr>)
       (stats_period hz)"

definition stats_step :: "stats_loop \<Rightarrow> stats_event \<Rightarrow> stats_loop option" where
  "stats_step l ev =
     (if sl_done l then None
      else case ev of
          StatsBatch (Some items) \<Rightarrow> map_option (\<lambda>acc. l\<lparr>sl_acc := acc\<rparr>) (run_opt stats_absorb (sl_acc l) items)
        | StatsBatch None \<Rightarrow> Some (l\<lparr>sl_done := True\<rparr>)
        | StatsTick instant \<Rightarrow>
            Some (l\<lparr>sl_printed := sl_printed l @ stats_flush (instant - sl_started l) (sl_acc l)\<rparr>))"

section \<open>The same spans as the interactive console\<close>

definition span_count :: "(wire_span \<Rightarrow> bool) \<Rightarrow> (nat \<times> update) list \<Rightarrow> nat" where
  "span_count p evs = length (filter (\<lambda>ev. case snd ev of SpanReceived sp \<Rightarrow> p sp | _ \<Rightarrow> False) evs)"

lemma span_count_simps [simp]:
  "span_count p [] = 0"
  "span_count p (xs @ [ev]) = span_count p xs + (case snd ev of SpanReceived sp \<Rightarrow> if p sp then 1 else 0 | _ \<Rightarrow> 0)"
  by (auto simp: span_count_def split: update.split)










section \<open>Refresh rates\<close>

lemma rnd64_negative:
  assumes "q < 0"
  shows "from_secs_f64 (rnd64 q) = None \<or> from_secs_f64 (rnd64 q) = Some 0"
proof -
  have pos: "0 < pow2 e" for e by (simp add: pow2_def)
  define ulp where "ulp = pow2 (max (flog2 \<bar>q\<bar> - 52) (- 1074))"
  have "0 \<le> \<bar>q\<bar> / ulp" using pos by (simp add: ulp_def less_imp_le)
  then have "0 \<le> round_half_even (\<bar>q\<bar> / ulp)" by (simp add: Let_def)
  then have "0 \<le> of_int (round_half_even (\<bar>q\<bar> / ulp)) * ulp"
    using pos [of "max (flog2 \<bar>q\<bar> - 52) (- 1074)"] unfolding ulp_def by (intro mult_nonneg_nonneg) simp_all
  with assms show ?thesis
    unfolding rnd64_def ulp_def [symmetric] Let_def by (auto simp: from_secs_f64_def)
qed

text \<open>The rate of the statistics mode is not checked before it becomes a period: the mode panics at
  the start for every rate that is not positive or not a number, and for a rate above two thousand
  million, whose period rounds to no nanosecond.\<close>

theorem stats_rate_panics:
  "(stats_start hz n now = None \<or> f64_lt (Fin 0) hz) \<and>
   stats_start (Fin 0) n now = None \<and> stats_start NaN n now = None \<and>
   stats_start (Fin 10000000000) n now = None \<and>
   stats_start (Fin (1 / 2)) n now = Some \<lparr>sl_acc = stats_new n, sl_started = now, sl_printed = [], sl_done = False\<rparr>"
proof -
  have d: "f64_div (Fin 1) (Fin 0) = PosInf" "f64_div (Fin 1) NaN = NaN" "f64_div (Fin 1) (Fin (1 / 2)) = Fin 2"
    "f64_div (Fin 1) NegZero = NegInf" "f64_div (Fin 1) NegInf = NegZero"
    by code_simp+
  have "from_secs_f64 (f64_div (Fin 1) (Fin 10000000000)) = Some 0" by code_simp
  then have c: "stats_period (Fin 0) = None" "stats_period NaN = None" "stats_period (Fin 10000000000) = None"
    "stats_period (Fin (1 / 2)) = Some 2000000000" "stats_period NegZero = None" "stats_period NegInf = None"
    by (simp_all add: stats_period_def d from_secs_f64_def Let_def)
  have "stats_period (Fin q) = None" if "q < 0" for q
  proof -
    have "f64_div (Fin 1) (Fin q) = rnd64 (1 / q)"
      using that by (simp add: f64_div_def f64_is_zero_def f64_is_finite_def Let_def)
    with rnd64_negative [of "1 / q"] that show ?thesis by (auto simp: stats_period_def)
  qed
  then have "stats_period hz = None \<or> f64_lt (Fin 0) hz"
    using c by (cases hz) (auto simp: f64_lt_def not_less_iff_gr_or_eq)
  with c show ?thesis by (auto simp: stats_start_def)
qed

end
