(* ===== verification/Startup.thy ===== *)
theory Startup
  imports Console Stats
begin

text \<open>
  The entry point of the console (\<open>tracing-console/src/main.rs\<close>, \<open>run\<close> of \<open>runtime.rs\<close>): the update
  switch, the requests queued from the command line and the mode that takes over. What the
  installer's process and the started tasks do is in the theories of those parts.
\<close>

section \<open>Start\<close>

datatype mode_loop =
    StatesLoop model
  | StatsLoop "stats_loop option"
  | TuiLoop bool tui

record started =
  sr_buffer :: u64
  sr_network :: net
  sr_queued :: "outgoing list"
  sr_mode :: mode_loop

definition run_mode :: "args \<Rightarrow> nat \<Rightarrow> mode_loop" where
  "run_mode a now =
     (case ar_mode a of
        ModeStates \<Rightarrow> StatesLoop (model_new (ar_history a))
      | ModeStats \<Rightarrow> StatsLoop (stats_start (ar_stats_hz a) (ar_history a) now)
      | ModeTui \<Rightarrow> TuiLoop (\<not> ar_no_color a) (tui_new (ar_history a)))"

definition console_run :: "args \<Rightarrow> nat \<Rightarrow> started" where
  "console_run a now =
     \<lparr>sr_buffer = of_nat (ar_stream_buffer a), sr_network = net_new, sr_queued = initial_outgoing a,
      sr_mode = run_mode a now\<rparr>"

text \<open>\<open>main\<close>: with \<open>--update\<close> only the installer, otherwise the console; and the exit code of an update,
  from the code of the installer's process, which a signal leaves without one.\<close>

definition console_main :: "args \<Rightarrow> nat \<Rightarrow> (launch_error + string list) + started" where
  "console_main a now = (if ar_update a then Inl (installer_launch None) else Inr (console_run a now))"

definition update_exit_code :: "int option \<Rightarrow> int" where
  "update_exit_code code = (case code of Some c \<Rightarrow> c | None \<Rightarrow> 1)"

section \<open>The command line configures the host\<close>

text \<open>The network task takes a queued request and the transport hands it to connection \<open>i\<close> of the host.\<close>

definition hand_over :: "host_env \<Rightarrow> string \<Rightarrow> nat \<Rightarrow> net \<times> server \<Rightarrow> outgoing \<Rightarrow> (net \<times> server) option" where
  "hand_over env addr i ns out =
     (case net_step (he_cc env) addr (fst ns) (NetOutgoing (Some out) True SendOk) of
        None \<Rightarrow> None
      | Some n \<Rightarrow> map_option (Pair n) (server_step env (snd ns) (Rpc i (last (nt_requests n)))))"

lemma hand_over_level:
  assumes "nt_phase n = NetStreaming" "has_conn s i"
  shows "\<exists>n' s'. hand_over env addr i (n, s) (OutSetCacheLevel f) = Some (n', s') \<and>
    nt_phase n' = NetStreaming \<and> has_conn s' i \<and>
    level_handle_get (cb_level_handle (sv_bus s')) = wlf_to_tracing f \<and>
    cb_chance_handle (sv_bus s') = cb_chance_handle (sv_bus s)"
  using assms
  by (simp add: hand_over_def net_outgoing_def take_id_def outgoing_body_def has_conn_def new_rpc_def request_new_def
      set_level_def level_send_def level_store_def level_handle_get_def level_handle_set_def immediate_def
      response_defs Let_def)

lemma hand_over_chance:
  assumes "nt_phase n = NetStreaming" "has_conn s i"
  shows "\<exists>n' s'. hand_over env addr i (n, s) (OutSetCacheChance pct) = Some (n', s') \<and>
    nt_phase n' = NetStreaming \<and> has_conn s' i \<and>
    level_handle_get (cb_level_handle (sv_bus s')) = level_handle_get (cb_level_handle (sv_bus s)) \<and>
    chance_handle_get (cb_chance_handle (sv_bus s')) = clamp_pct pct"
  using assms
  by (simp add: hand_over_def net_outgoing_def take_id_def outgoing_body_def has_conn_def new_rpc_def request_new_def
      set_chance_def clamp_pct_code chance_send_def chance_store_def chance_handle_get_def chance_handle_set_def
      immediate_def response_defs Let_def)

text \<open>The level and the chance of the command line are in force on the host once the requests queued
  at the start have been sent, whatever was in force before; the chance cut to a percentage. What is
  not given is left as it is.\<close>

theorem command_line_configures_host:
  assumes "nt_phase n = NetStreaming" "has_conn s i"
  shows "\<exists>n' s'. run_opt (hand_over env addr i) (n, s) (sr_queued (console_run a now)) = Some (n', s') \<and>
    level_handle_get (cb_level_handle (sv_bus s')) =
      (case ar_set_level a of
         Some l \<Rightarrow> wlf_to_tracing (level_arg_to_wire l) | None \<Rightarrow> level_handle_get (cb_level_handle (sv_bus s))) \<and>
    chance_handle_get (cb_chance_handle (sv_bus s')) =
      (case ar_set_chance a of
         Some pct \<Rightarrow> clamp_pct pct | None \<Rightarrow> chance_handle_get (cb_chance_handle (sv_bus s)))"
proof -
  have chance: "\<exists>n' s'. run_opt (hand_over env addr i) (n, s)
        (case ar_set_chance a of Some pct \<Rightarrow> [OutSetCacheChance pct] | None \<Rightarrow> []) = Some (n', s') \<and>
      level_handle_get (cb_level_handle (sv_bus s')) = level_handle_get (cb_level_handle (sv_bus s)) \<and>
      chance_handle_get (cb_chance_handle (sv_bus s')) =
        (case ar_set_chance a of
           Some pct \<Rightarrow> clamp_pct pct | None \<Rightarrow> chance_handle_get (cb_chance_handle (sv_bus s)))"
    if "nt_phase n = NetStreaming" "has_conn s i" for n s
  proof (cases "ar_set_chance a")
    case (Some pct)
    with hand_over_chance [OF that, of env addr pct] show ?thesis by force
  qed simp
  show ?thesis
  proof (cases "ar_set_level a")
    case None
    then show ?thesis using chance [OF assms] by (simp add: console_run_def initial_outgoing_def)
  next
    case (Some l)
    obtain n1 s1 where one: "hand_over env addr i (n, s) (OutSetCacheLevel (level_arg_to_wire l)) = Some (n1, s1)"
        "nt_phase n1 = NetStreaming" "has_conn s1 i"
        "level_handle_get (cb_level_handle (sv_bus s1)) = wlf_to_tracing (level_arg_to_wire l)"
        "cb_chance_handle (sv_bus s1) = cb_chance_handle (sv_bus s)"
      using hand_over_level [OF assms, of env addr "level_arg_to_wire l"] by blast
    with chance [OF one(2,3), unfolded one(5)] Some show ?thesis by (simp add: console_run_def initial_outgoing_def)
  qed
qed

lemma command_line_configures_host_witness:
  "\<exists>n s. run_opt (hand_over example_env ''h:1'' 0)
      (net_new\<lparr>nt_phase := NetStreaming\<rparr>, (serve 0 (Fin 100) example_base)\<lparr>sv_conns := [connection_new example_base]\<rparr>)
      (sr_queued (console_run (args_default\<lparr>ar_set_level := Some ArgTrace, ar_set_chance := Some (Fin 50)\<rparr>) 0)) = Some (n, s) \<and>
    level_handle_get (cb_level_handle (sv_bus s)) = AtMost TRACE \<and>
    chance_handle_get (cb_chance_handle (sv_bus s)) = Fin 50"
proof -
  let ?n = "net_new\<lparr>nt_phase := NetStreaming\<rparr>"
  let ?s = "(serve 0 (Fin 100) example_base)\<lparr>sv_conns := [connection_new example_base]\<rparr>"
  have "nt_phase ?n = NetStreaming" "has_conn ?s 0" by (simp_all add: has_conn_def connection_new_def)
  from command_line_configures_host [OF this, of example_env "''h:1''"
      "args_default\<lparr>ar_set_level := Some ArgTrace, ar_set_chance := Some (Fin 50)\<rparr>" 0]
  obtain n s where "run_opt (hand_over example_env ''h:1'' 0) (?n, ?s)
      (sr_queued (console_run (args_default\<lparr>ar_set_level := Some ArgTrace, ar_set_chance := Some (Fin 50)\<rparr>) 0)) = Some (n, s)"
      "level_handle_get (cb_level_handle (sv_bus s)) = AtMost TRACE"
      "chance_handle_get (cb_chance_handle (sv_bus s)) = clamp_pct (Fin 50)"
    by auto
  moreover have "clamp_pct (Fin 50) = Fin 50" by code_simp
  ultimately show ?thesis by auto
qed

end
