(* ===== verification/Header.thy ===== *)
theory Header
  imports Model Drawing
begin

text \<open>
  The header of every view and the overlays on top of it (\<open>tracing-console/src/view/header.rs\<close>,
  \<open>mod.rs\<close>): the connection line with its level and chance switchers, the hints, the help of an open
  input box, and the two dialogs with their places on the screen. A widget is the lines it is made of.
\<close>

section \<open>Numbers\<close>

definition trim_end_matches :: "char \<Rightarrow> string \<Rightarrow> string" where
  "trim_end_matches c s = rev (dropWhile (\<lambda>d. d = c) (rev s))"

definition format_chance :: "f64 \<Rightarrow> string" where
  "format_chance pct =
     (if \<not> f64_is_finite pct \<or> f64_le pct (Fin 0) then ''0%''
      else if f64_le (Fin 100) pct then ''100%''
      else let trimmed = trim_end_matches (CHR ''.'') (trim_end_matches (CHR ''0'') (fmt_fixed 3 pct))
           in if f64_lt pct (Fin 1) \<and> take 2 trimmed = ''0.''
              then ''.'' @ drop 2 trimmed @ ''%'' else trimmed @ ''%'')"

definition format_span_rate :: "model \<Rightarrow> string" where
  "format_span_rate m =
     (let hz = rate_hz (m_rate m)
      in if f64_le (Fin 1000000) hz then fmt_fixed 1 (f64_div hz (Fin 1000000)) @ ''MHz''
         else if f64_le (Fin 1000) hz then fmt_fixed 1 (f64_div hz (Fin 1000)) @ ''kHz''
         else if f64_le (Fin 10) hz then fmt_fixed 0 hz @ ''Hz''
         else fmt_fixed 1 hz @ ''Hz'')"

section \<open>The connection line\<close>

definition header_separator :: tui_span where
  "header_separator = ('' '' @ column_rule @ '' '', add_modifiers {Dim} style_default)"

definition status_dot_text :: string where "status_dot_text = map char_of [226 :: nat, 151, 143]"

definition connection_status_dot :: "model \<Rightarrow> tui_span" where
  "connection_status_dot m =
     (case m_connection m of
        IsConnected \<Rightarrow> (status_dot_text, add_modifiers {Bold} (fg ColGreen style_default))
      | IsDisconnected _ \<Rightarrow> (status_dot_text, add_modifiers {Bold} (fg ColRed style_default))
      | Connecting \<Rightarrow> (status_dot_text, add_modifiers {Dim} style_default))"

fun level_label :: "wire_level_filter \<Rightarrow> string" where
  "level_label LfOff = ''Off''"
| "level_label LfError = ''Error''"
| "level_label LfWarn = ''Warn''"
| "level_label LfInfo = ''Info''"
| "level_label LfDebug = ''Debug''"
| "level_label LfTrace = ''Trace''"

definition level_option_spans :: "model \<Rightarrow> nat \<Rightarrow> wire_level_filter \<Rightarrow> tui_span list" where
  "level_option_spans m idx level =
     (let label = level_label level;
          confirmed = (m_cache_level m = Some level);
          base = (if confirmed then add_modifiers {Reversed, Bold} style_default else add_modifiers {Dim} style_default)
      in (if idx > 0 then [raw '' ''] else []) @
         [(take 1 label, add_modifiers {Underlined} base), (drop 1 label, base)])"

definition level_switcher_spans :: "model \<Rightarrow> tui_span list" where
  "level_switcher_spans m =
     concat (map (\<lambda>(idx, level). level_option_spans m idx level) (enumerate 0 LEVEL_OPTIONS))"

definition chance_switcher_spans :: "model \<Rightarrow> tui_span list" where
  "chance_switcher_spans m =
     (let editing = (m_chance_input m \<noteq> None);
          label_base = (if editing then add_modifiers {Reversed, Bold} style_default else style_default)
      in [(''C'', add_modifiers {Underlined} label_base), (''hance '', label_base)] @
         (case m_chance_input m of
            Some buf \<Rightarrow> [(if buf = [] then ''_'' else buf @ ''_'', add_modifiers {Reversed, Bold} style_default)]
          | None \<Rightarrow> [raw (case m_cache_chance m of Some pct \<Rightarrow> format_chance pct | None \<Rightarrow> em_dash)]))"

definition version_spans :: "model \<Rightarrow> tui_span list" where
  "version_spans m =
     (case m_server_version m of
        Some server_version \<Rightarrow>
          header_separator #
          (if server_version = CLIENT_VERSION then [(''v'' @ server_version, add_modifiers {Dim} style_default)]
           else let yellow = fg ColYellow style_default
                in [(''server '', yellow), (''v'', add_modifiers {Underlined} yellow),
                    (server_version @ '' client v'' @ CLIENT_VERSION, yellow)])
      | None \<Rightarrow> [header_separator, (''v'' @ CLIENT_VERSION, add_modifiers {Dim} style_default)])"

definition connection_header_line :: "model \<Rightarrow> tui_line" where
  "connection_header_line m =
     line_of ([connection_status_dot m, raw '' ''] @
       (case m_connection m of
          Connecting \<Rightarrow>
            [raw ''connecting '',
             (case m_status m of Some s \<Rightarrow> s | None \<Rightarrow> [], add_modifiers {Dim} style_default)]
        | IsConnected \<Rightarrow>
            level_switcher_spans m @ [header_separator] @ chance_switcher_spans m @ [header_separator] @
            [raw (show_uint (int (agg_len (m_agg m))) @ '' spans / '' @ format_span_rate m)] @ version_spans m
        | IsDisconnected reason \<Rightarrow>
            (''disconnected'', add_modifiers {Bold} (fg ColRed style_default)) #
            (if reason \<noteq> [] then [raw ('' '' @ reason)] else [])))"

section \<open>Hints\<close>

definition focused_border_style :: "bool \<Rightarrow> style" where
  "focused_border_style is_focused =
     (if is_focused then add_modifiers {Bold} (fg ColYellow style_default)
      else add_modifiers {Dim} style_default)"

definition shortcut :: "string \<Rightarrow> tui_span" where
  "shortcut c = (c, add_modifiers {Underlined} style_default)"

definition input_help :: "model \<Rightarrow> string option" where
  "input_help m =
     (if m_chance_input m \<noteq> None then Some ''digits and .''
      else case m_view m of
          GraphView gs \<Rightarrow>
            if g_agg_input gs \<noteq> None then Some (''a, avg, min, max, p0'' @ map char_of [226 :: nat, 128, 147] @ ''p100'')
            else if g_window_input gs \<noteq> None then Some ''positive seconds''
            else if g_lookback_input gs \<noteq> None then Some ''Ns or Nm''
            else None
        | ExploreView es \<Rightarrow> if es_search_input es \<noteq> None then Some ''search: name / field / event'' else None
        | _ \<Rightarrow> None)"

definition modal_status_bar :: "model \<Rightarrow> tui_line option" where
  "modal_status_bar m =
     map_option (\<lambda>accept. line_of
         [(''  input: '', add_modifiers {Dim} style_default), raw accept, header_separator,
          shortcut ''Enter'', raw '' commit'', header_separator, shortcut ''Esc'', raw '' cancel''])
       (input_help m)"

definition GRAPH_HINT_WIDTH :: nat where "GRAPH_HINT_WIDTH = 32"

definition hint_entries :: "(string \<times> string) list" where
  "hint_entries = [(''s'', ''stack''), (''g'', ''graph''), (''e'', ''explore'')]"

definition current_view_name :: "model \<Rightarrow> string option" where
  "current_view_name m =
     (case m_view m of
        TableView \<Rightarrow> Some ''stack''
      | GraphView _ \<Rightarrow> Some ''graph''
      | ExploreView _ \<Rightarrow> Some ''explore''
      | TraceView _ \<Rightarrow> None)"

fun hint_spans :: "bool \<Rightarrow> string option \<Rightarrow> (string \<times> string) list \<Rightarrow> tui_span list" where
  "hint_spans first current [] = []"
| "hint_spans first current ((letter, word) # es) =
     (if Some word = current then hint_spans first current es
      else (if first then [] else [header_separator]) @
        [(letter, add_modifiers {Underlined} style_default), raw ('' '' @ word)] @ hint_spans False current es)"

definition graph_toggle_hint :: "model \<Rightarrow> tui_line" where
  "graph_toggle_hint m = line_of ([raw '' ''] @ hint_spans True (current_view_name m) hint_entries @ [raw '' ''])"

section \<open>Dialogs\<close>

type_synonym u16 = "16 word"

record rect =
  rc_x :: u16
  rc_y :: u16
  rc_width :: u16
  rc_height :: u16

definition sat_sub16 :: "u16 \<Rightarrow> u16 \<Rightarrow> u16" where
  "sat_sub16 a b = (if a \<le> b then 0 else a - b)"

definition sat_add16 :: "u16 \<Rightarrow> u16 \<Rightarrow> u16" where
  "sat_add16 a b = (if unat a + unat b < 2 ^ 16 then a + b else - 1)"

definition centered_rect :: "rect \<Rightarrow> u16 \<Rightarrow> u16 \<Rightarrow> rect" where
  "centered_rect area w h =
     \<lparr>rc_x = rc_x area + sat_sub16 (rc_width area) w div 2,
      rc_y = rc_y area + sat_sub16 (rc_height area) h div 2,
      rc_width = w, rc_height = h\<rparr>"

record dialog =
  dg_area :: rect
  dg_title :: string
  dg_border :: style
  dg_lines :: "tui_line list"

definition quit_message :: string where "quit_message = ''press q again to quit''"

definition quit_confirm_dialog :: "rect \<Rightarrow> dialog" where
  "quit_confirm_dialog area =
     (let w = min (rc_width area) (sat_add16 (of_nat (char_count quit_message)) 8);
          h = min (rc_height area) 3
      in \<lparr>dg_area = centered_rect area w h, dg_title = [],
          dg_border = add_modifiers {Bold} style_default, dg_lines = [centered (text_line quit_message)]\<rparr>)"

definition blank :: tui_line where "blank = text_line []"

definition confirm_title :: "confirm_status \<Rightarrow> string" where
  "confirm_title st =
     (case st of
        Confirming \<Rightarrow> '' switch versions? ''
      | Running \<Rightarrow> '' installing'' @ ellipsis @ '' ''
      | Failed _ \<Rightarrow> '' installer failed ''
      | Restart \<Rightarrow> '' restart? '')"

definition yes_no_line :: tui_line where
  "yes_no_line = centered (line_of [shortcut ''y'', raw '' yes  '', shortcut ''n'', raw '' no''])"

definition confirm_lines :: "confirm_version_switch \<Rightarrow> tui_line list" where
  "confirm_lines c =
     (let server_version = cv_server_version c; yellow = fg ColYellow style_default
      in case cv_status c of
           Confirming \<Rightarrow>
             [blank,
              centered (line_of [raw ''Server is at '', (''v'' @ server_version, yellow), raw '', client is at '',
                (''v'' @ CLIENT_VERSION, yellow), raw ''.'']),
              blank,
              centered (line_of [raw ''Switch this binary to '', (''v'' @ server_version, yellow),
                raw '' via the public installer?'']),
              blank,
              yes_no_line]
         | Running \<Rightarrow>
             [blank,
              centered (line_of [raw ''Running the installer for '', (''v'' @ server_version, yellow), raw ellipsis]),
              blank,
              centered (line_of [(''this may take a few seconds'', add_modifiers {Dim} style_default)])]
         | Failed out \<Rightarrow>
             [line_of [raw ''Tried to install '', (''v'' @ server_version, yellow),
                raw '', but the installer reported:''],
              blank] @ map text_line (str_lines out)
         | Restart \<Rightarrow>
             [blank,
              centered (line_of [raw ''Installed '', (''v'' @ server_version, yellow), raw ''.'']),
              blank,
              centered (text_line ''Restart this process to use the new binary?''),
              blank,
              yes_no_line])"

definition confirm_dialog :: "rect \<Rightarrow> confirm_version_switch \<Rightarrow> dialog" where
  "confirm_dialog area c =
     (let (target_w, target_h) = (case cv_status c of Failed _ \<Rightarrow> (90, 20) | _ \<Rightarrow> (60, 9));
          w = min (rc_width area) target_w;
          h = min (rc_height area) target_h
      in \<lparr>dg_area = centered_rect area w h, dg_title = confirm_title (cv_status c),
          dg_border = fg ColYellow style_default, dg_lines = confirm_lines c\<rparr>)"

definition overlays :: "rect \<Rightarrow> model \<Rightarrow> dialog list" where
  "overlays area m =
     (case m_confirm m of Some c \<Rightarrow> [confirm_dialog area c] | None \<Rightarrow> []) @
     (if m_quit_deadline m \<noteq> None then [quit_confirm_dialog area] else [])"

end
