(* ===== verification/TableView.thy ===== *)
theory TableView
  imports Header
begin

text \<open>
  The table view (\<open>tracing-console/src/view/table.rs\<close>): the rows with their labels, measures and heat
  colours, and the details pane with the distribution of fields and events over the spans of the
  selected stack. Where a pane is drawn is up to ratatui; its constraints are data here.
\<close>

fun level_str :: "wire_level \<Rightarrow> string" where
  "level_str WTrace = ''T''"
| "level_str WDebug = ''D''"
| "level_str WInfo = ''I''"
| "level_str WWarn = ''W''"
| "level_str WError = ''E''"

section \<open>Heat\<close>

definition SOL_CYAN :: color where "SOL_CYAN = ColRgb 0x2a 0xa1 0x98"
definition SOL_GREEN :: color where "SOL_GREEN = ColRgb 0x85 0x99 0x00"
definition SOL_YELLOW :: color where "SOL_YELLOW = ColRgb 0xb5 0x89 0x00"
definition SOL_ORANGE :: color where "SOL_ORANGE = ColRgb 0xcb 0x4b 0x16"
definition SOL_RED :: color where "SOL_RED = ColRgb 0xdc 0x32 0x2f"

definition heat :: "f64 \<Rightarrow> color option" where
  "heat intensity =
     (if f64_lt intensity (rnd64 (40 / 100)) then None
      else if f64_lt intensity (rnd64 (60 / 100)) then Some SOL_CYAN
      else if f64_lt intensity (rnd64 (78 / 100)) then Some SOL_GREEN
      else if f64_lt intensity (rnd64 (90 / 100)) then Some SOL_YELLOW
      else if f64_lt intensity (rnd64 (99 / 100)) then Some SOL_ORANGE
      else Some SOL_RED)"

text \<open>\<open>anc\<close> is the stack of ancestors in scope, its last element first.\<close>

fun pop_scope :: "usize \<Rightarrow> (usize \<times> usize) list \<Rightarrow> (usize \<times> usize) list" where
  "pop_scope depth [] = []"
| "pop_scope depth ((d, idx) # anc) = (if d \<ge> depth then pop_scope depth anc else (d, idx) # anc)"

fun parents_from :: "usize \<Rightarrow> (usize \<times> usize) list \<Rightarrow> usize list \<Rightarrow> usize option list" where
  "parents_from i anc [] = []"
| "parents_from i anc (depth # ds) =
     (let anc = pop_scope depth anc
      in (case anc of [] \<Rightarrow> None | (d, idx) # r \<Rightarrow> Some idx) # parents_from (i + 1) ((depth, i) # anc) ds)"

definition parent_indices :: "visible_row list \<Rightarrow> usize option list" where
  "parent_indices rs = parents_from 0 [] (map vr_depth rs)"

definition measures :: "visible_row \<Rightarrow> u64 list" where
  "measures r =
     (let st = vr_stats r
      in [st_count st, st_total_min_ns st, total_avg_ns st, st_total_max_ns st,
          st_self_min_ns st, self_avg_ns st, st_self_max_ns st])"

definition column_max :: "visible_row list \<Rightarrow> nat \<Rightarrow> u64" where
  "column_max rs c = fold max (map (\<lambda>r. measures r ! c) rs) 0"

definition self_intensity :: "u64 \<Rightarrow> u64 \<Rightarrow> f64" where
  "self_intensity mx v = (if mx = 0 then Fin 0 else f64_div (f64_of_u64 v) (f64_of_u64 mx))"

text \<open>The rows one after another: a parent stands before its row.\<close>

fun effective_from :: "u64 list \<Rightarrow> f64 list list \<Rightarrow> (u64 list \<times> usize option) list \<Rightarrow> f64 list list" where
  "effective_from mx eff [] = eff"
| "effective_from mx eff ((vals, parent) # rest) =
     (let row = map (\<lambda>c. let self_int = self_intensity (mx ! c) (vals ! c)
                          in case parent of Some p \<Rightarrow> f64_min self_int (eff ! p ! c) | None \<Rightarrow> self_int) [0..<7]
      in effective_from mx (eff @ [row]) rest)"

definition effective :: "visible_row list \<Rightarrow> f64 list list" where
  "effective rs =
     effective_from (map (column_max rs) [0..<7]) [] (zip (map measures rs) (parent_indices rs))"

definition build_color_map :: "visible_row list \<Rightarrow> color option list list" where
  "build_color_map rs = (if rs = [] then [] else map (map heat) (effective rs))"

section \<open>Rows\<close>

definition down_marker :: string where "down_marker = map char_of [226 :: nat, 150, 188, 32]"
definition right_marker :: string where "right_marker = map char_of [226 :: nat, 150, 182, 32]"
definition focus_marker :: string where "focus_marker = map char_of [32 :: nat, 226, 151, 134]"

definition marker :: "visible_row \<Rightarrow> string" where
  "marker r = (if vr_has_children r then (if vr_is_expanded r then down_marker else right_marker) else ''  '')"

definition introduces_splits :: "visible_row list \<Rightarrow> nat \<Rightarrow> bool" where
  "introduces_splits rs i \<longleftrightarrow> bk_splits (vr_key (rs ! i)) \<noteq> [] \<and>
     (i = 0 \<or> bk_splits (vr_key (rs ! (i - 1))) \<noteq> bk_splits (vr_key (rs ! i)))"

definition splits_suffix :: "visible_row list \<Rightarrow> nat \<Rightarrow> string" where
  "splits_suffix rs i =
     (if introduces_splits rs i
      then ''  ['' @ join '', '' (map (\<lambda>(k, v). k @ ''='' @ v) (bk_splits (vr_key (rs ! i)))) @ '']'' else [])"

definition row_label :: "visible_row list \<Rightarrow> nat \<Rightarrow> string" where
  "row_label rs i =
     (let r = rs ! i; stack = bk_stack (vr_key r)
      in concat (replicate (vr_depth r) ''  '') @ marker r @
         (if stack = [] then [] else last stack) @ splits_suffix rs i)"

record table_row =
  tr_label :: string
  tr_cells :: "(string \<times> color option) list"

definition selected_row :: "model \<Rightarrow> visible_row list \<Rightarrow> usize option" where
  "selected_row m rs = (if rs = [] then None else Some (min (m_selected m) (length rs - 1)))"

definition cell_color :: "bool \<Rightarrow> usize option \<Rightarrow> color option list list \<Rightarrow> nat \<Rightarrow> nat \<Rightarrow> color option" where
  "cell_color colorize selected color_map i c =
     (if \<not> colorize then None
      else if selected = Some i then None
      else case get_at color_map i of Some cs \<Rightarrow> cs ! c | None \<Rightarrow> None)"

definition cell_texts :: "stack_stats \<Rightarrow> string list" where
  "cell_texts st =
     show_uint (uint (st_count st)) #
     map fmt_ns [st_total_min_ns st, total_avg_ns st, st_total_max_ns st,
       st_self_min_ns st, self_avg_ns st, st_self_max_ns st]"

definition table_rows :: "bool \<Rightarrow> model \<Rightarrow> table_row list" where
  "table_rows colorize m =
     (let rs = visible_rows m;
          selected = selected_row m rs;
          color_map = (if colorize then build_color_map rs else [])
      in map (\<lambda>i. \<lparr>tr_label = row_label rs i,
                    tr_cells = map (\<lambda>c. (cell_texts (vr_stats (rs ! i)) ! c, cell_color colorize selected color_map i c)) [0..<7]\<rparr>)
           [0..<length rs])"

definition pane_constraints :: "model \<Rightarrow> length_constraint list" where
  "pane_constraints m =
     CLength 1 # (case m_focus m of Stacks \<Rightarrow> [CMin 8, CLength 10] | Details \<Rightarrow> [CLength 10, CMin 8])"

definition stacks_title :: "model \<Rightarrow> string" where
  "stacks_title m =
     '' stacks'' @ (if m_focus m = Stacks then focus_marker else []) @ ''  ('' @
     show_uint (int (length (visible_rows m))) @ '') ''"

definition details_title :: "model \<Rightarrow> string" where
  "details_title m = '' details'' @ (if m_focus m = Details then focus_marker else []) @ '' ''"

section \<open>The details pane\<close>

definition times_sign :: string where "times_sign = map char_of [195 :: nat, 151]"
definition path_separator :: string where "path_separator = map char_of [32 :: nat, 226, 128, 186, 32]"
definition check_mark :: string where "check_mark = map char_of [226 :: nat, 156, 147]"

definition matching_of :: "aggregator \<Rightarrow> string list \<Rightarrow> wire_span list" where
  "matching_of a stack = map fst (filter (\<lambda>(s, st). st = stack) (iter_with_stack a))"

text \<open>\<open>entry(k).or_insert(d)\<close> followed by a change of the value.\<close>

definition bt_entry :: "'k::linorder \<Rightarrow> 'v \<Rightarrow> ('v \<Rightarrow> 'v) \<Rightarrow> ('k, 'v) btree \<Rightarrow> ('k, 'v) btree" where
  "bt_entry k d f m = bt_insert k (f (case bt_get m k of None \<Rightarrow> d | Some v \<Rightarrow> v)) m"

definition count_field ::
  "string \<times> wire_field_value \<Rightarrow> (string, (string, u32) btree) btree \<Rightarrow> (string, (string, u32) btree) btree" where
  "count_field kv counts = bt_entry (fst kv) [] (bt_entry (to_string_value (snd kv)) 0 (\<lambda>n. n + 1)) counts"

definition field_dist :: "wire_span list \<Rightarrow> (string, (string, u32) btree) btree" where
  "field_dist matching = fold (\<lambda>s. fold count_field (ws_fields s)) matching []"

definition count_event :: "wire_event \<Rightarrow> (string, u32 \<times> string) btree \<Rightarrow> (string, u32 \<times> string) btree" where
  "count_event e counts = bt_entry (we_name e) (0, level_str (we_level e)) (\<lambda>(n, lvl). (n + 1, lvl)) counts"

definition event_dist :: "wire_span list \<Rightarrow> (string, u32 \<times> string) btree" where
  "event_dist matching = fold (\<lambda>s. fold count_event (ws_events s)) matching []"

definition distinguishing_line :: "nat \<Rightarrow> string \<times> (string, u32) btree \<Rightarrow> string" where
  "distinguishing_line show_per_key kv =
     (let entries = sort_by (\<lambda>a b. cmp (fst a) (fst b)) (snd kv);
          shown = join '', '' (map (\<lambda>(v, c). v @ times_sign @ show_uint (uint c)) (take show_per_key entries));
          suffix = (if length entries > show_per_key
                    then '', +'' @ show_uint (int (length entries - show_per_key)) @ '' more'' else [])
      in ''  '' @ fst kv @ '' = '' @ shown @ suffix)"

definition field_lines :: "bool \<Rightarrow> wire_span list \<Rightarrow> string list" where
  "field_lines details_focused matching =
     (let counts = field_dist matching;
          distinguishing = filter (\<lambda>(k, vals). length vals > 1) counts;
          constants = filter (\<lambda>(k, vals). \<not> length vals > 1) counts
      in (if distinguishing \<noteq> []
          then ''fields (distinguishing):'' #
            map (distinguishing_line (if details_focused then 20 else 5)) distinguishing else []) @
         (if constants \<noteq> []
          then [''fields (constant): '' @ join ''  ''
                 (map (\<lambda>(k, vals). k @ ''='' @ (case vals of (v, c) # r \<Rightarrow> v | [] \<Rightarrow> [])) constants)] else []))"

definition event_lines :: "wire_span list \<Rightarrow> string list" where
  "event_lines matching =
     (let counts = event_dist matching
      in if counts = [] then []
         else let total = sum_list (map (\<lambda>(name, n, lvl). n) counts);
                  entries = sort_by (\<lambda>a b. or_then (cmp (fst (snd b)) (fst (snd a))) (cmp (fst a) (fst b))) counts
              in [''events ('' @ show_uint (uint total) @ ''): '' @
                  join '', '' (map (\<lambda>(name, n, lvl). name @ ''['' @ lvl @ '']'' @ times_sign @ show_uint (uint n)) entries)])"

definition key_lines :: "model \<Rightarrow> tui_line list" where
  "key_lines m =
     (let candidates = candidate_split_keys m;
          sel = min (m_details_selected m) (length candidates - 1)
      in [blank, text_line ''metadata keys (Space to split/unsplit, Tab to leave):''] @
         (if candidates = [] then [text_line ''  (no metadata keys present on matching spans)'']
          else map (\<lambda>i. let k = candidates ! i;
                            box = (if k \<in> split_keys (m_agg m) then ''['' @ check_mark @ '']'' else ''[ ]'')
                        in line_of [(''  '' @ box @ '' '' @ k,
                             if i = sel then add_modifiers {Reversed} style_default else style_default)])
                 [0..<length candidates]))"

definition detail_lines :: "model \<Rightarrow> tui_line list" where
  "detail_lines m =
     (let rs = visible_rows m; details_focused = (m_focus m = Details)
      in case selected_row m rs of
           None \<Rightarrow> [text_line ''(no spans yet)'']
         | Some idx \<Rightarrow>
             (let r = rs ! idx; stack = bk_stack (vr_key r); matching = matching_of (m_agg m) stack
              in map text_line
                   ([''stack:  '' @ join path_separator stack,
                     ''n='' @ show_uint (uint (st_count (vr_stats r))) @ ''  matched='' @ show_uint (int (length matching)) @
                     ''  total avg: '' @ fmt_ns (total_avg_ns (vr_stats r)) @ ''  self avg: '' @ fmt_ns (self_avg_ns (vr_stats r))] @
                    (if split_keys (m_agg m) \<noteq> {}
                     then [''split by: '' @ join '', '' (sorted_list_of_set (split_keys (m_agg m)))] else []) @
                    field_lines details_focused matching @ event_lines matching) @
                 (if details_focused then key_lines m else [])))"

end
