(* ===== verification/ViewProps.thy ===== *)
theory ViewProps
  imports TableView NetProps
begin

text \<open>
  What the views show: the parent a row is measured against and its heat, the place of the dialogs,
  the level in the header, and the installer's output in the version dialog.
\<close>

section \<open>The parent of a row\<close>

text \<open>The nearest earlier row of a smaller depth.\<close>

definition nearest_shallower :: "usize list \<Rightarrow> nat \<Rightarrow> usize option" where
  "nearest_shallower ds i = find (\<lambda>j. ds ! j < ds ! i) (rev [0..<i])"

lemma pop_scope_find:
  "find (\<lambda>(d, idx). d < x) (pop_scope depth anc) =
     (if x \<le> depth then find (\<lambda>(d, idx). d < x) anc else find (\<lambda>(d, idx). d < x) (pop_scope depth anc))"
  by (induction anc rule: pop_scope.induct) auto

lemma pop_scope_head:
  "(case pop_scope depth anc of [] \<Rightarrow> None | (d, idx) # r \<Rightarrow> Some idx) =
     map_option snd (find (\<lambda>(d, idx). d < depth) anc)"
  by (induction anc rule: pop_scope.induct) auto

definition scope_of :: "usize list \<Rightarrow> nat \<Rightarrow> (usize \<times> usize) list \<Rightarrow> bool" where
  "scope_of ds i anc \<longleftrightarrow>
     (\<forall>x. map_option snd (find (\<lambda>(d, idx). d < x) anc) = find (\<lambda>j. ds ! j < x) (rev [0..<i]))"

lemma scope_push:
  assumes "scope_of ds i anc"
  shows "scope_of ds (i + 1) ((ds ! i, i) # pop_scope (ds ! i) anc)"
  unfolding scope_of_def
proof
  fix x
  have "map_option snd (find (\<lambda>(d, idx). d < x) (pop_scope (ds ! i) anc)) = find (\<lambda>j. ds ! j < x) (rev [0..<i])"
    if "\<not> ds ! i < x"
    using assms that pop_scope_find [of x "ds ! i" anc] by (simp add: scope_of_def)
  then show "map_option snd (find (\<lambda>(d, idx). d < x) ((ds ! i, i) # pop_scope (ds ! i) anc)) =
      find (\<lambda>j. ds ! j < x) (rev [0..<i + 1])"
    by simp
qed

lemma parents_from_spec:
  assumes "scope_of ds i anc" "i + length es = length ds" "es = drop i ds"
  shows "parents_from i anc es = map (nearest_shallower ds) [i..<length ds]"
  using assms
proof (induction es arbitrary: i anc)
  case (Cons e es)
  have i: "i < length ds" using Cons.prems(2) by simp
  then have "e # es = ds ! i # drop (i + 1) ds" using Cons.prems(3) by (simp add: Cons_nth_drop_Suc)
  with i have e: "e = ds ! i" "es = drop (i + 1) ds" "i < length ds" by simp_all
  have "parents_from (i + 1) ((ds ! i, i) # pop_scope (ds ! i) anc) es = map (nearest_shallower ds) [i + 1..<length ds]"
    using Cons.prems e by (intro Cons.IH scope_push) auto
  moreover have "map_option snd (find (\<lambda>(d, idx). d < ds ! i) anc) = nearest_shallower ds i"
    using Cons.prems(1) by (simp add: scope_of_def nearest_shallower_def)
  ultimately show ?case
    using e(1,3) by (simp add: Let_def pop_scope_head upt_conv_Cons)
qed simp

lemma parents_nearest:
  "parent_indices rs = map (nearest_shallower (map vr_depth rs)) [0..<length rs]"
  using parents_from_spec [of "map vr_depth rs" 0 "[]" "map vr_depth rs"]
  by (simp add: parent_indices_def scope_of_def)

lemma nearest_shallowerD:
  assumes "nearest_shallower ds i = Some p"
  shows "p < i" "ds ! p < ds ! i" "\<forall>j. j \<le> p \<or> i \<le> j \<or> ds ! i \<le> ds ! j"
proof -
  obtain k where k: "k < i" "p = rev [0..<i] ! k" "ds ! p < ds ! i" "\<forall>j<k. \<not> ds ! (rev [0..<i] ! j) < ds ! i"
    using assms by (auto simp: nearest_shallower_def find_Some_iff)
  have p: "p = i - Suc k" using k(1,2) by (simp add: rev_nth)
  show "p < i" "ds ! p < ds ! i" using k p by simp_all
  show "\<forall>j. j \<le> p \<or> i \<le> j \<or> ds ! i \<le> ds ! j"
  proof (rule allI, rule ccontr)
    fix j
    assume "\<not> (j \<le> p \<or> i \<le> j \<or> ds ! i \<le> ds ! j)"
    then have j: "p < j" "j < i" "ds ! j < ds ! i" by simp_all
    then have "i - Suc j < k" using p k(1) by linarith
    moreover have "rev [0..<i] ! (i - Suc j) = j" using j(2) by (simp add: rev_nth)
    ultimately show False using k(4) j(3) by metis
  qed
qed

section \<open>Heat\<close>

lemma effective_prefix:
  "\<exists>more. effective_from mx eff rest = eff @ more \<and> length more = length rest"
proof (induction mx eff rest rule: effective_from.induct)
  case (2 mx eff vals parent rest)
  then show ?case by (auto simp: Let_def)
qed simp

text \<open>The intensity of a row is at most its parent's, or the parent's is no number.\<close>

lemma f64_min_le: "b = NaN \<or> f64_le (f64_min a b) b \<and> f64_min a b \<noteq> NaN"
  using f64_not_lt [of b a] f64_le_refl [of b] by (auto simp: f64_min_def)

lemma effective_rows:
  assumes "k < length rest" "snd (rest ! k) = Some p" "p < length eff + k" "c < 7"
  shows "\<exists>v. effective_from mx eff rest ! (length eff + k) ! c = f64_min v (effective_from mx eff rest ! p ! c)"
  using assms
proof (induction mx eff rest arbitrary: k rule: effective_from.induct)
  case (2 mx eff vals parent rest)
  define row where "row = map (\<lambda>c. let self_int = self_intensity (mx ! c) (vals ! c)
      in case parent of Some p \<Rightarrow> f64_min self_int (eff ! p ! c) | None \<Rightarrow> self_int) [0..<7]"
  have step: "effective_from mx eff ((vals, parent) # rest) = effective_from mx (eff @ [row]) rest"
    by (simp add: row_def Let_def)
  show ?case
  proof (cases k)
    case 0
    obtain xs where "effective_from mx (eff @ [row]) rest = (eff @ [row]) @ xs"
      using effective_prefix by blast
    with 0 2(3-5) step show ?thesis by (auto simp: row_def nth_append)
  next
    case (Suc k')
    with 2(2,3) have "k' < length rest" "snd (rest ! k') = Some p" "p < length (eff @ [row]) + k'"
      using 2(4) by simp_all
    from 2(1) [OF row_def this 2(5)] Suc step show ?thesis by (simp only: length_append list.size add_Suc_right) simp
  qed
qed simp

definition heat_rank :: "color option \<Rightarrow> nat" where
  "heat_rank c =
     (if c = None then 0 else if c = Some SOL_CYAN then 1 else if c = Some SOL_GREEN then 2
      else if c = Some SOL_YELLOW then 3 else if c = Some SOL_ORANGE then 4 else 5)"

lemma heat_rank_colors:
  "heat_rank None = 0" "heat_rank (Some SOL_CYAN) = 1" "heat_rank (Some SOL_GREEN) = 2"
  "heat_rank (Some SOL_YELLOW) = 3" "heat_rank (Some SOL_ORANGE) = 4" "heat_rank (Some SOL_RED) = 5"
  by (simp_all add: heat_rank_def SOL_CYAN_def SOL_GREEN_def SOL_YELLOW_def SOL_ORANGE_def SOL_RED_def)

lemma heat_rank_bounded: "heat_rank c \<le> 5"
  by (simp add: heat_rank_def)

lemma heat_mono: "f64_le a b \<Longrightarrow> heat_rank (heat a) \<le> heat_rank (heat b)"
  using f64_le_lt_trans [of a b] by (auto simp: heat_def heat_rank_colors)

lemma heat_min: "heat_rank (heat (f64_min v b)) \<le> heat_rank (heat b)"
proof (cases "b = NaN")
  case True
  then have "heat b = Some SOL_RED" by (simp add: heat_def)
  then show ?thesis using heat_rank_bounded by (simp add: heat_rank_colors)
next
  case False
  then show ?thesis using heat_mono f64_min_le [of b v] by blast
qed

lemma effective_widths:
  "\<forall>row \<in> set eff. length row = 7 \<Longrightarrow> \<forall>row \<in> set (effective_from mx eff rest). length row = 7"
  by (induction mx eff rest rule: effective_from.induct) (auto simp: Let_def)

lemma length_parents: "length (parents_from i anc ds) = length ds"
  by (induction ds arbitrary: i anc) (simp_all add: Let_def)

lemma effective_length: "length (effective rs) = length rs"
  using effective_prefix [of "map (column_max rs) [0..<7]" "[]" "zip (map measures rs) (parent_indices rs)"]
  by (auto simp: effective_def parent_indices_def length_parents)

lemma color_at:
  assumes "i < length rs" "c < 7"
  shows "build_color_map rs ! i ! c = heat (effective rs ! i ! c)"
proof -
  have "length (effective rs ! i) = 7"
    using effective_widths [of "[]" "map (column_max rs) [0..<7]" "zip (map measures rs) (parent_indices rs)"] assms(1)
      nth_mem [of i "effective rs"] effective_length [of rs] by (simp add: effective_def)
  with assms effective_length [of rs] show ?thesis by (auto simp: build_color_map_def)
qed

text \<open>C37. In the table a row is measured against the nearest row above it of a smaller depth, and in no
  column is it painted hotter than that row, however large its own share of the column.\<close>

theorem never_hotter_than_parent:
  assumes "i < length rs" "parent_indices rs ! i = Some p"
  shows "p < i \<and> vr_depth (rs ! p) < vr_depth (rs ! i) \<and>
    (\<forall>j. j \<le> p \<or> i \<le> j \<or> vr_depth (rs ! i) \<le> vr_depth (rs ! j)) \<and>
    list_all (\<lambda>c. heat_rank (build_color_map rs ! i ! c) \<le> heat_rank (build_color_map rs ! p ! c)) [0..<7]"
proof -
  have near: "nearest_shallower (map vr_depth rs) i = Some p" using assms by (simp add: parents_nearest)
  note D = nearest_shallowerD [OF near]
  have p: "p < i" "p < length rs" using D(1) assms(1) by simp_all
  have deep: "\<forall>j. j \<le> p \<or> i \<le> j \<or> vr_depth (rs ! i) \<le> vr_depth (rs ! j)"
    using D(3) assms(1) by (metis length_map less_trans not_le nth_map)
  let ?z = "zip (map measures rs) (parent_indices rs)"
  have z: "i < length ?z" "snd (?z ! i) = Some p" "p < length ([] :: f64 list list) + i"
    using assms p by (simp_all add: parent_indices_def length_parents)
  have "heat_rank (build_color_map rs ! i ! c) \<le> heat_rank (build_color_map rs ! p ! c)" if c: "c < 7" for c
  proof -
    obtain v where "effective rs ! i ! c = f64_min v (effective rs ! p ! c)"
      using effective_rows [OF z c, of "map (column_max rs) [0..<7]"] by (auto simp: effective_def)
    then show ?thesis by (simp add: color_at [OF assms(1) c] color_at [OF p(2) c] heat_min)
  qed
  then have "list_all (\<lambda>c. heat_rank (build_color_map rs ! i ! c) \<le> heat_rank (build_color_map rs ! p ! c)) [0..<7]"
    by (simp add: list_all_iff)
  moreover have "vr_depth (rs ! p) < vr_depth (rs ! i)" using D(2) p assms(1) by simp
  ultimately show ?thesis using p(1) deep by blast
qed

definition example_row :: "u64 \<Rightarrow> usize \<Rightarrow> visible_row" where
  "example_row n d =
     \<lparr>vr_key = \<lparr>bk_stack = [], bk_splits = []\<rparr>,
      vr_stats = \<lparr>st_count = n, st_total_min_ns = n, st_total_max_ns = n, st_total_sum_ns = ucast n * ucast n,
        st_self_min_ns = n, st_self_max_ns = n, st_self_sum_ns = 0\<rparr>,
      vr_depth = d, vr_has_children = False, vr_is_expanded = False\<rparr>"

definition example_rows :: "visible_row list" where
  "example_rows = [example_row 100 0, example_row 50 1, example_row 90 2]"

lemma never_hotter_than_parent_witness:
  "heat_rank (build_color_map example_rows ! 2 ! 0) \<le> heat_rank (build_color_map example_rows ! 1 ! 0)"
proof -
  have "parent_indices example_rows ! 2 = Some 1" "2 < length example_rows" by code_simp+
  from never_hotter_than_parent [OF this(2,1)]
  have "list_all (\<lambda>c. heat_rank (build_color_map example_rows ! 2 ! c) \<le> heat_rank (build_color_map example_rows ! 1 ! c)) [0..<7]"
    by blast
  then show ?thesis unfolding list_all_iff by (rule bspec) simp
qed

section \<open>The level in the header\<close>

definition highlighted :: "tui_span list \<Rightarrow> string" where
  "highlighted spans = concat (map fst (filter (\<lambda>(s, st). Reversed \<in> sy_modifiers st) spans))"

text \<open>The level switcher of the header highlights the level the server confirmed and nothing else,
  except that \<open>Error\<close> and \<open>Warn\<close>, which a host or \<open>--set-level\<close> can put in force, are not on
  it, so that no level is highlighted then.\<close>

theorem level_highlighted:
  "highlighted (level_switcher_spans m) =
     (case m_cache_level m of
        None \<Rightarrow> []
      | Some l \<Rightarrow> if l = LfError \<or> l = LfWarn then [] else level_label l)"
  by (cases "m_cache_level m"; cases "the (m_cache_level m)")
    (simp_all add: highlighted_def level_switcher_spans_def level_option_spans_def LEVEL_OPTIONS_def style_defs
      raw_def Let_def)

section \<open>Dialogs\<close>

definition inside :: "rect \<Rightarrow> rect \<Rightarrow> bool" where
  "inside a b \<longleftrightarrow>
     unat (rc_x b) \<le> unat (rc_x a) \<and> unat (rc_x a) + unat (rc_width a) \<le> unat (rc_x b) + unat (rc_width b) \<and>
     unat (rc_y b) \<le> unat (rc_y a) \<and> unat (rc_y a) + unat (rc_height a) \<le> unat (rc_y b) + unat (rc_height b)"

definition on_screen :: "rect \<Rightarrow> bool" where
  "on_screen a \<longleftrightarrow> unat (rc_x a) + unat (rc_width a) < 2 ^ 16 \<and> unat (rc_y a) + unat (rc_height a) < 2 ^ 16"

lemma centered_axis:
  fixes x w v :: u16
  assumes "unat x + unat w < 2 ^ 16" "v \<le> w"
  shows "unat x \<le> unat (x + sat_sub16 w v div 2)"
    "unat (x + sat_sub16 w v div 2) + unat v \<le> unat x + unat w"
proof -
  have "unat v \<le> unat w" using assms(2) by (simp add: word_le_nat_alt)
  moreover have "unat (sat_sub16 w v) = unat w - unat v"
    using assms(2) by (auto simp: sat_sub16_def unat_sub)
  then have "unat (sat_sub16 w v div 2) = (unat w - unat v) div 2" by (simp add: unat_div)
  moreover from this have "unat x + unat (sat_sub16 w v div 2) < 2 ^ LENGTH(16)" using assms(1) by simp
  then have "unat (x + sat_sub16 w v div 2) = unat x + unat (sat_sub16 w v div 2)"
    by (rule unat_add_small)
  ultimately show "unat x \<le> unat (x + sat_sub16 w v div 2)"
    "unat (x + sat_sub16 w v div 2) + unat v \<le> unat x + unat w"
    by linarith+
qed

lemma centered_inside:
  assumes "on_screen area" "w \<le> rc_width area" "h \<le> rc_height area"
  shows "inside (centered_rect area w h) area"
  using assms centered_axis [of "rc_x area" "rc_width area" w] centered_axis [of "rc_y area" "rc_height area" h]
  by (simp add: inside_def centered_rect_def on_screen_def)

text \<open>On every screen, however small, the dialogs lie inside it.\<close>

theorem dialogs_inside:
  assumes "on_screen area"
  shows "list_all (\<lambda>d. inside (dg_area d) area) (overlays area m)"
  using assms
  by (auto simp: overlays_def confirm_dialog_def quit_confirm_dialog_def Let_def intro!: centered_inside
      split: option.split confirm_status.split)

lemma dialogs_inside_witness:
  "list_all (\<lambda>d. inside (dg_area d) \<lparr>rc_x = 0, rc_y = 0, rc_width = 20, rc_height = 2\<rparr>)
     (overlays \<lparr>rc_x = 0, rc_y = 0, rc_width = 20, rc_height = 2\<rparr> ((model_new 4)\<lparr>m_quit_deadline := Some 0\<rparr>))"
  by (rule dialogs_inside) (simp add: on_screen_def)

section \<open>The installer's output on the screen\<close>

lemma concat_chars: "concat (chars s) = s"
  by (induction s rule: chars.induct) simp_all

text \<open>\<open>trim_end\<close>, \<open>lines\<close> and the cut of a carriage return take parts of a text.\<close>

definition part_of :: "string \<Rightarrow> string \<Rightarrow> bool" where
  "part_of l s \<longleftrightarrow> (\<exists>p q. s = p @ l @ q)"

lemma part_trans: "part_of l s \<Longrightarrow> part_of s t \<Longrightarrow> part_of l t"
  unfolding part_of_def by (metis append.assoc)

lemma part_harmless: "part_of l s \<Longrightarrow> harmless_text s \<Longrightarrow> harmless_text l"
  unfolding part_of_def using harmless_part by blast

lemma part_take: "part_of (takeWhile P s) s" "part_of (drop n s) s" "part_of (tl s) s" "part_of (butlast s) s"
proof -
  have "s = [] @ takeWhile P s @ dropWhile P s" "s = take n s @ drop n s @ []" by simp_all
  then show "part_of (takeWhile P s) s" "part_of (drop n s) s" unfolding part_of_def by blast+
  have "s = take 1 s @ tl s @ []" "s = [] @ butlast s @ drop (length s - 1) s"
    by (simp_all add: butlast_conv_take drop_Suc) (cases s; simp)
  then show "part_of (tl s) s" "part_of (butlast s) s" unfolding part_of_def by blast+
qed

lemma trim_end_part: "part_of (trim_end s) s"
proof -
  have "part_of (concat (rev (dropWhile P (rev cs)))) (concat cs)" for P and cs :: "rust_char list"
  proof -
    have "cs = rev (dropWhile P (rev cs)) @ rev (takeWhile P (rev cs))"
      by (metis rev_append rev_rev_ident takeWhile_dropWhile_id)
    then have "concat cs = [] @ concat (rev (dropWhile P (rev cs))) @ concat (rev (takeWhile P (rev cs)))"
      by (metis append_Nil concat_append)
    then show ?thesis unfolding part_of_def by blast
  qed
  from this [of _ "chars s"] show ?thesis unfolding trim_end_def concat_chars .
qed

lemma cut_return_part: "part_of (cut_return l) l"
  using part_take(2) [of 0 l] part_take(4) [of l] by (simp add: cut_return_def)

lemma str_lines_part:
  "l \<in> set (str_lines s) \<Longrightarrow> part_of l s \<and> char_of (10 :: nat) \<notin> set l"
proof (induction s rule: str_lines.induct)
  case (1 s)
  define h where "h = takeWhile (\<lambda>c. c \<noteq> char_of (10 :: nat)) s"
  have h: "part_of h s" "char_of (10 :: nat) \<notin> set h" by (auto simp: h_def part_take dest: set_takeWhileD)
  have c: "part_of (cut_return h) s" "char_of (10 :: nat) \<notin> set (cut_return h)"
    using part_trans [OF cut_return_part h(1)] h(2) by (auto simp: cut_return_def dest: in_set_butlastD)
  have r: "part_of (tl (drop (length h) s)) s" by (rule part_trans [OF part_take(3) part_take(2)])
  from 1(2) consider "l = h" | "l = cut_return h" | "s \<noteq> []" "drop (length h) s \<noteq> []" "l \<in> set (str_lines (tl (drop (length h) s)))"
    by (subst (asm) str_lines.simps) (auto simp: h_def Let_def split: if_splits)
  then show ?case
  proof cases
    case 3
    from 1(1) [OF 3(1) h_def refl 3(2,3)] r show ?thesis using part_trans by blast
  qed (use h c in simp_all)
qed

text \<open>A line of the dialog: harmless, and no line break in it.\<close>

definition plain_line :: "string \<Rightarrow> bool" where
  "plain_line l \<longleftrightarrow> harmless_text l \<and> char_of (10 :: nat) \<notin> set l"

lemma str_lines_plain: "harmless_text s \<Longrightarrow> l \<in> set (str_lines s) \<Longrightarrow> plain_line l"
  using str_lines_part [of l s] part_harmless [of l s] by (simp add: plain_line_def)

lemma ascii_plain:
  "\<forall>d \<in> set l. 32 \<le> (of_char d :: nat) \<and> (of_char d :: nat) < 127 \<Longrightarrow> plain_line l"
proof (induction l rule: c1_free.induct)
  case (1 a b s)
  then show ?case by (auto simp: plain_line_def harmless_text_def harmless_def c1_pair_def Let_def)
qed (auto simp: plain_line_def harmless_text_def harmless_def Let_def)

lemma confirm_lines_plain:
  assumes "harmless_text out" "version_is_safe (cv_server_version c)" "cv_status c = Failed out"
  shows "list_all (\<lambda>l. plain_line (line_text l)) (confirm_lines c)"
proof -
  have "\<forall>d \<in> set (cv_server_version c). 32 \<le> (of_char d :: nat) \<and> (of_char d :: nat) < 127"
    using assms(2) by (auto simp: version_is_safe_def list_all_iff is_digit_def less_eq_char_def)
  moreover have "list_all (\<lambda>d. 32 \<le> (of_char d :: nat) \<and> (of_char d :: nat) < 127) ''Tried to install v, but the installer reported:''"
    by code_simp
  ultimately have "plain_line (''Tried to install v'' @ cv_server_version c @ '', but the installer reported:'')"
    by (intro ascii_plain) (simp add: ball_Un)
  moreover have "plain_line []" by (rule ascii_plain) simp
  moreover have "\<forall>l \<in> set (str_lines out). plain_line l" using str_lines_plain [OF assms(1)] by blast
  ultimately show ?thesis
    by (simp add: confirm_lines_def assms(3) Let_def line_text_def line_of_def text_line_def raw_def blank_def list_all_iff)
qed

text \<open>C30. Whatever valid text an installer prints, the version dialog shows no control character of
  it but tabulators: no control byte (no escape, hence no escape sequence), none of the C1 controls
  \<open>U+0080\<close> to \<open>U+009F\<close>, the 8-bit control sequence introducer among them, and in no line a line break;
  and at most 4114 bytes of it, for every announced version the installer was started with.\<close>

theorem installer_output_harmless:
  assumes "list_all utf8_char (chars (combine_output stderr stdout))" "harmless_text status"
    "installer_update dbg (Inr (capture False status stderr stdout)) = InstallerFailed out"
    "version_is_safe (cv_server_version c)" "cv_status c = Failed out"
  shows "list_all (\<lambda>l. plain_line (line_text l)) (dg_lines (confirm_dialog area c)) \<and>
    length (io_combined_output (capture False status stderr stdout)) \<le> 4114"
proof -
  let ?s = "sanitize_for_modal (combine_output stderr stdout)" and ?i = "''installer exited with status ''"
  have s: "whole_text ?s" "length ?s \<le> 4114" using sanitized [OF assms(1)] by blast+
  have i: "harmless_text ?i" "whole_text (newline @ newline)" by code_simp+
  have trim: "harmless_text (trim_end ?s)" using part_harmless [OF trim_end_part] s(1) by (simp add: whole_text_def)
  have a: "harmless_text (?i @ status)" using i(1) assms(2) by (intro harmless_append) (simp_all add: c1_pair_def)
  have "harmless_text (newline @ newline)" using i(2) by (simp add: whole_text_def)
  then have b: "harmless_text ((newline @ newline) @ trim_end ?s)"
    by (rule harmless_append [OF _ trim]) (simp add: c1_pair_def newline_def)
  have "harmless_text ((?i @ status) @ (newline @ newline) @ trim_end ?s)"
    by (rule harmless_append [OF a b]) (simp add: c1_pair_def newline_def)
  with a have "harmless_text out"
    using assms(3) by (auto simp: installer_update_def capture_def split: if_splits)
  from confirm_lines_plain [OF this assms(4,5)] s(2) show ?thesis
    by (simp add: confirm_dialog_def capture_def Let_def split_beta)
qed

text \<open>An escape sequence, a bell, a carriage return, and the 8-bit introducer of a second sequence.\<close>

definition noisy :: string where
  "noisy = [char_of (27 :: nat)] @ ''[31mred'' @ [char_of (7 :: nat), char_of (13 :: nat), char_of (194 :: nat), char_of (155 :: nat)] @ ''2J''"

lemma installer_output_harmless_witness:
  "\<exists>out. installer_update (\<lambda>s. s) (Inr (capture False ''exit status: 1'' noisy [])) = InstallerFailed out \<and>
    list_all (\<lambda>l. plain_line (line_text l))
      (dg_lines (confirm_dialog \<lparr>rc_x = 0, rc_y = 0, rc_width = 80, rc_height = 24\<rparr> \<lparr>cv_server_version = ''0.1.5'', cv_status = Failed out\<rparr>))"
proof -
  obtain out where out: "installer_update (\<lambda>s. s) (Inr (capture False ''exit status: 1'' noisy [])) = InstallerFailed out"
    by (simp add: installer_update_def capture_def)
  have "list_all utf8_char (chars (combine_output noisy []))" "harmless_text ''exit status: 1''"
      "version_is_safe ''0.1.5''"
    by code_simp+
  with installer_output_harmless [OF this(1,2) out, of "\<lparr>cv_server_version = ''0.1.5'', cv_status = Failed out\<rparr>"
      "\<lparr>rc_x = 0, rc_y = 0, rc_width = 80, rc_height = 24\<rparr>"] out
  show ?thesis by simp
qed

end
