(* ===== verification/GraphView.thy ===== *)
theory GraphView
  imports Header
begin

text \<open>
  The graph view (\<open>tracing-console/src/view/graph.rs\<close>): the colours of the series, the axes and their
  labels, what the chart is made of, and the details pane with its table and scrolling. Arguments
  are the logarithm and power of \<open>std\<close>, whose rounding is unspecified, the clock with chrono's
  formatting of an instant (nanoseconds since the epoch), and the hash behind the colours. Placing
  and drawing is ratatui's. None of \<open>axis_ticks\<close> and what uses it is a loop that does not end.
\<close>

section \<open>Colours\<close>

definition SERIES_PALETTE :: "color list" where
  "SERIES_PALETTE =
     [ColCyan, ColMagenta, ColYellow, ColGreen, ColRed, ColLightBlue, ColLightGreen, ColLightYellow]"

definition series_color :: "usize \<Rightarrow> bool \<Rightarrow> color" where
  "series_color idx colorize =
     (if \<not> colorize then ColWhite else SERIES_PALETTE ! (idx mod length SERIES_PALETTE))"

fun probe :: "nat \<Rightarrow> bool list \<Rightarrow> usize \<Rightarrow> usize" where
  "probe 0 occupied slot = slot"
| "probe (Suc n) occupied slot =
     (if \<not> occupied ! slot then slot else probe n occupied ((slot + 1) mod length occupied))"

definition assign_one ::
  "(series_key \<Rightarrow> usize) \<Rightarrow> series_key \<Rightarrow> bool list \<times> (series_key \<rightharpoonup> usize) \<Rightarrow> bool list \<times> (series_key \<rightharpoonup> usize)" where
  "assign_one color_index key s =
     (case s of (occupied, assignment) \<Rightarrow>
        let palette = length SERIES_PALETTE;
            slot = probe palette occupied (color_index key mod palette)
        in (occupied[slot := True], assignment(key \<mapsto> slot)))"

definition assign_series_colors ::
  "(string list \<Rightarrow> series_key \<Rightarrow> u64) \<Rightarrow> graph_state \<Rightarrow> series_key \<rightharpoonup> usize" where
  "assign_series_colors hash g =
     snd (fold (assign_one (color_index_of hash g)) (alpha_series_keys g)
       (replicate (length SERIES_PALETTE) False, Map.empty))"

section \<open>Labels\<close>

definition agg_label :: "agg_mode \<Rightarrow> string" where
  "agg_label mode =
     (case mode of
        Min \<Rightarrow> ''min''
      | Max \<Rightarrow> ''max''
      | Avg \<Rightarrow> ''avg''
      | Percentile p \<Rightarrow>
          if f64_lt (f64_abs (f64_sub (f64_round p) p)) (rnd64 (1 / 1000000))
          then ''p'' @ fmt_fixed 0 p else ''p'' @ show_f64 p)"

fun metric_label :: "metric \<Rightarrow> string" where
  "metric_label Total = ''total''"
| "metric_label SelfTime = ''self''"
| "metric_label Count = ''count''"

definition series_legend :: "series_key \<Rightarrow> string" where
  "series_legend key =
     (if key = [] then ''(all)'' else join '', '' (map (\<lambda>(k, v). k @ ''='' @ v) key))"

fun time_labels_label :: "time_labels \<Rightarrow> string" where
  "time_labels_label Delta = ''delta''"
| "time_labels_label Unix = ''unix''"
| "time_labels_label Local = ''local''"

definition wall_clock_label_step :: "f64 \<Rightarrow> f64 \<times> nat" where
  "wall_clock_label_step span_secs = (f64_div span_secs (Fin 2), 2)"

definition format_seconds :: "f64 \<Rightarrow> string" where
  "format_seconds s =
     (if f64_le (Fin 60) s then
        (let m = f64_round (f64_div s (Fin 60))
         in if f64_lt (f64_abs (f64_sub (f64_mul m (Fin 60)) s)) (Fin (1 / 2))
            then fmt_fixed 0 m @ ''m'' else fmt_fixed 1 (f64_div s (Fin 60)) @ ''m'')
      else if f64_le (Fin 1) s then
        (if f64_lt (f64_abs (f64_sub (f64_round s) s)) (rnd64 (5 / 100))
         then fmt_fixed 0 s @ ''s'' else fmt_fixed 1 s @ ''s'')
      else show_uint (uint (f64_to_u64 (f64_round (f64_mul s (Fin 1000))))) @ ''ms'')"

record clock =
  ck_now :: int
  ck_utc :: "int \<Rightarrow> string"
  ck_local :: "int \<Rightarrow> string"

definition format_axis_label :: "clock \<Rightarrow> f64 \<Rightarrow> time_labels \<Rightarrow> string" where
  "format_axis_label ck secs_ago mode =
     (let instant = ck_now ck - f64_to_int (2 ^ 63) (f64_mul secs_ago (Fin 1000000000))
      in case mode of
           Delta \<Rightarrow> if f64_lt secs_ago (rnd64 (1 / 1000000000)) then ''0s'' else ''-'' @ format_seconds secs_ago
         | Unix \<Rightarrow> ck_utc ck instant
         | Local \<Rightarrow> ck_local ck instant)"

definition wall_clock_labels :: "clock \<Rightarrow> f64 \<Rightarrow> time_labels \<Rightarrow> string list" where
  "wall_clock_labels ck span_secs mode =
     (let (step, n) = wall_clock_label_step span_secs
      in rev (map (\<lambda>i. format_axis_label ck (f64_mul (f64_of_int (int i)) step) mode) [0..<Suc n]))"

definition fmt_count :: "f64 \<Rightarrow> string" where
  "fmt_count v =
     (let v = f64_max v (Fin 0)
      in if f64_le (Fin 1000000000) v then fmt_fixed 1 (f64_div v (Fin 1000000000)) @ ''B''
         else if f64_le (Fin 1000000) v then fmt_fixed 1 (f64_div v (Fin 1000000)) @ ''M''
         else if f64_le (Fin 1000) v then fmt_fixed 1 (f64_div v (Fin 1000)) @ ''k''
         else if f64_val v = of_int \<lfloor>f64_val v\<rfloor> then show_uint (uint (f64_to_u64 v))
         else fmt_fixed 1 v)"

definition format_lookback :: "f64 \<Rightarrow> string" where
  "format_lookback secs =
     (if f64_le (Fin 60) secs then fmt_fixed 2 (f64_div secs (Fin 60)) @ ''m'' else fmt_fixed 2 secs @ ''s'')"

section \<open>Axes\<close>

text \<open>\<open>f64::log10\<close> and \<open>10f64.powi\<close>.\<close>

record libm =
  lm_log10 :: "f64 \<Rightarrow> f64"
  lm_powi10 :: "int \<Rightarrow> f64"

definition nice_step :: "libm \<Rightarrow> f64 \<Rightarrow> f64" where
  "nice_step lm x =
     (if \<not> f64_is_finite x \<or> f64_le x (Fin 0) then Fin 1
      else let exp = f64_to_int (2 ^ 31) (f64_floor (lm_log10 lm x));
               pow = lm_powi10 lm exp;
               frac = f64_div x pow;
               nice = (if f64_lt frac (Fin (3 / 2)) then Fin 1
                       else if f64_lt frac (Fin (7 / 2)) then Fin 2
                       else if f64_lt frac (Fin (15 / 2)) then Fin 5
                       else Fin 10)
           in f64_mul nice pow)"

definition nice_axis :: "libm \<Rightarrow> f64 \<Rightarrow> f64 \<Rightarrow> f64 \<times> f64 \<times> f64" where
  "nice_axis lm raw_min raw_max =
     (if \<not> f64_is_finite raw_min \<or> \<not> f64_is_finite raw_max then (Fin 0, Fin 1, Fin (1 / 4))
      else let raw_min = f64_max raw_min (Fin 0);
               raw_max = f64_max raw_max raw_min;
               raw_range = f64_sub raw_max raw_min;
               effective_range = (if f64_lt (Fin 0) raw_range then raw_range
                                  else f64_max (f64_mul raw_max (rnd64 (1 / 10))) (Fin 1));
               step = nice_step lm (f64_div effective_range (Fin 4));
               mn = f64_mul (f64_floor (f64_div raw_min step)) step;
               mx = f64_mul (f64_ceil (f64_div raw_max step)) step;
               tol = f64_mul step (rnd64 (1 / 1000000000));
               mn = (if f64_le (f64_sub raw_min tol) mn
                     then (let candidate = f64_sub mn step in if f64_le (Fin 0) candidate then candidate else mn)
                     else mn);
               mx = (if f64_le mx (f64_add raw_max tol) then f64_add mx step else mx)
           in (mn, mx, step))"

partial_function (option) ticks_from :: "f64 \<Rightarrow> f64 \<Rightarrow> f64 \<Rightarrow> f64 list \<Rightarrow> f64 list option" where
  "ticks_from limit step v out =
     (if f64_le v limit then ticks_from limit step (f64_add v step) (out @ [v]) else Some out)"

definition axis_ticks :: "f64 \<Rightarrow> f64 \<Rightarrow> f64 \<Rightarrow> f64 list option" where
  "axis_ticks mn mx step =
     (if f64_le step (Fin 0) then Some []
      else ticks_from (f64_add mx (f64_mul step (Fin (1 / 2)))) step mn [])"

definition ns_axis_labels :: "f64 list \<Rightarrow> string list" where
  "ns_axis_labels ticks = map (\<lambda>v. fmt_ns (f64_to_u64 (f64_round (f64_max v (Fin 0))))) ticks"

definition count_axis_labels :: "f64 list \<Rightarrow> string list" where
  "count_axis_labels ticks = map (\<lambda>v. fmt_count (f64_max v (Fin 0))) ticks"

section \<open>The chart\<close>

record chart =
  ch_title :: string
  ch_guides :: "(f64 \<times> f64) list list"
  ch_guide_style :: style
  ch_series :: "(string \<times> style \<times> (f64 \<times> f64) list) list"
  ch_x_bounds :: "f64 \<times> f64"
  ch_x_labels :: "string list"
  ch_y_bounds :: "f64 \<times> f64"
  ch_y_labels :: "string list"
  ch_border :: style

definition path_text :: "string list \<Rightarrow> string" where
  "path_text stack = join (map char_of [32 :: nat, 226, 128, 186, 32]) stack"

definition chart_title :: "graph_state \<Rightarrow> nat \<Rightarrow> string" where
  "chart_title gs visible_series =
     (let dot = '' '' @ middle_dot @ '' '';
          part = '' '' @ path_text (g_locked_stack gs) @ '' '' @ em_dash @ '' '' @ agg_label (g_aggregation gs) @ '' '' @
            metric_label (g_metric gs) @ dot @ ''window '' @ fmt_fixed 2 (g_window_secs gs) @ ''s'' @ dot @
            ''lookback '' @ format_lookback (g_lookback_secs gs);
          n = show_uint (int visible_series)
      in join dot [part,
           if g_split_keys gs \<noteq> {}
           then ''split by '' @ join '', '' (sorted_list_of_set (g_split_keys gs)) @ '' ('' @ n @ '' series)''
           else n @ '' series''] @ '' '')"

definition visible_projections :: "graph_state \<Rightarrow> f64 \<Rightarrow> series_projection list" where
  "visible_projections gs x_max_secs =
     filter (\<lambda>p. sj_key p \<notin> g_hidden_series gs) (project (g_aggregation gs) (g_metric gs) x_max_secs (g_store gs))"

definition raw_y_range :: "series_projection list \<Rightarrow> f64 \<times> f64" where
  "raw_y_range ps =
     fold (\<lambda>y (lo, hi). (f64_min lo y, f64_max hi y)) (map snd (concat (map sj_points ps))) (PosInf, NegInf)"

definition render_chart ::
  "libm \<Rightarrow> clock \<Rightarrow> (series_key \<rightharpoonup> usize) \<Rightarrow> bool \<Rightarrow> graph_state \<Rightarrow> chart option" where
  "render_chart lm ck color_slots colorize gs =
     (let x_max_secs = f64_max (g_lookback_secs gs) (g_window_secs gs);
          ps = visible_projections gs x_max_secs;
          (raw_y_min, raw_y_max) = raw_y_range ps;
          (y_min, y_max, y_step) = nice_axis lm raw_y_min raw_y_max;
          slot_of = (\<lambda>key. case color_slots key of Some s \<Rightarrow> s | None \<Rightarrow> 0)
      in map_option (\<lambda>ticks.
           \<lparr>ch_title = chart_title gs (length ps),
            ch_guides = map (\<lambda>y. [(f64_neg x_max_secs, y), (Fin 0, y)]) ticks,
            ch_guide_style = (if colorize then fg ColDarkGray style_default else add_modifiers {Dim} style_default),
            ch_series = map (\<lambda>p. (series_legend (sj_key p),
              fg (series_color (slot_of (sj_key p)) colorize) style_default, sj_points p)) ps,
            ch_x_bounds = (f64_neg x_max_secs, Fin 0),
            ch_x_labels = wall_clock_labels ck x_max_secs (g_time_labels gs),
            ch_y_bounds = (y_min, y_max),
            ch_y_labels = (if is_count (g_metric gs) then count_axis_labels ticks else ns_axis_labels ticks),
            ch_border = focused_border_style (g_focus gs = Chart)\<rparr>)
         (axis_ticks y_min y_max y_step))"

section \<open>Fields of the details pane\<close>

definition input_style :: style where
  "input_style = add_modifiers {Bold} (fg ColBlack (bg ColWhite style_default))"

definition modal_value_spans :: "string option \<Rightarrow> tui_span \<Rightarrow> tui_span list" where
  "modal_value_spans buf idle =
     (case buf of
        Some b \<Rightarrow> [(if b = [] then '' '' else b, input_style), (''_'', add_modifiers {Reversed} input_style)]
      | None \<Rightarrow> [idle])"

definition labeled_modal_field :: "string \<Rightarrow> string \<Rightarrow> string option \<Rightarrow> string \<Rightarrow> tui_span list" where
  "labeled_modal_field letter rest buf idle_value =
     (let label_style = (if buf \<noteq> None then input_style else style_default)
      in [(letter, add_modifiers {Underlined} label_style), (rest, label_style), raw '' ''] @
         modal_value_spans buf (raw idle_value))"

definition labeled_toggle_field :: "string \<Rightarrow> string \<Rightarrow> string \<Rightarrow> tui_span list" where
  "labeled_toggle_field letter rest value =
     [(letter, add_modifiers {Underlined} style_default), raw rest, raw '' '', raw value]"

definition hint_fields :: "graph_state \<Rightarrow> tui_span list list" where
  "hint_fields gs =
     [labeled_modal_field ''a'' ''gg'' (g_agg_input gs) (agg_label (g_aggregation gs)),
      labeled_modal_field ''w'' ''indow'' (g_window_input gs) (fmt_fixed 2 (g_window_secs gs) @ ''s''),
      labeled_modal_field ''l'' ''ookback'' (g_lookback_input gs) (format_lookback (g_lookback_secs gs)),
      labeled_toggle_field ''m'' ''etric'' (metric_label (g_metric gs)),
      labeled_toggle_field ''u'' ''nix'' (time_labels_label (g_time_labels gs))]"

definition graph_details_hints :: "graph_state \<Rightarrow> tui_line" where
  "graph_details_hints gs =
     line_of ([raw '' ''] @
       concat (map (\<lambda>(i, group). (if i > 0 then [header_separator] else []) @ group) (enumerate 0 (hint_fields gs))) @
       [raw '' ''])"

section \<open>The table of series\<close>

definition LABEL_W :: usize where "LABEL_W = 10"
definition TIME_COL_MIN :: usize where "TIME_COL_MIN = 7"

record series_row =
  rw_color_idx :: usize
  rw_visible :: bool
  rw_split_vals :: "string list"
  rw_stats :: "string list"

definition split_cell :: "series_key \<Rightarrow> string \<Rightarrow> string" where
  "split_cell key sk = (case find (\<lambda>p. fst p = sk) key of None \<Rightarrow> em_dash | Some p \<Rightarrow> snd p)"

text \<open>The five statistics of a row: \<open>n\<close>, \<open>min\<close>, \<open>avg\<close>, \<open>max\<close>, \<open>last\<close>.\<close>

definition series_row_of ::
  "graph_state \<Rightarrow> (series_key \<rightharpoonup> usize) \<Rightarrow> (series_key \<rightharpoonup> series_summary) \<Rightarrow> string list \<Rightarrow> series_key \<Rightarrow> series_row" where
  "series_row_of gs color_slots summary split_cols key =
     (let s = summary key;
          fmt = (if is_count (g_metric gs) then (\<lambda>v. fmt_count (f64_of_u64 v)) else fmt_ns)
      in \<lparr>rw_color_idx = (case color_slots key of Some i \<Rightarrow> i | None \<Rightarrow> 0),
          rw_visible = (key \<notin> g_hidden_series gs),
          rw_split_vals = map (split_cell key) split_cols,
          rw_stats = show_uint (uint (sm_or sm_count s)) #
            map fmt [sm_or sm_min_ns s, sm_or sm_avg_ns s, sm_or sm_max_ns s, sm_or sm_last_ns s]\<rparr>)"

definition series_rows ::
  "graph_state \<Rightarrow> (series_key \<rightharpoonup> usize) \<Rightarrow> series_row list" where
  "series_rows gs color_slots =
     (let summary = map_of (map (\<lambda>s. (sm_key s, s)) (summarize (g_aggregation gs) (g_metric gs) (g_store gs)))
      in map (series_row_of gs color_slots summary (sorted_list_of_set (g_split_keys gs))) (series_keys gs))"

definition stat_headers :: "string list" where
  "stat_headers = [''n'', ''min'', ''avg'', ''max'', ''last'']"

definition stat_columns :: "sort_column list" where
  "stat_columns = [ByCount, ByMin, ByAvg, ByMax, ByLast]"

definition column_width :: "nat \<Rightarrow> string list \<Rightarrow> nat" where
  "column_width start cells = fold max (map char_count cells) start"

definition split_widths :: "string list \<Rightarrow> series_row list \<Rightarrow> nat list" where
  "split_widths split_cols rs =
     map (\<lambda>i. column_width (char_count (split_cols ! i)) (map (\<lambda>r. rw_split_vals r ! i) rs)) [0..<length split_cols]"

definition stat_widths :: "series_row list \<Rightarrow> nat list" where
  "stat_widths rs =
     map (\<lambda>i. column_width (if i = 0 then length (stat_headers ! i) else max (length (stat_headers ! i)) TIME_COL_MIN)
            (map (\<lambda>r. rw_stats r ! i) rs)) [0..<5]"

definition table_header :: "graph_state \<Rightarrow> string list \<Rightarrow> nat list \<Rightarrow> nat list \<Rightarrow> tui_line" where
  "table_header gs split_cols sws tws =
     (let dim = add_modifiers {Dim} style_default;
          underline = add_modifiers {Underlined, Bold} style_default
      in line_of ((''      '', dim) #
           concat (map (\<lambda>i. [(pad_right (sws ! i) (split_cols ! i),
               if g_sort_column gs = SplitKey (split_cols ! i) then underline else dim), (''  '', dim)]) [0..<length split_cols]) @
           concat (map (\<lambda>i. (pad_left (tws ! i) (stat_headers ! i),
               if g_sort_column gs = stat_columns ! i then underline else dim) #
             (if i + 1 < length stat_headers then [(''  '', dim)] else [])) [0..<length stat_headers])))"

definition tick_box :: "bool \<Rightarrow> string" where
  "tick_box b = (if b then ''['' @ map char_of [226 :: nat, 156, 147] @ '']'' else ''[ ]'')"

definition row_text :: "nat list \<Rightarrow> nat list \<Rightarrow> series_row \<Rightarrow> string" where
  "row_text sws tws r =
     ''  '' @ tick_box (rw_visible r) @ '' '' @
     concat (map (\<lambda>i. pad_right (sws ! i) (rw_split_vals r ! i) @ ''  '') [0..<length (rw_split_vals r)]) @
     join ''  '' (map (\<lambda>i. pad_left (tws ! i) (rw_stats r ! i)) [0..<5])"

definition row_style :: "bool \<Rightarrow> bool \<Rightarrow> series_row \<Rightarrow> style" where
  "row_style colorize on_cursor r =
     (let st = fg (series_color (rw_color_idx r) colorize) style_default;
          st = (if \<not> rw_visible r then add_modifiers {Dim} st else st)
      in if on_cursor then add_modifiers {Reversed} st else st)"

definition series_table_lines ::
  "graph_state \<Rightarrow> usize option \<Rightarrow> bool \<Rightarrow> (series_key \<rightharpoonup> usize) \<Rightarrow> tui_line option \<times> tui_line list \<times> usize option" where
  "series_table_lines gs cursor_series_idx colorize color_slots =
     (if series_keys gs = [] then (None, [text_line ''  (no series yet)''], None)
      else let rs = series_rows gs color_slots;
               split_cols = sorted_list_of_set (g_split_keys gs);
               sws = split_widths split_cols rs;
               tws = stat_widths rs
           in (Some (table_header gs split_cols sws tws),
               map (\<lambda>i. line_of [(row_text sws tws (rs ! i), row_style colorize (cursor_series_idx = Some i) (rs ! i))]) [0..<length rs],
               case cursor_series_idx of Some i \<Rightarrow> if i < length rs then Some i else None | None \<Rightarrow> None))"

section \<open>The details pane\<close>

record details_pane =
  dp_title :: string
  dp_hints :: tui_line
  dp_border :: style
  dp_help :: "tui_line option"
  dp_sticky :: "tui_line list"
  dp_body :: "tui_line list"
  dp_cursor :: "usize option"

definition candidate_lines :: "graph_state \<Rightarrow> string list \<Rightarrow> usize option \<Rightarrow> tui_line list" where
  "candidate_lines gs candidates on_cursor =
     (if candidates = [] then [text_line ''  (no metadata keys present on matching spans)'']
      else map (\<lambda>i. line_of [(''  '' @ tick_box (candidates ! i \<in> g_split_keys gs) @ '' '' @ candidates ! i,
             if on_cursor = Some i then add_modifiers {Reversed} style_default else style_default)])
           [0..<length candidates])"

definition expanded_sticky :: "graph_state \<Rightarrow> tui_line list" where
  "expanded_sticky gs =
     [text_line (pad_right LABEL_W ''stack'' @ path_text (g_locked_stack gs))] @
     (if g_split_keys gs \<noteq> {}
      then [text_line (pad_right LABEL_W ''splits'' @ join '', '' (sorted_list_of_set (g_split_keys gs)))] else []) @
     [blank, text_line (''series  (Space toggles visibility; '' @ map char_of [226 :: nat, 134, 144] @ ''/'' @
        map char_of [226 :: nat, 134, 146] @ '' change sort column):'')]"

text \<open>The lines that stay, the lines that scroll, and the line of the cursor among the latter.\<close>

definition expanded_details ::
  "model \<Rightarrow> graph_state \<Rightarrow> bool \<Rightarrow> (series_key \<rightharpoonup> usize) \<Rightarrow> tui_line list \<times> tui_line list \<times> usize option" where
  "expanded_details m gs colorize color_slots =
     (let n = length (series_keys gs);
          candidates = candidate_split_keys_for (m_agg m) (g_locked_stack gs);
          combined_len = n + length candidates;
          sel = (if combined_len = 0 then None else Some (min (g_details_selected gs) (combined_len - 1)));
          series_cursor = (case sel of Some s \<Rightarrow> if s < n then Some s else None | None \<Rightarrow> None);
          candidate_cursor = (case sel of Some s \<Rightarrow> if n \<le> s then Some (s - n) else None | None \<Rightarrow> None);
          (header, table, table_cursor) = series_table_lines gs series_cursor colorize color_slots;
          before = table @ [blank, text_line ''metadata keys  (Space splits/unsplits, Tab to leave):'']
      in (expanded_sticky gs @ (case header of Some h \<Rightarrow> [h] | None \<Rightarrow> []),
          before @ candidate_lines gs candidates candidate_cursor,
          case candidate_cursor of Some i \<Rightarrow> Some (length before + i) | None \<Rightarrow> table_cursor))"

definition compact_details ::
  "graph_state \<Rightarrow> bool \<Rightarrow> (series_key \<rightharpoonup> usize) \<Rightarrow> tui_line list \<times> tui_line list \<times> usize option" where
  "compact_details gs colorize color_slots =
     (let n = length (series_keys gs);
          cursor_idx = (if n = 0 then None else Some (min (g_details_selected gs) (n - 1)));
          (header, table, table_cursor) = series_table_lines gs cursor_idx colorize color_slots
      in (case header of Some h \<Rightarrow> [h] | None \<Rightarrow> [], table, table_cursor))"

definition render_graph_details ::
  "model \<Rightarrow> graph_state \<Rightarrow> bool \<Rightarrow> (series_key \<rightharpoonup> usize) \<Rightarrow> details_pane" where
  "render_graph_details m gs colorize color_slots =
     (let focused = (g_focus gs = GraphDetails);
          (sticky, body, cursor) =
            (if focused then expanded_details m gs colorize color_slots else compact_details gs colorize color_slots)
      in \<lparr>dp_title = '' graph details'' @ (if focused then map char_of [32 :: nat, 226, 151, 134] else []) @ '' '',
          dp_hints = right_aligned (graph_details_hints gs),
          dp_border = focused_border_style focused,
          dp_help = map_option right_aligned (modal_status_bar m),
          dp_sticky = sticky, dp_body = body, dp_cursor = cursor\<rparr>)"

text \<open>The height of the lines that stay and the scrolling of the rest, given the height of the pane.\<close>

definition sticky_height :: "details_pane \<Rightarrow> u16 \<Rightarrow> u16" where
  "sticky_height d inner_height =
     of_nat (min (min (length (dp_sticky d)) (unat inner_height)) (unat inner_height))"

definition body_scroll :: "usize option \<Rightarrow> nat \<Rightarrow> nat \<Rightarrow> u16" where
  "body_scroll body_cursor total_body body_h =
     (case body_cursor of
        Some line \<Rightarrow>
          if total_body > body_h \<and> body_h > 0
          then of_nat (min (line - body_h div 2) (total_body - body_h)) else 0
      | None \<Rightarrow> 0)"

definition graph_panes :: "graph_state \<Rightarrow> length_constraint list" where
  "graph_panes gs =
     CLength 1 # (case g_focus gs of Chart \<Rightarrow> [CMin 8, CLength 12] | GraphDetails \<Rightarrow> [CLength 8, CMin 12])"

end
