(* ===== verification/Rounding.thy ===== *)
theory Rounding
  imports Float64
begin

text \<open>
  What rounding to binary64 guarantees: a result is a multiple of \<open>2\<^sup>-\<^sup>1\<^sup>0\<^sup>7\<^sup>4\<close> of at most 53 bits and
  below \<open>2\<^sup>1\<^sup>0\<^sup>2\<^sup>4\<close>, and rounding never crosses a representable value. Hence a sum that is never lost
  in rounding grows past every bound.
\<close>

section \<open>Powers and logarithms\<close>

lemma pow2_powi: "pow2 e = 2 powi e"
  by (simp add: pow2_def power_int_def power_one_over)

lemma pow2_pos [simp]: "0 < pow2 e"
  by (simp add: pow2_powi)

lemma pow2_add: "pow2 (a + b) = pow2 a * pow2 b"
  by (simp add: pow2_powi power_int_add)

lemma pow2_nat: "pow2 (int n) = 2 ^ n"
  by (simp add: pow2_def)

lemma pow2_mono: "a \<le> b \<Longrightarrow> pow2 a \<le> pow2 b"
  by (simp add: pow2_powi power_int_increasing)

lemma ilog2_spec: "0 < n \<Longrightarrow> 0 \<le> ilog2 n \<and> 2 ^ nat (ilog2 n) \<le> n \<and> n < 2 ^ (nat (ilog2 n) + 1)"
proof (induction n rule: ilog2.induct)
  case (1 n)
  show ?case
  proof (cases "n \<le> 1")
    case True
    with 1(2) show ?thesis by (simp add: ilog2.simps [of n])
  next
    case False
    define k where "k = nat (ilog2 (n div 2))"
    have k: "ilog2 (n div 2) = int k" "2 ^ k \<le> n div 2" "n div 2 < 2 ^ (k + 1)"
      using 1(1) False by (auto simp: k_def)
    have "ilog2 n = int (Suc k)" using False k(1) by (simp add: ilog2.simps [of n])
    moreover from this have "nat (ilog2 n) = Suc k" by simp
    moreover have "2 ^ Suc k \<le> n" "n < 2 ^ (Suc k + 1)" using k(2,3) by simp_all
    ultimately show ?thesis by (simp only: of_nat_0_le_iff simp_thms)
  qed
qed

lemma flog2_spec:
  assumes "0 < q"
  shows "pow2 (flog2 q) \<le> q" "q < pow2 (flog2 q + 1)"
proof -
  obtain n d where nd: "quotient_of q = (n, d)" by (cases "quotient_of q")
  have d: "0 < d" by (rule quotient_of_denom_pos [OF nd])
  have q: "q = of_int n / of_int d" by (rule quotient_of_div [OF nd])
  have n: "0 < n" using assms d by (simp add: q zero_less_divide_iff)
  define a b where "a = nat (ilog2 n)" and "b = nat (ilog2 d)"
  have a: "ilog2 n = int a" "2 ^ a \<le> n" "n < 2 ^ (a + 1)" using ilog2_spec [OF n] by (auto simp: a_def)
  have b: "ilog2 d = int b" "2 ^ b \<le> d" "d < 2 ^ (b + 1)" using ilog2_spec [OF d] by (auto simp: b_def)
  let ?e = "int a - int b"
  have r: "(2 :: rat) ^ a \<le> of_int n" "of_int n < (2 :: rat) ^ (a + 1)" "(2 :: rat) ^ b \<le> of_int d" "of_int d < (2 :: rat) ^ (b + 1)"
    using a(2,3) b(2,3) by (metis of_int_le_iff of_int_less_iff of_int_numeral of_int_power)+
  have D: "(0 :: rat) < of_int d" using d by simp
  have up: "pow2 (?e + 1) * of_int d > of_int n"
  proof -
    have "of_int n < pow2 (?e + 1) * 2 ^ b"
      using r(2) by (simp only: pow2_nat [symmetric] pow2_add [symmetric]) (simp add: algebra_simps)
    also have "\<dots> \<le> pow2 (?e + 1) * of_int d" using r(3) by (intro mult_left_mono) (auto intro: less_imp_le)
    finally show ?thesis .
  qed
  have low: "pow2 (?e - 1) * of_int d < of_int n"
  proof -
    have "pow2 (?e - 1) * of_int d < pow2 (?e - 1) * 2 ^ (b + 1)" using r(4) by (intro mult_strict_left_mono) auto
    also have "\<dots> = 2 ^ a" by (simp only: pow2_nat [symmetric] pow2_add [symmetric]) simp
    finally show ?thesis using r(1) by (rule less_le_trans)
  qed
  have e: "flog2 q = (if pow2 ?e \<le> q then ?e else ?e - 1)" by (simp add: flog2_def nd a(1) b(1))
  have "pow2 (?e - 1) < q" "q < pow2 (?e + 1)" using low up D by (simp_all add: q pos_less_divide_eq pos_divide_less_eq)
  then show "pow2 (flog2 q) \<le> q" "q < pow2 (flog2 q + 1)" by (auto simp: e)
qed

section \<open>Rounding to an integer\<close>

lemma round_half_even_le: "q \<le> of_int m \<Longrightarrow> round_half_even q \<le> m"
  by (auto simp: Let_def) linarith+

lemma round_half_even_ge: "of_int m \<le> q \<Longrightarrow> m \<le> round_half_even q"
  using le_floor_iff [of m q] by (auto simp: Let_def)

section \<open>Representable magnitudes\<close>

definition rep64 :: "rat \<Rightarrow> bool" where
  "rep64 r \<longleftrightarrow> (\<exists>n e. r = of_int n * pow2 e \<and> 0 \<le> n \<and> n \<le> 2 ^ 53 \<and> - 1074 \<le> e)"

definition ulp_exp :: "rat \<Rightarrow> int" where
  "ulp_exp q = max (flog2 q - 52) (- 1074)"

definition round_mag :: "rat \<Rightarrow> rat" where
  "round_mag q = of_int (round_half_even (q / pow2 (ulp_exp q))) * pow2 (ulp_exp q)"

lemma rnd64_mag:
  "rnd64 q =
     (if q = 0 then Fin 0
      else if 1024 \<le> flog2 (round_mag \<bar>q\<bar>) then (if q < 0 then NegInf else PosInf)
      else if round_mag \<bar>q\<bar> = 0 then (if q < 0 then NegZero else Fin 0)
      else Fin (if q < 0 then - round_mag \<bar>q\<bar> else round_mag \<bar>q\<bar>))"
  by (simp add: rnd64_def round_mag_def ulp_exp_def Let_def del: round_half_even.simps)

lemma below_ulp: "0 < q \<Longrightarrow> q / pow2 (ulp_exp q) < of_int (2 ^ 53)"
proof -
  assume q: "0 < q"
  have "q < pow2 (flog2 q + 1)" by (rule flog2_spec(2) [OF q])
  also have "\<dots> \<le> pow2 (53 + ulp_exp q)" by (intro pow2_mono) (simp add: ulp_exp_def)
  also have "\<dots> = of_int (2 ^ 53) * pow2 (ulp_exp q)" using pow2_nat [of 53] by (simp add: pow2_add)
  finally show ?thesis by (simp add: pos_divide_less_eq del: of_int_power)
qed

lemma round_mag_rep:
  assumes "0 < q"
  shows "rep64 (round_mag q)" "0 \<le> round_mag q"
proof -
  have "0 \<le> round_half_even (q / pow2 (ulp_exp q))" using assms by (intro round_half_even_ge) (simp add: less_imp_le)
  moreover have "round_half_even (q / pow2 (ulp_exp q)) \<le> 2 ^ 53"
    by (intro round_half_even_le less_imp_le below_ulp assms)
  ultimately have n: "0 \<le> round_half_even (q / pow2 (ulp_exp q))" "round_half_even (q / pow2 (ulp_exp q)) \<le> 2 ^ 53" .
  have "- 1074 \<le> ulp_exp q" by (simp add: ulp_exp_def)
  with n show "rep64 (round_mag q)" unfolding rep64_def round_mag_def by blast
  show "0 \<le> round_mag q" using n(1) by (simp add: round_mag_def less_imp_le del: round_half_even.simps)
qed

text \<open>A representable value not above \<open>q\<close>, or \<open>q\<close>'s own power of two, is a multiple of the last place of \<open>q\<close>.\<close>

lemma multiple_of_ulp:
  assumes "r = of_int n * pow2 e" "ulp_exp q \<le> e"
  shows "\<exists>m. r = of_int m * pow2 (ulp_exp q)"
proof -
  have "pow2 e = 2 ^ nat (e - ulp_exp q) * pow2 (ulp_exp q)"
    using assms(2) pow2_add [of "e - ulp_exp q" "ulp_exp q"] pow2_nat [of "nat (e - ulp_exp q)"] by simp
  then have "r = of_int (n * 2 ^ nat (e - ulp_exp q)) * pow2 (ulp_exp q)" using assms(1) by simp
  then show ?thesis by blast
qed

lemma fine_below_power:
  assumes "r = of_int n * pow2 e" "n \<le> 2 ^ 53" "- 1074 \<le> e" "\<not> ulp_exp q \<le> e"
  shows "r \<le> pow2 (flog2 q)" "pow2 (flog2 q) = of_int (2 ^ 52) * pow2 (ulp_exp q)"
proof -
  have u: "ulp_exp q = flog2 q - 52" using assms(3,4) by (auto simp: ulp_exp_def max_def split: if_splits)
  then show p: "pow2 (flog2 q) = of_int (2 ^ 52) * pow2 (ulp_exp q)"
    using pow2_add [of 52 "flog2 q - 52"] pow2_nat [of 52] by simp
  have "r \<le> of_int (2 ^ 53) * pow2 e" using assms(1,2) by (simp add: mult_right_mono less_imp_le del: of_int_power)
  also have "\<dots> = pow2 (53 + e)" using pow2_nat [of 53] by (simp add: pow2_add)
  also have "\<dots> \<le> pow2 (flog2 q)" using assms(4) u by (intro pow2_mono) simp
  finally show "r \<le> pow2 (flog2 q)" .
qed

text \<open>Rounding does not cross a representable value.\<close>

lemma round_mag_ge:
  assumes "0 < q" "rep64 r" "r \<le> q"
  shows "r \<le> round_mag q"
proof -
  have multiple: "of_int m * pow2 (ulp_exp q) \<le> round_mag q" if "of_int m * pow2 (ulp_exp q) \<le> q" for m
  proof -
    have "of_int m \<le> q / pow2 (ulp_exp q)" using that by (simp add: pos_le_divide_eq)
    from round_half_even_ge [OF this] show ?thesis
      by (simp add: round_mag_def mult_right_mono less_imp_le del: round_half_even.simps)
  qed
  obtain n e where r: "r = of_int n * pow2 e" "n \<le> 2 ^ 53" "- 1074 \<le> e" using assms(2) by (auto simp: rep64_def)
  show ?thesis
  proof (cases "ulp_exp q \<le> e")
    case True
    with multiple_of_ulp [OF r(1)] multiple assms(3) show ?thesis by auto
  next
    case False
    note p = fine_below_power [OF r False]
    have "pow2 (flog2 q) \<le> round_mag q" using multiple [of "2 ^ 52"] flog2_spec(1) [OF assms(1)] unfolding p(2) by blast
    with p(1) show ?thesis by simp
  qed
qed

lemma round_mag_le:
  assumes "0 < q" "rep64 r" "q \<le> r"
  shows "round_mag q \<le> r"
proof -
  obtain n e where r: "r = of_int n * pow2 e" "n \<le> 2 ^ 53" "- 1074 \<le> e" using assms(2) by (auto simp: rep64_def)
  have "\<exists>m. r = of_int m * pow2 (ulp_exp q)"
  proof (cases "ulp_exp q \<le> e")
    case True
    then show ?thesis by (rule multiple_of_ulp [OF r(1)])
  next
    case False
    note p = fine_below_power [OF r False]
    with flog2_spec(1) [OF assms(1)] assms(3) have "r = of_int (2 ^ 52) * pow2 (ulp_exp q)" by simp
    then show ?thesis by blast
  qed
  then obtain m where m: "r = of_int m * pow2 (ulp_exp q)" ..
  with assms(3) have "q / pow2 (ulp_exp q) \<le> of_int m" by (simp add: pos_divide_le_eq)
  from round_half_even_le [OF this] show ?thesis
    by (simp add: m round_mag_def mult_right_mono less_imp_le del: round_half_even.simps)
qed

lemma flog2_below: "0 \<le> r \<Longrightarrow> r < pow2 1024 \<Longrightarrow> flog2 r < 1024"
proof (cases "r = 0")
  case True
  have "flog2 0 < 1024" by code_simp
  with True show ?thesis by simp
next
  case False
  assume "0 \<le> r" "r < pow2 1024"
  with False flog2_spec(1) [of r] have "pow2 (flog2 r) < pow2 1024" by simp
  then show ?thesis using pow2_mono [of 1024 "flog2 r"] by (cases "1024 \<le> flog2 r") auto
qed

section \<open>Results of rounding\<close>

text \<open>A finite result: a magnitude that is representable and below \<open>2\<^sup>1\<^sup>0\<^sup>2\<^sup>4\<close>.\<close>

definition rounded :: "f64 \<Rightarrow> bool" where
  "rounded x \<longleftrightarrow> f64_is_finite x \<and> rep64 \<bar>f64_val x\<bar> \<and> \<bar>f64_val x\<bar> < pow2 1024"

lemma rep64_0: "rep64 0"
  unfolding rep64_def by (intro exI [of _ 0]) simp

lemma rounded_zero [simp]: "rounded (Fin 0)" "rounded NegZero"
  by (simp_all add: rounded_def f64_is_finite_def rep64_0)

lemma rnd64_rounded:
  assumes "f64_is_finite (rnd64 q)"
  shows "rounded (rnd64 q)"
proof (cases "q = 0")
  case True
  then show ?thesis by (simp add: rnd64_mag)
next
  case False
  then have q: "0 < \<bar>q\<bar>" by simp
  note m = round_mag_rep [OF q]
  have fin: "flog2 (round_mag \<bar>q\<bar>) < 1024" using assms False by (auto simp: rnd64_mag f64_is_finite_def split: if_splits)
  have "round_mag \<bar>q\<bar> < pow2 1024"
  proof (cases "round_mag \<bar>q\<bar> = 0")
    case False
    with m(2) have "round_mag \<bar>q\<bar> < pow2 (flog2 (round_mag \<bar>q\<bar>) + 1)" by (intro flog2_spec(2)) simp
    also have "\<dots> \<le> pow2 1024" using fin by (intro pow2_mono) simp
    finally show ?thesis .
  qed simp
  with m False fin show ?thesis by (auto simp: rnd64_mag rounded_def f64_is_finite_def rep64_0)
qed

text \<open>Adding something positive to a result of rounding does not go below it.\<close>

lemma rnd64_up:
  assumes "rounded x" "0 < s"
  shows "rnd64 (f64_val x + s) = PosInf \<or> f64_is_finite (rnd64 (f64_val x + s)) \<and> f64_val x \<le> f64_val (rnd64 (f64_val x + s))"
proof -
  let ?v = "f64_val x" and ?q = "f64_val x + s"
  have x: "rep64 \<bar>?v\<bar>" "\<bar>?v\<bar> < pow2 1024" using assms(1) by (simp_all add: rounded_def)
  consider "?q = 0" | "0 < ?q" | "?q < 0" by linarith
  then show ?thesis
  proof cases
    case 1
    then show ?thesis using assms(2) by (simp add: rnd64_mag f64_is_finite_def)
  next
    case 2
    have "?v \<le> round_mag ?q"
    proof (cases "0 \<le> ?v")
      case True
      with round_mag_ge [OF 2 x(1)] assms(2) show ?thesis by simp
    next
      case False
      with round_mag_rep(2) [OF 2] show ?thesis by simp
    qed
    with 2 show ?thesis by (auto simp: rnd64_mag f64_is_finite_def)
  next
    case 3
    then have q: "0 < \<bar>?q\<bar>" "\<bar>?q\<bar> \<le> \<bar>?v\<bar>" using assms(2) by linarith+
    have le: "round_mag \<bar>?q\<bar> \<le> \<bar>?v\<bar>" by (rule round_mag_le [OF q(1) x(1) q(2)])
    then have "flog2 (round_mag \<bar>?q\<bar>) < 1024" using round_mag_rep(2) [OF q(1)] x(2) by (intro flog2_below) simp_all
    with 3 le assms(2) show ?thesis by (auto simp: rnd64_mag f64_is_finite_def)
  qed
qed

lemma rounded_step:
  assumes "rounded x" "rounded y" "f64_val x < f64_val y"
  shows "f64_val x + pow2 (- 1074) \<le> f64_val y"
proof -
  have int: "\<exists>n. f64_val z = of_int n * pow2 (- 1074)" if z: "rounded z" for z
  proof -
    obtain n e where r: "\<bar>f64_val z\<bar> = of_int n * pow2 e" "- 1074 \<le> e"
      using z by (auto simp: rounded_def rep64_def)
    have "pow2 e = of_int (2 ^ nat (e + 1074)) * pow2 (- 1074)"
      using r(2) pow2_add [of "e + 1074" "- 1074"] pow2_nat [of "nat (e + 1074)"] by simp
    with r(1) have "\<bar>f64_val z\<bar> = of_int (n * 2 ^ nat (e + 1074)) * pow2 (- 1074)" by simp
    then have "f64_val z = of_int (n * 2 ^ nat (e + 1074)) * pow2 (- 1074) \<or>
        f64_val z = of_int (- (n * 2 ^ nat (e + 1074))) * pow2 (- 1074)" by (auto simp: abs_if split: if_splits)
    then show ?thesis by blast
  qed
  from int [OF assms(1)] int [OF assms(2)] obtain a b where
    ab: "f64_val x = of_int a * pow2 (- 1074)" "f64_val y = of_int b * pow2 (- 1074)" by blast
  with assms(3) have "a < b" by simp
  then have "(of_int (a + 1) :: rat) \<le> of_int b" by (simp only: of_int_le_iff)
  then have "of_int (a + 1) * pow2 (- 1074) \<le> of_int b * pow2 (- 1074)" by (intro mult_right_mono) (simp_all add: less_imp_le)
  with ab show ?thesis by (simp add: algebra_simps)
qed

end
