(* ===== verification/GraphViewProps.thy ===== *)
theory GraphViewProps
  imports GraphView Rounding
begin

text \<open>
  What the graph view guarantees: the colours of up to eight series differ, the one highlighted line
  of the details pane is the selected series or key and is on the screen, and the ticks of an axis
  end unless a step is lost in rounding.
\<close>

section \<open>Colours\<close>

lemma probe_free:
  assumes "k < n" "\<not> occupied ! ((slot + k) mod length occupied)" "slot < length occupied"
  shows "\<not> occupied ! probe n occupied slot \<and> probe n occupied slot < length occupied"
  using assms
proof (induction n occupied slot arbitrary: k rule: probe.induct)
  case (2 n occupied slot)
  have "length occupied > 0" using 2(4) by linarith
  then have next_slot: "(slot + 1) mod length occupied < length occupied" by (rule mod_less_divisor)
  show ?case
  proof (cases k)
    case (Suc k')
    have "((slot + 1) mod length occupied + k') mod length occupied = (slot + k) mod length occupied"
      using Suc by (simp add: mod_add_left_eq)
    with 2(1) [of k'] 2(2-4) Suc next_slot show ?thesis by auto
  qed (use 2 in auto)
qed simp

lemma probe_below: "slot < length occupied \<Longrightarrow> probe n occupied slot < length occupied"
proof (induction n occupied slot rule: probe.induct)
  case (2 n occupied slot)
  then have "length occupied > 0" by linarith
  then have "(slot + 1) mod length occupied < length occupied" by (rule mod_less_divisor)
  with 2 show ?case by simp
qed simp

lemma slot_reachable:
  assumes "slot < p" "j < (p :: nat)"
  shows "\<exists>k<p. (slot + k) mod p = j"
proof (cases "slot \<le> j")
  case True
  then show ?thesis using assms by (intro exI [of _ "j - slot"]) auto
next
  case False
  then have "(slot + (j + p - slot)) mod p = j" using assms by simp
  with False assms show ?thesis by (intro exI [of _ "j + p - slot"]) auto
qed

text \<open>After the keys \<open>ks\<close>: the occupied slots are those given out, one each.\<close>

definition colors_ok :: "series_key list \<Rightarrow> bool list \<times> (series_key \<rightharpoonup> usize) \<Rightarrow> bool" where
  "colors_ok ks s \<longleftrightarrow> length (fst s) = 8 \<and> dom (snd s) = set ks \<and> inj_on (snd s) (set ks) \<and>
     ran (snd s) = {j. j < 8 \<and> fst s ! j}"

lemma palette_eight: "length SERIES_PALETTE = 8"
  by (simp add: SERIES_PALETTE_def)

lemma assign_one_ok:
  assumes "colors_ok ks s" "distinct (ks @ [k])" "length ks < 8"
  shows "colors_ok (ks @ [k]) (assign_one f k s)"
proof -
  obtain occ asg where s: "s = (occ, asg)" by (cases s)
  have ok: "length occ = 8" "dom asg = set ks" "inj_on asg (set ks)" "ran asg = {j. j < 8 \<and> occ ! j}"
    using assms(1) by (simp_all add: colors_ok_def s)
  define slot where "slot = probe 8 occ (f k mod 8)"
  have "asg ` dom asg = Some ` ran asg"
  proof
    show "asg ` dom asg \<subseteq> Some ` ran asg" by (auto intro: ranI)
    show "Some ` ran asg \<subseteq> asg ` dom asg"
    proof
      fix y assume "y \<in> Some ` ran asg"
      then obtain a b where "asg a = Some b" "y = Some b" unfolding ran_def by blast
      then show "y \<in> asg ` dom asg" by (metis domI imageI)
    qed
  qed
  then have "asg ` set ks = Some ` ran asg" by (simp only: ok(2))
  then have "card (Some ` ran asg) = card (set ks)" using card_image [OF ok(3)] by simp
  then have "card (ran asg) = card (set ks)" by (simp add: card_image)
  also have "\<dots> < 8" using assms(2,3) by (simp add: distinct_card)
  finally have "ran asg \<noteq> {..<8}" by (metis card_lessThan less_irrefl)
  then have "{j. j < 8 \<and> occ ! j} \<noteq> {..<8}" by (simp only: ok(4) not_False_eq_True)
  then obtain j where j: "j < 8" "\<not> occ ! j" by blast
  have "f k mod 8 < 8" by simp
  then obtain d where "d < 8" "(f k mod 8 + d) mod 8 = j" using slot_reachable j(1) by blast
  with probe_free [of d 8 occ "f k mod 8"] j(2) ok(1) have slot: "\<not> occ ! slot" "slot < 8"
    by (simp_all add: slot_def)
  have one: "assign_one f k s = (occ[slot := True], asg(k \<mapsto> slot))"
    by (simp add: assign_one_def s slot_def palette_eight Let_def)
  have k: "k \<notin> set ks" using assms(2) by simp
  have "slot \<notin> ran asg" using slot ok(4) by simp
  then have fresh: "Some slot \<notin> asg ` set ks" by (metis imageE ranI)
  have "inj_on (asg(k \<mapsto> slot)) (set ks)"
    using ok(3) k inj_on_cong [of "set ks" "asg(k \<mapsto> slot)" asg] by (metis fun_upd_other)
  moreover have "(asg(k \<mapsto> slot)) ` (set ks - {k}) = asg ` set ks" using k by (auto simp: image_iff)
  ultimately have "inj_on (asg(k \<mapsto> slot)) (set (ks @ [k]))"
    using fresh by simp
  moreover have "ran (asg(k \<mapsto> slot)) = insert slot (ran asg)"
    using k ok(2) by (intro ran_map_upd) (metis domIff)
  ultimately show ?thesis
    using ok slot by (auto simp: colors_ok_def one nth_list_update)
qed

lemma assign_fold_ok:
  "colors_ok ks0 s \<Longrightarrow> distinct (ks0 @ ks) \<Longrightarrow> length (ks0 @ ks) \<le> 8 \<Longrightarrow>
   colors_ok (ks0 @ ks) (fold (assign_one f) ks s)"
proof (induction ks arbitrary: ks0 s)
  case (Cons k ks)
  have "colors_ok (ks0 @ [k]) (assign_one f k s)"
    using Cons.prems by (intro assign_one_ok) auto
  from Cons.IH [OF this] Cons.prems(2,3) show ?case by simp
qed simp

text \<open>C36. As long as no more than eight series exist, every series has a colour of its own, whatever the
  hash prefers.\<close>

theorem series_colors_distinct:
  assumes "distinct (map fst (gs_series (g_store gs)))" "length (gs_series (g_store gs)) \<le> 8"
    "k \<in> fst ` set (gs_series (g_store gs))" "l \<in> fst ` set (gs_series (g_store gs))" "k \<noteq> l"
  shows "\<exists>i j. assign_series_colors hash gs k = Some i \<and> assign_series_colors hash gs l = Some j \<and>
    i < 8 \<and> j < 8 \<and> series_color i True \<noteq> series_color j True"
proof -
  let ?ks = "alpha_series_keys gs" and ?s = "assign_series_colors hash gs"
  have ks: "distinct ?ks" "length ?ks \<le> 8" "set ?ks = fst ` set (gs_series (g_store gs))"
    using assms(1,2) by (simp_all add: alpha_series_keys_def)
  have "colors_ok [] (replicate (length SERIES_PALETTE) False, Map.empty)"
    by (auto simp: colors_ok_def palette_eight)
  from assign_fold_ok [OF this, of ?ks] ks(1,2)
  have ok: "dom ?s = set ?ks" "inj_on ?s (set ?ks)" "ran ?s \<subseteq> {..<8}"
    by (auto simp: colors_ok_def assign_series_colors_def)
  obtain i j where ij: "?s k = Some i" "?s l = Some j" using ok(1) ks(3) assms(3,4) by blast
  have "i \<in> ran ?s" "j \<in> ran ?s" using ij by (auto intro: ranI)
  then have b: "i < 8" "j < 8" using ok(3) by auto
  have "i \<noteq> j" using inj_onD [OF ok(2), of k l] ij ks(3) assms(3-5) by auto
  moreover have "distinct SERIES_PALETTE" by (simp add: SERIES_PALETTE_def)
  ultimately show ?thesis using ij b by (auto simp: series_color_def palette_eight nth_eq_iff_index_eq)
qed

text \<open>A graph of two series.\<close>

definition two_series :: graph_state where
  "two_series = (graph_new [''a''])\<lparr>g_store := (store_new (Fin 1))
     \<lparr>gs_series := [([(''k'', ''x'')], series_default), ([(''k'', ''y'')], series_default)]\<rparr>\<rparr>"

lemma series_colors_distinct_witness:
  "\<exists>i j. assign_series_colors (\<lambda>s k. 3) two_series [(''k'', ''x'')] = Some i \<and>
     assign_series_colors (\<lambda>s k. 3) two_series [(''k'', ''y'')] = Some j \<and>
     series_color i True \<noteq> series_color j True"
  using series_colors_distinct [of two_series "[(''k'', ''x'')]" "[(''k'', ''y'')]" "\<lambda>s k. 3"]
  by (auto simp: two_series_def)

section \<open>The cursor of the details pane\<close>

lemma length_series_rows: "length (series_rows gs slots) = length (series_keys gs)"
  by (simp add: series_rows_def Let_def)

definition reversed_line :: "tui_line \<Rightarrow> bool" where
  "reversed_line l \<longleftrightarrow> list_ex (\<lambda>(s, st). Reversed \<in> sy_modifiers st) (tl_spans l)"

text \<open>Only the line at the cursor is highlighted; without one, no line is.\<close>

definition highlighted :: "tui_line list \<Rightarrow> usize option \<Rightarrow> bool" where
  "highlighted ls c \<longleftrightarrow> (\<forall>i. c = Some i \<longrightarrow> i < length ls) \<and> (\<forall>j < length ls. reversed_line (ls ! j) \<longleftrightarrow> c = Some j)"

lemma reversed_simps [simp]:
  "\<not> reversed_line (text_line s)" "\<not> reversed_line blank"
  "reversed_line (line_of [(s, st)]) \<longleftrightarrow> Reversed \<in> sy_modifiers st"
  by (simp_all add: reversed_line_def blank_def text_line_def line_of_def raw_def style_default_def)

lemma highlighted_plain: "\<forall>l \<in> set ls. \<not> reversed_line l \<Longrightarrow> highlighted ls None"
  by (simp add: highlighted_def)

lemma highlighted_append:
  "highlighted xs c \<Longrightarrow> \<forall>l \<in> set ys. \<not> reversed_line l \<Longrightarrow> highlighted (xs @ ys) c"
  "\<forall>l \<in> set xs. \<not> reversed_line l \<Longrightarrow> highlighted ys (Some i) \<Longrightarrow> highlighted (xs @ ys) (Some (length xs + i))"
  by (auto simp: highlighted_def nth_append)

lemma row_style_reversed: "Reversed \<in> sy_modifiers (row_style colorize b r) \<longleftrightarrow> b"
  by (simp add: row_style_def add_modifiers_def fg_def style_default_def Let_def)

text \<open>The cursor of a table of series, and of the list of keys.\<close>

lemma table_highlighted:
  assumes "series_table_lines gs c colorize slots = (h, rs, tc)" "\<And>i. c = Some i \<Longrightarrow> i < length (series_keys gs)"
  shows "tc = c \<and> highlighted rs c \<and> length rs = max 1 (length (series_keys gs))"
proof (cases "series_keys gs = []")
  case True
  with assms have "rs = [text_line ''  (no series yet)'']" "c = None" "tc = None"
    by (auto simp: series_table_lines_def) (metis not_None_eq)
  with True show ?thesis by (simp add: highlighted_plain)
next
  case False
  then have "length (series_rows gs slots) = length (series_keys gs)" "0 < length (series_keys gs)"
    by (simp_all add: length_series_rows)
  moreover from this(2) have "max 1 (length (series_keys gs)) = length (series_keys gs)" by (intro max_absorb2) linarith
  ultimately show ?thesis using False assms
    by (auto simp: series_table_lines_def highlighted_def row_style_reversed Let_def split: option.splits if_splits)
qed

lemma clamped [simp]: "xs \<noteq> [] \<Longrightarrow> min i (length xs - Suc 0) < length xs"
  by (simp add: min_less_iff_disj)

lemma candidates_highlighted:
  "(\<And>i. c = Some i \<Longrightarrow> i < length candidates) \<Longrightarrow> highlighted (candidate_lines gs candidates c) c"
  by (cases c) (auto simp: candidate_lines_def highlighted_def add_modifiers_def style_default_def)

text \<open>The line of the item selected: the series come first, one line each, or one line that says that
  there is none; two lines below them the keys, shown only with the pane in focus.\<close>

definition graph_items :: "model \<Rightarrow> graph_state \<Rightarrow> nat \<times> nat" where
  "graph_items m gs =
     (length (series_keys gs),
      if g_focus gs = GraphDetails then length (candidate_split_keys_for (m_agg m) (g_locked_stack gs)) else 0)"

definition graph_cursor :: "model \<Rightarrow> graph_state \<Rightarrow> usize option" where
  "graph_cursor m gs =
     (case graph_items m gs of (n, k) \<Rightarrow>
        if n + k = 0 then None
        else let s = min (g_details_selected gs) (n + k - 1)
             in Some (if s < n then s else max 1 n + 2 + (s - n)))"

lemma compact_highlighted:
  assumes "g_focus gs \<noteq> GraphDetails" "compact_details gs colorize slots = (st, body, c)"
  shows "c = graph_cursor m gs \<and> highlighted body c"
proof -
  let ?n = "length (series_keys gs)"
  define i where "i = (if ?n = 0 then None else Some (min (g_details_selected gs) (?n - 1)))"
  obtain h rs tc where t: "series_table_lines gs i colorize slots = (h, rs, tc)" by (metis prod_cases3)
  then have "body = rs" "c = tc" using assms(2) by (auto simp: compact_details_def i_def Let_def)
  moreover have "\<And>j. i = Some j \<Longrightarrow> j < ?n" by (auto simp: i_def split: if_splits)
  then have "tc = i \<and> highlighted rs i" using table_highlighted [OF t] by blast
  moreover have "i = graph_cursor m gs" using assms(1) by (auto simp: i_def graph_cursor_def graph_items_def Let_def)
  ultimately show ?thesis by simp
qed

lemma expanded_highlighted:
  assumes "g_focus gs = GraphDetails" "expanded_details m gs colorize slots = (st, body, c)"
  shows "c = graph_cursor m gs \<and> highlighted body c"
proof -
  let ?n = "length (series_keys gs)" and ?cs = "candidate_split_keys_for (m_agg m) (g_locked_stack gs)"
  define sel where "sel = (if ?n + length ?cs = 0 then None else Some (min (g_details_selected gs) (?n + length ?cs - 1)))"
  define sc where "sc = (case sel of Some s \<Rightarrow> if s < ?n then Some s else None | None \<Rightarrow> None)"
  define cc where "cc = (case sel of Some s \<Rightarrow> if ?n \<le> s then Some (s - ?n) else None | None \<Rightarrow> None)"
  obtain h rs tc where t: "series_table_lines gs sc colorize slots = (h, rs, tc)" by (metis prod_cases3)
  define before where "before = rs @ [blank, text_line ''metadata keys  (Space splits/unsplits, Tab to leave):'']"
  have e: "body = before @ candidate_lines gs ?cs cc" "c = (case cc of Some k \<Rightarrow> Some (length before + k) | None \<Rightarrow> tc)"
    using assms(2) unfolding expanded_details_def Let_def sel_def [symmetric] sc_def [symmetric] cc_def [symmetric] t
    by (auto simp: before_def split: option.splits)
  have T: "tc = sc" "highlighted rs sc" "length rs = max 1 ?n"
  proof -
    have "\<And>j. sc = Some j \<Longrightarrow> j < ?n" by (auto simp: sc_def split: option.splits if_splits)
    from table_highlighted [OF t this] show "tc = sc" "highlighted rs sc" "length rs = max 1 ?n" by blast+
  qed
  have K: "highlighted (candidate_lines gs ?cs cc) cc"
  proof (rule candidates_highlighted)
    fix k assume "cc = Some k"
    then obtain s where s: "sel = Some s" "?n \<le> s" "k = s - ?n" by (auto simp: cc_def split: option.splits if_splits)
    then have "?n + length ?cs \<noteq> 0" "s \<le> ?n + length ?cs - 1" by (auto simp: sel_def split: if_splits)
    with s show "k < length ?cs" by linarith
  qed
  have cur: "graph_cursor m gs = (case sel of None \<Rightarrow> None | Some s \<Rightarrow> Some (if s < ?n then s else length before + (s - ?n)))"
    using assms(1) T(3) by (simp add: graph_cursor_def graph_items_def sel_def before_def Let_def)
  show ?thesis
  proof (cases cc)
    case None
    then have "c = sc" using e(2) T(1) by simp
    moreover have "highlighted before sc" unfolding before_def by (rule highlighted_append(1) [OF T(2)]) simp
    moreover have "\<forall>l \<in> set (candidate_lines gs ?cs cc). \<not> reversed_line l"
      using K None by (auto simp: highlighted_def in_set_conv_nth)
    ultimately show ?thesis using None e(1) cur highlighted_append(1)
      by (auto simp: sc_def cc_def split: option.splits if_splits)
  next
    case (Some k)
    then have "sc = None" by (auto simp: sc_def cc_def split: option.splits if_splits)
    then have "\<forall>l \<in> set before. \<not> reversed_line l" using T(2) by (auto simp: before_def highlighted_def in_set_conv_nth)
    with K Some e have "highlighted body c" by (simp add: highlighted_append(2))
    moreover have "c = graph_cursor m gs" using Some e(2) cur by (auto simp: cc_def split: option.splits if_splits)
    ultimately show ?thesis by simp
  qed
qed

lemma details_highlighted:
  "dp_cursor (render_graph_details m gs colorize slots) = graph_cursor m gs \<and>
   highlighted (dp_body (render_graph_details m gs colorize slots)) (graph_cursor m gs)"
  using expanded_highlighted [of gs m colorize slots] compact_highlighted [of gs colorize slots _ _ _ m]
  by (auto simp: render_graph_details_def Let_def split: prod.splits)

text \<open>The cursor of the graph's details pane is on the screen: however long the list of series and
  keys is, the line it stands on is one of the lines shown after scrolling, and it is the one that is
  highlighted; and scrolling leaves no empty line below the list.\<close>

theorem cursor_on_screen:
  assumes "dp_cursor (render_graph_details m gs colorize slots) = Some line" "0 < h"
    "length (dp_body (render_graph_details m gs colorize slots)) < 2 ^ 16"
  shows "\<exists>top body. body = dp_body (render_graph_details m gs colorize slots) \<and>
    top = unat (body_scroll (Some line) (length body) h) \<and>
    line < length body \<and> reversed_line (body ! line) \<and> top \<le> line \<and> line < top + h \<and>
    top + min h (length body) \<le> length body"
proof -
  let ?body = "dp_body (render_graph_details m gs colorize slots)"
  have line: "line < length ?body \<and> reversed_line (?body ! line)"
    using assms(1) details_highlighted [of m gs colorize slots] by (auto simp: highlighted_def)
  define t where "t = min (line - h div 2) (length ?body - h)"
  have "unat (of_nat t :: u16) = t"
    using assms(3) by (simp add: unat_of_nat t_def)
  then have s: "unat (body_scroll (Some line) (length ?body) h) = (if h < length ?body then t else 0)"
    using assms(2) by (simp add: body_scroll_def t_def)
  define u where "u = (if h < length ?body then t else 0)"
  have "line < length ?body" using line by simp
  then have "u \<le> line" "line < u + h" "u + min h (length ?body) \<le> length ?body"
    using assms(2) by (auto simp: u_def t_def)
  with line s [folded u_def] show ?thesis by (intro exI [of _ u] exI [of _ ?body]) simp
qed

lemma cursor_on_screen_witness:
  "\<exists>body. body = dp_body (render_graph_details (model_new 4) two_series True Map.empty) \<and>
     reversed_line (body ! 0) \<and> unat (body_scroll (Some 0) (length body) 1) = 0"
proof -
  have keys: "series_keys two_series = [[(''k'', ''x'')], [(''k'', ''y'')]]" by code_simp
  have d: "dp_cursor (render_graph_details (model_new 4) two_series True Map.empty) = Some 0"
    "length (dp_body (render_graph_details (model_new 4) two_series True Map.empty)) = 2"
    using keys length_series_rows [of two_series Map.empty]
    by (simp_all add: render_graph_details_def compact_details_def series_table_lines_def two_series_def graph_new_def Let_def)
  from cursor_on_screen [OF d(1), of 1] d(2) show ?thesis by auto
qed

section \<open>Ticks without end\<close>

text \<open>The values the loop of \<open>axis_ticks\<close> goes through, and the one it stops above.\<close>

definition tick :: "f64 \<Rightarrow> f64 \<Rightarrow> nat \<Rightarrow> f64" where
  "tick mn step k = ((\<lambda>v. f64_add v step) ^^ k) mn"

definition tick_limit :: "f64 \<Rightarrow> f64 \<Rightarrow> f64" where
  "tick_limit mx step = f64_add mx (f64_mul step (Fin (1 / 2)))"

lemma tick_simps: "tick mn step 0 = mn" "tick mn step (Suc k) = f64_add (tick mn step k) step"
  by (simp_all add: tick_def)

lemma tick_first: "tick (f64_add mn step) step k = tick mn step (Suc k)"
  by (induction k) (simp_all add: tick_simps)

lemma ticks_from_ends: "\<not> f64_le (tick v step k) limit \<Longrightarrow> \<exists>r. ticks_from limit step v out = Some r"
proof (induction k arbitrary: v out)
  case 0
  then show ?case by (simp add: ticks_from.simps tick_simps)
next
  case (Suc k)
  then show ?case using Suc.IH [of "f64_add v step" "out @ [v]"] by (cases "f64_le v limit") (simp_all add: ticks_from.simps tick_first)
qed

lemma ticks_from_passes:
  assumes "ticks_from limit step v out = Some r"
  shows "\<exists>k. \<not> f64_le (tick v step k) limit"
proof (rule ticks_from.raw_induct [OF _ assms, of "\<lambda>l s v out r. \<exists>k. \<not> f64_le (tick v s k) l"])
  fix f :: "f64 \<Rightarrow> f64 \<Rightarrow> f64 \<Rightarrow> f64 list \<Rightarrow> f64 list option" and l s v :: f64 and out r :: "f64 list"
  assume ih: "\<And>l s v out r. f l s v out = Some r \<Longrightarrow> \<exists>k. \<not> f64_le (tick v s k) l"
    and body: "(if f64_le v l then f l s (f64_add v s) (out @ [v]) else Some out) = Some r"
  show "\<exists>k. \<not> f64_le (tick v s k) l"
  proof (cases "f64_le v l")
    case True
    with body ih [of l s "f64_add v s" "out @ [v]" r] show ?thesis unfolding tick_first by auto
  next
    case False
    then show ?thesis by (intro exI [of _ 0]) (simp add: tick_simps)
  qed
qed

lemma ticks_from_none: "ticks_from limit step v out = None \<longleftrightarrow> (\<forall>k. f64_le (tick v step k) limit)"
  using ticks_from_ends ticks_from_passes by (metis not_None_eq)

text \<open>A step is lost when the axis reaches a value that adding it, rounded, does not change.\<close>

definition step_lost :: "f64 \<Rightarrow> f64 \<Rightarrow> f64 \<Rightarrow> bool" where
  "step_lost mn mx step \<longleftrightarrow> f64_lt (Fin 0) step \<and>
     (\<exists>k. (\<forall>j \<le> k. f64_le (tick mn step j) (tick_limit mx step)) \<and> f64_add (tick mn step k) step = tick mn step k)"

lemma tick_stays:
  assumes "f64_add (tick v step k) step = tick v step k"
  shows "tick v step (k + j) = tick v step k"
  by (induction j) (simp_all add: tick_simps assms)

text \<open>Otherwise the values leave every bound: they are multiples of the smallest float.\<close>

lemma tick_finite:
  assumes "\<forall>k. f64_le (tick v (Fin s) k) limit" "\<forall>k. f64_add (tick v (Fin s) k) (Fin s) \<noteq> tick v (Fin s) k" "0 < s"
  shows "f64_is_finite (tick v (Fin s) k)" "tick v (Fin s) (Suc k) = rnd64 (f64_val (tick v (Fin s) k) + s)"
proof -
  let ?t = "tick v (Fin s) k"
  have "?t \<noteq> NaN" using assms(1) by (metis f64_nan_compare(3))
  moreover have "?t \<noteq> PosInf" "?t \<noteq> NegInf"
    using assms(2) [rule_format, of k] by (auto simp: f64_add_def f64_is_finite_def)
  ultimately show fin: "f64_is_finite ?t" by (simp add: f64_is_finite_def)
  then show "tick v (Fin s) (Suc k) = rnd64 (f64_val ?t + s)"
    by (simp add: tick_simps f64_add_def f64_is_finite_def)
qed

lemma tick_unbounded:
  assumes "\<forall>k. f64_le (tick v (Fin s) k) limit" "\<forall>k. f64_add (tick v (Fin s) k) (Fin s) \<noteq> tick v (Fin s) k" "0 < s"
  shows False
proof -
  let ?t = "tick v (Fin s)"
  note fin = tick_finite [OF assms]
  have out: "rounded (?t (Suc k))" for k using fin(1) [of "Suc k"] fin(2) [of k] rnd64_rounded by metis
  have le: "f64_val (?t (Suc k)) \<le> f64_val (?t (Suc (Suc k)))" for k
    using rnd64_up [OF out assms(3), of k] fin(1) [of "Suc (Suc k)"] fin(2) [of "Suc k"] by (auto simp: f64_is_finite_def)
  have less: "f64_val (?t (Suc k)) < f64_val (?t (Suc (Suc k)))" for k
  proof (rule ccontr)
    assume "\<not> ?thesis"
    with le [of k] have "f64_val (?t (Suc k)) = f64_val (?t (Suc (Suc k)))" by simp
    with fin(2) [of "Suc k"] fin(2) [of "Suc (Suc k)"] have "?t (Suc (Suc (Suc k))) = ?t (Suc (Suc k))" by simp
    with assms(2) [rule_format, of "Suc (Suc k)"] show False by (simp only: tick_simps(2))
  qed
  have grown: "f64_val (?t 1) + of_nat k * pow2 (- 1074) \<le> f64_val (?t (Suc k))" for k
  proof (induction k)
    case (Suc k)
    with rounded_step [OF out out less, of k] show ?case by (simp add: algebra_simps)
  qed simp
  obtain k :: nat where "2 * pow2 1024 / pow2 (- 1074) < of_nat k" using reals_Archimedean2 by blast
  then have "2 * pow2 1024 < of_nat k * pow2 (- 1074)" by (simp add: pos_divide_less_eq)
  moreover have "\<bar>f64_val (?t 1)\<bar> < pow2 1024" "\<bar>f64_val (?t (Suc k))\<bar> < pow2 1024"
    using out [of 0] out [of k] by (simp_all add: rounded_def)
  ultimately show False using grown [of k] by linarith
qed

lemma step_positive: "step \<noteq> NaN \<Longrightarrow> \<not> f64_le step (Fin 0) \<longleftrightarrow> f64_lt (Fin 0) step"
  using f64_not_lt [of "Fin 0" step] by auto

lemma axis_ticks_none: "axis_ticks mn mx step = None \<longleftrightarrow> step_lost mn mx step"
proof
  assume none: "axis_ticks mn mx step = None"
  then have le: "\<forall>k. f64_le (tick mn step k) (tick_limit mx step)" and pos: "\<not> f64_le step (Fin 0)"
    by (auto simp: axis_ticks_def tick_limit_def ticks_from_none split: if_splits)
  have "f64_le mn (tick_limit mx step)" using le [rule_format, of 0] by (simp add: tick_simps)
  then have "step \<noteq> NaN" by (auto simp: tick_limit_def f64_mul_def f64_add_def)
  with pos have pos: "f64_lt (Fin 0) step" by (simp add: step_positive)
  have "\<exists>k. f64_add (tick mn step k) step = tick mn step k"
  proof (cases step)
    case PosInf
    have "tick mn step 1 \<noteq> NaN" using le by (metis f64_nan_compare(3))
    then have "tick mn step 1 = PosInf" using PosInf by (auto simp: tick_simps f64_add_def f64_is_finite_def split: if_splits)
    then show ?thesis using PosInf by (intro exI [of _ 1]) (simp add: f64_add_def f64_is_finite_def)
  next
    case (Fin s)
    then have "0 < s" using pos by (simp add: f64_lt_def)
    with Fin le tick_unbounded [of mn s] show ?thesis by blast
  qed (use pos in \<open>simp_all add: f64_lt_def\<close>)
  with le pos show "step_lost mn mx step" by (auto simp: step_lost_def)
next
  assume "step_lost mn mx step"
  then obtain k where k: "f64_lt (Fin 0) step" "\<forall>j \<le> k. f64_le (tick mn step j) (tick_limit mx step)"
      "f64_add (tick mn step k) step = tick mn step k" by (auto simp: step_lost_def)
  have "f64_le (tick mn step i) (tick_limit mx step)" for i
    using k(2) tick_stays [OF k(3), of "i - k"] by (cases "i \<le> k") auto
  moreover have "\<not> f64_le step (Fin 0)" using k(1) step_positive [of step] by (cases "step = NaN") auto
  ultimately show "axis_ticks mn mx step = None" by (simp add: axis_ticks_def ticks_from_none flip: tick_limit_def)
qed

text \<open>The ticks of an axis never end, and the list of ticks grows without bound, when the axis starts
  at a value so large that adding the step does not change it. Two durations of 54 years that differ
  by 256 ns are such values (a host whose clock is behind the epoch sends 0 as the time a span was
  opened).\<close>

theorem axis_ticks_never_end:
  assumes "f64_add mn step = mn" "f64_lt (Fin 0) step" "f64_le mn (f64_add mx (f64_mul step (Fin (1 / 2))))"
  shows "axis_ticks mn mx step = None"
  unfolding axis_ticks_none step_lost_def using assms
  by (intro conjI exI [of _ 0]) (simp_all add: tick_simps tick_limit_def)

text \<open>\<open>log10\<close> and \<open>powi\<close> as the example needs them: the logarithm of 64 is about 1.8.\<close>

definition example_libm :: libm where
  "example_libm = \<lparr>lm_log10 = (\<lambda>x. Fin (9 / 5)), lm_powi10 = (\<lambda>e. if e = 1 then Fin 10 else Fin 1)\<rparr>"

lemma axis_ticks_never_end_witness:
  "case nice_axis example_libm (Fin 1700000000000000000) (Fin 1700000000000000256) of
     (mn, mx, step) \<Rightarrow> axis_ticks mn mx step = None"
proof -
  have "nice_axis example_libm (Fin 1700000000000000000) (Fin 1700000000000000256) =
      (Fin 1700000000000000000, Fin 1700000000000000256, Fin 50)"
    by code_simp
  moreover have "f64_add (Fin 1700000000000000000) (Fin 50) = Fin 1700000000000000000" "f64_lt (Fin 0) (Fin 50)"
    "f64_le (Fin 1700000000000000000) (f64_add (Fin 1700000000000000256) (f64_mul (Fin 50) (Fin (1 / 2))))"
    by code_simp+
  ultimately show ?thesis using axis_ticks_never_end by simp
qed

end
