(* ===== verification/ExploreView.thy ===== *)
theory ExploreView
  imports Header AggProps ExploreProps
begin

text \<open>
  The explore and trace views (\<open>tracing-console/src/view/explore.rs\<close>): the status and hint lines, the
  table of instances with its columns, and the rows of one trace. chrono's rendering of an instant
  in local time is the argument \<open>local_ms\<close>. At the end: no row of a trace is ever missing its span
  or event, and its self time is the one the table counts.
\<close>

section \<open>The list of instances\<close>

definition arrow_left :: string where "arrow_left = map char_of [226 :: nat, 134, 144]"
definition arrow_right :: string where "arrow_right = map char_of [226 :: nat, 134, 146]"
definition arrows_up_down :: string where "arrows_up_down = map char_of [226 :: nat, 134, 145, 226, 134, 147]"

definition explore_status :: "explore_state \<Rightarrow> tui_line" where
  "explore_status es =
     line_of ([(''explore '', add_modifiers {Bold} style_default),
               raw (join (map char_of [32 :: nat, 226, 128, 186, 32]) (es_locked_stack es))] @
       (if effective_query es \<noteq> []
        then [(''   /'', add_modifiers {Dim} style_default), raw (effective_query es)] else []))"

definition search_style :: "modifier set \<Rightarrow> style" where
  "search_style ms = add_modifiers ms (fg ColBlack (bg ColWhite style_default))"

definition explore_hints :: "explore_state \<Rightarrow> tui_line" where
  "explore_hints es =
     line_of ((''('' @ arrow_left @ ''/'' @ arrow_right @ '' sort col, i invert, / search, Enter open, e/Esc back)'',
               add_modifiers {Dim} style_default) #
       (case es_search_input es of
          None \<Rightarrow> []
        | Some buf \<Rightarrow> [raw ''   /'', (if buf = [] then '' '' else buf, search_style {Bold}),
                        (''_'', search_style {Reversed, Bold})]))"

definition max_field_cols :: "u16 \<Rightarrow> nat" where
  "max_field_cols width = min ((unat width - 28) div 12) 3"

definition visible_fields :: "u16 \<Rightarrow> aggregator \<Rightarrow> explore_state \<Rightarrow> string list" where
  "visible_fields width a es =
     (let fs = distinguishing_fields (locked_stack_spans a es)
      in take (min (length fs) (max_field_cols width)) fs)"

definition header_cell :: "explore_state \<Rightarrow> string \<Rightarrow> bool \<Rightarrow> tui_span" where
  "header_cell es label active =
     (if active
      then (label @ '' '' @ direction_arrow (es_direction es), add_modifiers {Underlined, Bold} style_default)
      else (label, add_modifiers {Dim} style_default))"

definition header_cells :: "explore_state \<Rightarrow> string list \<Rightarrow> tui_span list" where
  "header_cells es fs =
     [header_cell es ''time'' (es_sort es = Timestamp), header_cell es ''latency'' (es_sort es = Latency)] @
     map (\<lambda>k. header_cell es k (es_sort es = Field k)) fs"

definition column_widths :: "string list \<Rightarrow> length_constraint list" where
  "column_widths fs = [CLength 14, CLength 12] @ map (\<lambda>k. CLength 14) fs"

definition format_span_timestamp :: "(int \<Rightarrow> string) \<Rightarrow> u64 \<Rightarrow> string" where
  "format_span_timestamp local_ms opened_at_ns = local_ms (sint opened_at_ns)"

definition instance_row :: "(int \<Rightarrow> string) \<Rightarrow> string list \<Rightarrow> wire_span \<Rightarrow> string list" where
  "instance_row local_ms fs s =
     [format_span_timestamp local_ms (ws_opened_at_ns s), fmt_ns (latency_ns s)] @ map (field_string s) fs"

record explore_table =
  et_title :: string
  et_header :: "tui_span list"
  et_widths :: "length_constraint list"
  et_rows :: "string list list"
  et_selected :: "usize option"
  et_help :: "tui_line option"

definition render_explore :: "(int \<Rightarrow> string) \<Rightarrow> u16 \<Rightarrow> model \<Rightarrow> explore_state \<Rightarrow> explore_table" where
  "render_explore local_ms width m es =
     (let spans = matching_spans (m_agg m) es;
          fs = visible_fields width (m_agg m) es;
          n = length spans
      in \<lparr>et_title = '' '' @ show_uint (int n) @ '' matching span'' @ (if n = 1 then [] else ''s'') @ '' '',
          et_header = header_cells es fs,
          et_widths = column_widths fs,
          et_rows = map (instance_row local_ms fs) spans,
          et_selected = (if spans \<noteq> [] then Some (min (es_selected es) (n - 1)) else None),
          et_help = map_option right_aligned (modal_status_bar m)\<rparr>)"

section \<open>The trace\<close>

record trace_cells =
  tc_time :: string
  tc_total :: string
  tc_self :: string
  tc_name :: "tui_span list"

definition missing_row :: "string \<Rightarrow> trace_cells" where
  "missing_row msg = \<lparr>tc_time = [], tc_total = [], tc_self = [], tc_name = [raw msg]\<rparr>"

definition fields_summary :: "(string \<times> wire_field_value) list \<Rightarrow> tui_span list" where
  "fields_summary fs =
     (if fs = [] then []
      else [raw ''  '', (join '' '' (map (\<lambda>(k, v). k @ ''='' @ to_string_value v) fs), add_modifiers {Dim} style_default)])"

definition self_of :: "aggregator \<Rightarrow> u64 \<Rightarrow> wire_span \<Rightarrow> u64" where
  "self_of a i s = sat_sub (latency_ns s) (child_sum_for a i)"

definition trace_marker :: "bool \<Rightarrow> bool \<Rightarrow> string" where
  "trace_marker has_children expanded =
     (if \<not> has_children then middle_dot @ '' ''
      else if expanded then map char_of [226 :: nat, 150, 188, 32]
      else map char_of [226 :: nat, 150, 182, 32])"

definition span_cells :: "(int \<Rightarrow> string) \<Rightarrow> u64 \<Rightarrow> bool \<Rightarrow> aggregator \<Rightarrow> u64 \<Rightarrow> usize \<Rightarrow> bool \<Rightarrow> bool \<Rightarrow> wire_span \<Rightarrow> trace_cells" where
  "span_cells local_ms root_open is_root a i depth has_children expanded s =
     \<lparr>tc_time = (if is_root then format_span_timestamp local_ms (ws_opened_at_ns s)
                 else ''+'' @ fmt_ns (sat_sub (ws_opened_at_ns s) root_open)),
      tc_total = fmt_ns (latency_ns s),
      tc_self = fmt_ns (self_of a i s),
      tc_name = [(concat (replicate depth ''  '') @ trace_marker has_children expanded, add_modifiers {Dim} style_default),
                 (ws_name s, add_modifiers {Bold} style_default)] @ fields_summary (ws_fields s)\<rparr>"

fun level_glyph :: "wire_level \<Rightarrow> string" where
  "level_glyph WError = ''E''"
| "level_glyph WWarn = ''W''"
| "level_glyph WInfo = ''I''"
| "level_glyph WDebug = ''D''"
| "level_glyph WTrace = ''T''"

definition event_cells :: "u64 \<Rightarrow> usize \<Rightarrow> wire_event \<Rightarrow> trace_cells" where
  "event_cells root_open depth e =
     \<lparr>tc_time = ''+'' @ fmt_ns (sat_sub (we_recorded_at_ns e) root_open), tc_total = [], tc_self = [],
      tc_name = [(concat (replicate depth ''  '') @ middle_dot @ '' ['' @ level_glyph (we_level e) @ ''] '',
                  add_modifiers {Dim} style_default), raw (we_name e)] @ fields_summary (we_fields e)\<rparr>"

definition trace_row_to_row :: "(int \<Rightarrow> string) \<Rightarrow> u64 \<Rightarrow> bool \<Rightarrow> aggregator \<Rightarrow> trace_row \<Rightarrow> trace_cells" where
  "trace_row_to_row local_ms root_open is_root a row =
     (case row of
        SpanRow i depth has_children expanded \<Rightarrow>
          (case span_by_id a i of
             None \<Rightarrow> missing_row ''(missing span)''
           | Some s \<Rightarrow> span_cells local_ms root_open is_root a i depth has_children expanded s)
      | EventRow parent_id idx depth \<Rightarrow>
          (case span_by_id a parent_id of
             None \<Rightarrow> missing_row ''(missing event)''
           | Some parent \<Rightarrow>
               (case get_at (ws_events parent) idx of
                  None \<Rightarrow> missing_row ''(missing event)''
                | Some e \<Rightarrow> event_cells root_open depth e)))"

record trace_table =
  tt_title :: string
  tt_hint :: tui_line
  tt_rows :: "trace_cells list"
  tt_selected :: "usize option"
  tt_message :: string

definition trace_hint :: tui_line where
  "trace_hint =
     right_aligned (line_of [('' '' @ arrows_up_down @ '' select '' @ column_rule @ '' '' @ arrow_left @ ''/'' @ arrow_right @
       '' collapse / expand '' @ column_rule @ '' Esc back '', add_modifiers {Dim} style_default)])"

definition trace_title :: "aggregator \<Rightarrow> trace_detail \<Rightarrow> nat \<Rightarrow> string" where
  "trace_title a td n =
     '' trace '' @ (case span_by_id a (td_root_id td) of Some s \<Rightarrow> ws_name s | None \<Rightarrow> ''#'' @ show_uint (uint (td_root_id td))) @
     '' ('' @ show_uint (int n) @ '' '' @ (if n = 1 then ''row'' else ''rows'') @ '') ''"

definition render_trace_detail :: "(int \<Rightarrow> string) \<Rightarrow> aggregator \<Rightarrow> trace_detail \<Rightarrow> trace_table option" where
  "render_trace_detail local_ms a td =
     (let root_open = (case span_by_id a (td_root_id td) of Some s \<Rightarrow> ws_opened_at_ns s | None \<Rightarrow> 0)
      in map_option (\<lambda>rs.
           \<lparr>tt_title = trace_title a td (length rs), tt_hint = trace_hint,
            tt_rows = map (\<lambda>(i, r). trace_row_to_row local_ms root_open (i = 0) a r) (enumerate 0 rs),
            tt_selected = (if rs = [] then None else Some (min (td_selected_idx td) (length rs - 1))),
            tt_message = (if rs = [] then ''(root span has fallen out of the cache)'' else [])\<rparr>)
         (visible_trace_rows a td))"

section \<open>What a trace shows\<close>

lemma shown_in_ring:
  "shown (ring_parent f) coll r d i e \<Longrightarrow> f r \<noteq> None \<Longrightarrow> f i \<noteq> None"
  by (induction rule: shown.induct) (auto simp: ring_parent_def split: option.splits)

definition row_in_ring :: "aggregator \<Rightarrow> trace_row \<Rightarrow> bool" where
  "row_in_ring a row =
     (case row of
        SpanRow i depth h x \<Rightarrow> by_id a i \<noteq> None
      | EventRow i n depth \<Rightarrow> (case by_id a i of None \<Rightarrow> False | Some e \<Rightarrow> n < length (ws_events (e_span e))))"

lemma rows_in_ring:
  assumes "by_id a r \<noteq> None" "row \<in> rows_from (ring_parent (by_id a)) (span_by_id a) coll r d"
  shows "row_in_ring a row"
proof -
  consider (span) i e h x where "row = SpanRow i e h x" "shown (ring_parent (by_id a)) coll r d i e"
    | (event) i n e where "row = EventRow i n (Suc e)" "shown (ring_parent (by_id a)) coll r d i e"
        "n < length (ws_events (the (span_by_id a i)))"
    using assms(2) unfolding rows_from_def by blast
  then show ?thesis
  proof cases
    case span
    with shown_in_ring assms(1) show ?thesis by (simp add: row_in_ring_def)
  next
    case event
    then obtain e' where "by_id a i = Some e'" using shown_in_ring assms(1) by blast
    with event show ?thesis by (simp add: row_in_ring_def span_by_id_def)
  qed
qed

text \<open>What a row must show: a span its total and self time as the table counts them, an event no time
  of its own; neither a message that it is missing, which has one part only.\<close>

definition cells_right :: "aggregator \<Rightarrow> trace_row \<Rightarrow> trace_cells \<Rightarrow> bool" where
  "cells_right a row cells =
     (2 \<le> length (tc_name cells) \<and>
      (case row of
         SpanRow i depth h x \<Rightarrow>
           (case by_id a i of None \<Rightarrow> False
            | Some e \<Rightarrow> tc_total cells = fmt_ns (e_total_ns e) \<and> tc_self cells = fmt_ns (e_self_ns e))
       | EventRow i n depth \<Rightarrow> tc_total cells = [] \<and> tc_self cells = []))"

lemma row_cells_right:
  assumes "agg_inv a" "row_in_ring a row"
  shows "cells_right a row (trace_row_to_row f o_ns is_root a row)"
proof (cases row)
  case (SpanRow i depth h x)
  then obtain e where e: "by_id a i = Some e" using assms(2) by (auto simp: row_in_ring_def)
  have "e_total_ns e = span_total_ns (e_span e)" "e_self_ns e = sat_sub (e_total_ns e) (child_sum_for a i)"
    using agg_invD(1,5) [OF assms(1)] e by (simp_all add: ring_ok_def self_ok_def)
  moreover have "span_total_ns s = latency_ns s" for s
    by (simp add: span_total_ns_def latency_ns_def sat_sub_def split: option.split)
  ultimately show ?thesis
    using e SpanRow by (simp add: cells_right_def trace_row_to_row_def span_by_id_def span_cells_def self_of_def)
next
  case (EventRow i n depth)
  then obtain e where "by_id a i = Some e" "n < length (ws_events (e_span e))"
    using assms(2) by (auto simp: row_in_ring_def split: option.splits)
  with EventRow show ?thesis
    by (simp add: cells_right_def trace_row_to_row_def span_by_id_def get_at_def event_cells_def)
qed

text \<open>C35. The trace view is always drawn: one row per visible span and event, none of them missing, and
  every span with the total and the self time that the table counts for it.\<close>

theorem trace_view_complete:
  assumes "agg_inv a"
  shows "\<exists>t rs. render_trace_detail f a td = Some t \<and> visible_trace_rows a td = Some rs \<and>
    list_all2 (cells_right a) rs (tt_rows t)"
proof -
  obtain rs where rs: "visible_trace_rows a td = Some rs"
    "set rs = (if by_id a (td_root_id td) = None then {}
       else rows_from (ring_parent (by_id a)) (span_by_id a) (td_collapsed td) (td_root_id td) 0)"
    using trace_rows_spec [OF assms] by blast
  then have "row_in_ring a row" if "row \<in> set rs" for row
    using that rows_in_ring [of a "td_root_id td" row] by (auto split: if_splits)
  then have "cells_right a (rs ! k) (trace_row_to_row f o_ns (k = 0) a (rs ! k))" if "k < length rs" for k o_ns
    using row_cells_right [OF assms] nth_mem [OF that] by blast
  with rs(1) show ?thesis
    by (auto simp: render_trace_detail_def Let_def list_all2_conv_all_nth enumerate_eq_zip)
qed

lemma trace_view_complete_witness:
  "\<exists>(t :: trace_table) rs. visible_trace_rows (sample_agg 3)
      \<lparr>td_root_id = 1, td_selected_idx = 0, td_collapsed = {2}, td_explore = explore_new [''a''] None\<rparr> = Some rs \<and>
    list_all2 (cells_right (sample_agg 3)) rs (tt_rows t)"
proof -
  have "agg_inv (sample_agg 3)" using sample_agg_inv [of 3] by simp
  from trace_view_complete [OF this, of "\<lambda>n. []"
      "\<lparr>td_root_id = 1, td_selected_idx = 0, td_collapsed = {2}, td_explore = explore_new [''a''] None\<rparr>"]
  show ?thesis by blast
qed

end
