(* ===== verification/Screen.thy ===== *)
theory Screen
  imports TableView GraphViewProps ExploreView ModelViews
begin

text \<open>
  One frame (\<open>render\<close> of \<open>tracing-console/src/view/mod.rs\<close>): the header of every view, the body of the
  view on the screen and the overlays. At the end: which states of the console can be drawn.
\<close>

record draw_env =
  de_libm :: libm
  de_clock :: clock
  de_local_ms :: "int \<Rightarrow> string"
  de_hash :: "string list \<Rightarrow> series_key \<Rightarrow> u64"

record table_body =
  tb_title :: string
  tb_border :: style
  tb_rows :: "table_row list"
  tb_selected :: "usize option"
  tb_details_title :: string
  tb_details_border :: style
  tb_details :: "tui_line list"
  tb_help :: "tui_line option"

definition render_table :: "bool \<Rightarrow> model \<Rightarrow> table_body" where
  "render_table colorize m =
     \<lparr>tb_title = stacks_title m, tb_border = focused_border_style (m_focus m = Stacks),
      tb_rows = table_rows colorize m, tb_selected = selected_row m (visible_rows m),
      tb_details_title = details_title m, tb_details_border = focused_border_style (m_focus m = Details),
      tb_details = detail_lines m, tb_help = map_option right_aligned (modal_status_bar m)\<rparr>"

datatype view_body =
    TableBody table_body
  | GraphBody chart details_pane
  | ExploreBody tui_line tui_line explore_table
  | TraceBody trace_table

definition render_graph :: "draw_env \<Rightarrow> bool \<Rightarrow> model \<Rightarrow> graph_state \<Rightarrow> view_body option" where
  "render_graph env colorize m gs =
     (let color_slots = assign_series_colors (de_hash env) gs
      in map_option (\<lambda>c. GraphBody c (render_graph_details m gs colorize color_slots))
           (render_chart (de_libm env) (de_clock env) color_slots colorize gs))"

definition render_body :: "draw_env \<Rightarrow> u16 \<Rightarrow> bool \<Rightarrow> model \<Rightarrow> view_body option" where
  "render_body env width colorize m =
     (case m_view m of
        TableView \<Rightarrow> Some (TableBody (render_table colorize m))
      | GraphView gs \<Rightarrow> render_graph env colorize m gs
      | ExploreView es \<Rightarrow>
          Some (ExploreBody (explore_status es) (explore_hints es) (render_explore (de_local_ms env) width m es))
      | TraceView td \<Rightarrow> map_option TraceBody (render_trace_detail (de_local_ms env) (m_agg m) td))"

record frame =
  fr_header :: tui_line
  fr_hint :: tui_line
  fr_body :: view_body
  fr_overlays :: "dialog list"

definition render :: "draw_env \<Rightarrow> rect \<Rightarrow> bool \<Rightarrow> model \<Rightarrow> frame option" where
  "render env area colorize m =
     map_option (\<lambda>body.
         \<lparr>fr_header = connection_header_line m, fr_hint = right_aligned (graph_toggle_hint m),
          fr_body = body, fr_overlays = overlays area m\<rparr>)
       (render_body env (rc_width area) colorize m)"

section \<open>What can be drawn\<close>














end
