(* ===== verification/Spec2Isabelle.thy ===== *)
theory Spec2Isabelle
  imports AggProps AggSplits Pipeline GraphProps ModelRows ServerOps Startup ViewProps Screen
begin

text \<open>
  A verification development for \<open>tracing-console\<close>, a live console for spans of the Rust \<open>tracing\<close>
  framework. The program has three crates. \<open>tracing-cache\<close> runs inside the observed process: a
  subscriber collects spans and events per thread and a driver joins them and fans them out.
  \<open>tracing-console-host\<close> streams closed spans to consoles over a socket and takes requests for the
  recording level and chance. \<open>tracing-console\<close> is the terminal program: it aggregates the stream
  in a bounded ring and shows it as a table, a graph and lists of instances.

  Parts and theories, in the order of the code.

  \<^item> \<open>Prelude\<close>, \<open>Float64\<close>, \<open>Rounding\<close>: integer widths, \<open>BTreeMap\<close> as a sorted association list, maps of waiting
    lists (locale \<open>parking\<close>), runs of fallible operations (locale \<open>guarded_machine\<close>); binary64 numbers
    as rationals with rounding, comparison, parsing and printing; what rounding guarantees.
  \<^item> \<open>Protocol\<close>: \<open>tracing-console-host/src/protocol.rs\<close>.
  \<^item> \<open>IdEncoding\<close>, \<open>CachePredicate\<close>, \<open>Records\<close>, \<open>Cache\<close>, \<open>CacheProps\<close>, \<open>CacheOps\<close>, \<open>Driver\<close>, \<open>System\<close>:
    \<open>tracing-cache/src\<close>. A thread's methods are single steps on the shared cache and the thread's own
    state; \<open>System\<close> interleaves any threads with the driver.
  \<^item> \<open>Aggregator\<close>, \<open>AggInv\<close>, \<open>AggAbsorb\<close>, \<open>AggProps\<close>, \<open>AggSplits\<close>: \<open>tracing-console/src/aggregate/state.rs\<close>.
    The ring, the buckets kept incrementally, the pool of spans that wait for their parent, split
    keys and snapshots (locale \<open>tally\<close> between one bucket and the table).
  \<^item> \<open>Text\<close>: orderings, Rust strings (their UTF-8 bytes), the modal buffers, \<open>aggregate/util.rs\<close>.
  \<^item> \<open>GraphStore\<close>, \<open>GraphProps\<close>: \<open>model/graph.rs\<close>, the bins of the graph and its state.
  \<^item> \<open>Explore\<close>, \<open>ExploreProps\<close>: \<open>model/explore.rs\<close>, the list of instances and the tree of one trace.
  \<^item> \<open>Model\<close>, \<open>ModelProps\<close>, \<open>ModelViews\<close>, \<open>ModelRows\<close>: \<open>model/core.rs\<close> and \<open>update.rs\<close>, the state of the
    console and its reducer, one definition per arm.
  \<^item> \<open>Wire\<close>, \<open>Server\<close>, \<open>ServerProps\<close>, \<open>ServerStreams\<close>, \<open>ServerOps\<close>: \<open>tracing-console-host/src/wire.rs\<close> and
    \<open>server.rs\<close>. The conversion of records; the level and chance all connections share and the guard
    that counts streams; the requests of a connection; a stream as a machine that is polled, with its
    greeting, its pushes, its level filter and sampling. A server action is one poll or one request
    of any connection, so a run is any interleaving of handlers; \<open>ServerOps\<close> splits the handlers and
    the drop of a connection into their operations, which those of other connections interrupt, and
    has the whole handlers as its uninterrupted runs (\<open>server_step_uninterrupted\<close>).
  \<^item> \<open>Keys\<close>, \<open>KeysProps\<close>: the keyboard thread of \<open>runtime.rs\<close> and the flags it shares with the terminal
    loop. \<open>Installer\<close>: \<open>installer.rs\<close> and \<open>args.rs\<close>. \<open>Runtime\<close>, \<open>NetProps\<close>: the network task, the
    terminal loop around the reducer and the states mode, as steps whose arguments are what sockets,
    channels and clocks answer. \<open>Startup\<close>: \<open>main.rs\<close> and \<open>run\<close>, where the modes start.
  \<^item> \<open>Console\<close>: the host, the network task, the terminal loop and the reducer together; \<open>Pipeline\<close>: the
    observed process as well, from its threads to the table.
  \<^item> \<open>Drawing\<close>, \<open>Stats\<close>: Rust's padding and number formats, styled text; the statistics mode \<open>stats.rs\<close>.
  \<^item> \<open>Header\<close>, \<open>TableView\<close>, \<open>GraphView\<close>, \<open>GraphViewProps\<close>, \<open>ExploreView\<close>, \<open>Screen\<close>, \<open>ViewProps\<close>:
    \<open>tracing-console/src/view\<close>. A view is the data it hands to ratatui: lines of styled text, rows of
    cells, the selected row, titles, the chart's data and axes, the dialogs with their areas.

  What the lemmas show. The aggregator keeps its invariant for any arrival order of distinct spans,
  its rows equal a recomputation from the ring, its snapshots restore it. The cache never panics and
  delivers every span at most once to each subscriber, in order, with its own events, under any
  interleaving. The host answers each request that expects a reply once and under its id, its streams
  send the spans their settings let pass and nothing else. Operation by operation, its counter of
  streams is right, only the console that leaves as the last one resets the settings, and that reset
  turns the recording off unless another console sets something meanwhile (\<open>reset_interleaved\<close>: a
  console that comes between the count and the reset is switched off). The reducer keeps the aggregator's invariant and returns on every update outside
  the graph's store; its prompts refine a small abstract machine (\<open>prompts_step\<close>), from which follow
  that settings only mirror the server, that quitting takes two presses and that an installation or
  restart happens only in its stage; its input boxes are typed; leaving the explore views restores
  the level. The walk over a trace ends because parents precede their children in the ring. Keys are
  routed by flags that agree with the state on the screen between steps; request ids are never used
  twice; only version numbers reach the installer's command line and its output reaches the screen
  without control characters, C1 ones included. End to end, a console in step with its stream shows the settings in force
  on the host and holds the spans that passed; what its table counts is what the threads of the
  process recorded, each span once and with its own events; a level key takes effect on the host, and
  so do the level and chance of the command line. The statistics mode counts as the interactive
  console does. Every reachable state can be drawn, but for a graph whose axis reaches a value that
  the step, lost in rounding, does not change, and then it cannot; the cursor of a graph's details is
  the line of the selected item and the only one highlighted; a row is never painted hotter than its parent, series get distinct colors while there are
  enough, the cursor of a scrolled list is on the screen.

  Locales. \<open>parking\<close>, \<open>guarded_machine\<close>, \<open>tally\<close>, \<open>resettable\<close> and \<open>enabled_predicate\<close> (the traits of
  the object pool and the predicates) are interpreted on the definitions of the model where
  they are used. \<open>watch_channel\<close> states what the documentation of tokio's watch channel says a
  receiver reads, over the calls made on the channel; the properties that need it take it as a
  hypothesis on the parameters \<open>he_level\<close> and \<open>he_chance\<close>, and the interpretation \<open>reference_watch\<close>
  shows that it can hold.

  Conventions. \<open>usize\<close> is \<open>nat\<close> where a length or index bounds it, a word where the code depends on
  its width; \<open>u64\<close> and \<open>u128\<close> are words and wrap, as in a release build. A loop that may not end is a
  partial function with value None; so is a panic. Random words, clocks, hash functions, the capacity
  of channels and the outcome of \<open>try_lock\<close> are arguments. Locks and atomics are taken one at a time
  in the code, and a method is one step here. On the host this hides interleavings: \<open>set_level\<close>,
  \<open>set_chance\<close> and \<open>guard_drop\<close> of \<open>Server\<close> perform several operations on the shared settings at once,
  and \<open>Console\<close> and \<open>Pipeline\<close> build on these whole handlers; \<open>ServerOps\<close> takes them apart, and
  \<open>set_level_interleaved\<close> and \<open>reset_interleaved\<close> say what concurrent callers can leave behind. A
  stream's arm, which only reads the settings, and the drop of its two receivers stay one step there.
  Parameters also
  stand for code outside the repository: the byte codes of protosocket's control codes, the libm
  functions of the graph (\<open>libm\<close>), the formatting of dates (\<open>clock\<close>, \<open>de_local_ms\<close>) and \<open>{:?}\<close> of
  a string. Bounds: the ring holds less than 2^32 spans and less than 2^64 ns of span time in all,
  without which the 32-bit counters and child sums wrap; 256 parents are walked to a root and 65 to a
  split value, as in the code; a turn of the network task takes at most 256 updates.

  Not modelled. Sockets, the protosocket RPC and its codec, message-pack and JSON encoding, the
  parser of the command line (clap), running \<open>bash\<close>, the terminal's raw mode, \<open>exec\<close> and the signals
  of a process are libraries and input/output; ratatui's splitting of the screen into areas and its
  painting of widgets too, so the sizes of panes are the constraints the code gives. Out of memory and
  the panic of an instant that no \<open>SystemTime\<close> can hold are left out. Derived and hand-written \<open>Debug\<close> and \<open>Clone\<close>
  copy values and have no definition. Tests, benches and examples are not part of the program.
\<close>

end
